(* ===== verification/BI_Prelude.thy ===== *)
theory BI_Prelude
  imports Main "HOL-Library.Word"
begin

text \<open>
  The prelude of the development: bytes, the values of Rust's \<^verbatim>\<open>Result\<close> with
  panics, the sequencing combinators that stand for the \<^verbatim>\<open>?\<close> operator, the
  checked or wrapping arithmetic of \<^verbatim>\<open>u64\<close>, and the generic lemmas on lists
  that the components share.

  \<^item> A byte (\<^verbatim>\<open>u8\<close>) is a \<open>char\<close>, HOL's 8-bit character, so that byte string
    literals of the source are string literals here.
  \<^item> A fallible call has the type \<open>('e, 'a) result\<close>: \<open>Inr\<close> is \<^verbatim>\<open>Ok\<close>,
    \<open>Inl (Fail e)\<close> is \<^verbatim>\<open>Err(e)\<close>, and \<open>Inl (Panic m)\<close> is a panic, which no
    caller in the source catches.
  \<^item> A call that also changes state returns \<open>('e, 'a) result \<times> 's\<close>; its state is
    kept on an error too, because the callers of the source can go on with it.
  \<^item> A call that contains a loop over a caller's \<^verbatim>\<open>Read\<close> may never return;
    it has the type \<open>('e, 'a, 's) outcome\<close>, an option of the above, where
    \<open>None\<close> is divergence.
\<close>

section \<open>Named collections\<close>

named_theorems outcome_simps \<open>how the sequencing combinators evaluate\<close>
named_theorems source_rules \<open>what a read of a byte source guarantees\<close>
named_theorems fmt_simps \<open>lengths and contents of formatted fields\<close>

section \<open>Bytes, results and outcomes\<close>

type_synonym byte = char
type_synonym bytes = "char list"

abbreviation CR :: byte where "CR \<equiv> CHR 0x0D"
abbreviation LF :: byte where "LF \<equiv> CHR 0x0A"

datatype 'e fault = Panic string | Fail 'e

type_synonym ('e, 'a) result = "'e fault + 'a"
type_synonym ('e, 'a, 's) outcome = "(('e, 'a) result \<times> 's) option"

abbreviation Ok :: "'a \<Rightarrow> ('e, 'a) result" where "Ok \<equiv> Inr"
abbreviation Err :: "'e \<Rightarrow> ('e, 'a) result" where "Err e \<equiv> Inl (Fail e)"
abbreviation panic :: "string \<Rightarrow> ('e, 'a) result" where "panic m \<equiv> Inl (Panic m)"

text \<open>
  \<open>bindR\<close>, \<open>bindT\<close> and \<open>bindO\<close> stand for \<^verbatim>\<open>let x = m?; ...\<close> on results, on
  results with a state, and on outcomes.
\<close>

fun bindR :: "('e, 'a) result \<Rightarrow> ('a \<Rightarrow> ('e, 'b) result) \<Rightarrow> ('e, 'b) result" where
  "bindR (Inl e) f = Inl e"
| "bindR (Inr a) f = f a"

fun bindT :: "('e, 'a) result \<times> 's \<Rightarrow> ('a \<Rightarrow> 's \<Rightarrow> ('e, 'b) result \<times> 's)
    \<Rightarrow> ('e, 'b) result \<times> 's" where
  "bindT (Inl e, s) f = (Inl e, s)"
| "bindT (Inr a, s) f = f a s"

fun bindO :: "('e, 'a, 's) outcome \<Rightarrow> ('a \<Rightarrow> 's \<Rightarrow> ('e, 'b, 's) outcome)
    \<Rightarrow> ('e, 'b, 's) outcome" where
  "bindO None f = None"
| "bindO (Some (Inl e, s)) f = Some (Inl e, s)"
| "bindO (Some (Inr a, s)) f = f a s"

text \<open>The \<^verbatim>\<open>From\<close> conversion that \<^verbatim>\<open>?\<close> and \<^verbatim>\<open>map_err\<close> apply to an error.\<close>

fun map_err :: "('e \<Rightarrow> 'f) \<Rightarrow> ('e, 'a) result \<Rightarrow> ('f, 'a) result" where
  "map_err c (Inl (Panic m)) = Inl (Panic m)"
| "map_err c (Inl (Fail e)) = Inl (Fail (c e))"
| "map_err c (Inr a) = Inr a"

fun map_errO :: "('e \<Rightarrow> 'f) \<Rightarrow> ('e, 'a, 's) outcome \<Rightarrow> ('f, 'a, 's) outcome" where
  "map_errO c None = None"
| "map_errO c (Some (r, s)) = Some (map_err c r, s)"

lemmas [outcome_simps] = bindR.simps bindT.simps bindO.simps map_err.simps map_errO.simps

lemma bindR_Inr_iff [simp]:
  "bindR m f = Inr b \<longleftrightarrow> (\<exists>a. m = Inr a \<and> f a = Inr b)"
  by (cases m) auto

lemma bindT_Inr_iff:
  "bindT m f = (Inr b, s') \<longleftrightarrow> (\<exists>a s. m = (Inr a, s) \<and> f a s = (Inr b, s'))"
  by (cases m; cases "fst m") auto

lemma bindO_Inr_iff:
  "bindO m f = Some (Inr b, s') \<longleftrightarrow>
     (\<exists>a s. m = Some (Inr a, s) \<and> f a s = Some (Inr b, s'))"
  by (cases "(m, f)" rule: bindO.cases) auto

lemma map_err_Inr_iff [simp]: "map_err c m = Inr a \<longleftrightarrow> m = Inr a"
  by (cases "(c, m)" rule: map_err.cases) auto

lemma map_errO_Inr_iff [simp]: "map_errO c m = Some (Inr a, s) \<longleftrightarrow> m = Some (Inr a, s)"
  by (cases "(c, m)" rule: map_errO.cases) auto

lemma map_errO_None_iff [simp]: "map_errO c m = None \<longleftrightarrow> m = None"
  by (cases "(c, m)" rule: map_errO.cases) auto

section \<open>Unsigned 64-bit arithmetic\<close>

text \<open>
  Sizes and offsets (\<^verbatim>\<open>u64\<close> and, on the 64-bit targets of the crate, \<^verbatim>\<open>usize\<close>)
  are naturals. Where an operation can leave the range the source uses the plain operators:
  they panic when the build has overflow checks (\<open>chk\<close>, a debug build) and wrap
  around otherwise. Counters that add up the lengths of bytes that are held in memory or in a
  file stay far below \<open>2 ^ 64\<close>; they are written with plain addition.
\<close>

definition u64_add :: "bool \<Rightarrow> nat \<Rightarrow> nat \<Rightarrow> ('e, nat) result" where
  "u64_add chk a b =
     (if a + b < 2 ^ 64 then Ok (a + b)
      else if chk then panic ''attempt to add with overflow''
      else Ok ((a + b) mod 2 ^ 64))"

definition u64_sub :: "bool \<Rightarrow> nat \<Rightarrow> nat \<Rightarrow> ('e, nat) result" where
  "u64_sub chk a b =
     (if b \<le> a then Ok (a - b)
      else if chk then panic ''attempt to subtract with overflow''
      else Ok ((2 ^ 64 + a - b) mod 2 ^ 64))"

definition u64_mul :: "bool \<Rightarrow> nat \<Rightarrow> nat \<Rightarrow> ('e, nat) result" where
  "u64_mul chk a b =
     (if a * b < 2 ^ 64 then Ok (a * b)
      else if chk then panic ''attempt to multiply with overflow''
      else Ok ((a * b) mod 2 ^ 64))"

definition u64_saturating_add :: "nat \<Rightarrow> nat \<Rightarrow> nat" where
  "u64_saturating_add a b = min (a + b) (2 ^ 64 - 1)"

text \<open>\<^verbatim>\<open>n as i64\<close>: two's complement reinterpretation.\<close>

definition as_i64 :: "nat \<Rightarrow> int" where
  "as_i64 n = (if n < 2 ^ 63 then int n else int n - 2 ^ 64)"

lemma u64_add_in_range [simp]: "a + b < 2 ^ 64 \<Longrightarrow> u64_add chk a b = Ok (a + b)"
  by (simp add: u64_add_def)

lemma u64_sub_in_range [simp]: "b \<le> a \<Longrightarrow> u64_sub chk a b = Ok (a - b)"
  by (simp add: u64_sub_def)

lemma u64_mul_in_range [simp]: "a * b < 2 ^ 64 \<Longrightarrow> u64_mul chk a b = Ok (a * b)"
  by (simp add: u64_mul_def)

lemma as_i64_small [simp]: "n < 2 ^ 63 \<Longrightarrow> as_i64 n = int n"
  by (simp add: as_i64_def)

section \<open>Lists\<close>

lemma take_drop_append_take: "take m xs @ take n (drop m xs) = take (m + n) xs"
  by (simp add: take_add)

lemma append_eq_takeD: "xs = bs @ ys \<Longrightarrow> bs = take (length bs) xs \<and> ys = drop (length bs) xs"
  by simp

lemma append_eq_prefixD:
  "xs @ ys = bs @ zs \<Longrightarrow> length bs \<le> length xs \<Longrightarrow>
     xs = bs @ drop (length bs) xs \<and> zs = drop (length bs) xs @ ys"
  by (auto simp: append_eq_append_conv2)

lemma take_length_append_le: "n \<le> length xs \<Longrightarrow> take n (xs @ ys) = take n xs"
  by simp

lemma concat_snoc [simp]: "concat (xs @ [x]) = concat xs @ x"
  by simp

lemma sum_list_length_concat: "sum_list (map length xss) = length (concat xss)"
  by (simp add: length_concat)

section \<open>Strings\<close>

text \<open>\<^verbatim>\<open>str::trim\<close> on an ASCII string.\<close>

definition is_space :: "byte \<Rightarrow> bool" where
  "is_space c \<longleftrightarrow> c \<in> set [CHR 0x09, CHR 0x0A, CHR 0x0B, CHR 0x0C, CHR 0x0D, CHR 0x20]"

definition trim :: "bytes \<Rightarrow> bytes" where
  "trim s = rev (dropWhile is_space (rev (dropWhile is_space s)))"

lemma dropWhile_id: "xs = [] \<or> \<not> P (hd xs) \<Longrightarrow> dropWhile P xs = xs"
  by (cases xs) auto

lemma trim_idem: "s = [] \<or> \<not> is_space (hd s) \<and> \<not> is_space (last s) \<Longrightarrow> trim s = s"
  using dropWhile_id [of s is_space] dropWhile_id [of "rev s" is_space]
  by (auto simp: trim_def hd_rev)

end
