(* ===== verification/Tune.thy ===== *)
theory Tune
  imports BI_Prelude
begin

text \<open>
  The tuning constants: \<^verbatim>\<open>Tunables\<close> and its builder \<^verbatim>\<open>Tuner\<close> (\<^verbatim>\<open>body-image/src/lib.rs\<close>),
  \<^verbatim>\<open>FutioTunables\<close> and \<^verbatim>\<open>FutioTuner\<close> (\<^verbatim>\<open>body-image-futio/src/tune.rs\<close>). A setter is one
  definition each; \<open>tuner_op\<close> names the setters so that a use of the builder is a list of
  them. The properties: a builder that finishes at all finishes with tunables that satisfy every
  invariant the builder asserts.
\<close>

section \<open>Tunables and Tuner\<close>

type_synonym path = string

record tunables =
  max_body_ram :: nat
  max_body :: nat
  buffer_size_ram :: nat
  buffer_size_fs :: nat
  size_estimate_deflate :: nat
  size_estimate_gzip :: nat
  size_estimate_brotli :: nat
  temp_dir :: path

text \<open>\<open>env_temp_dir\<close> is \<^verbatim>\<open>std::env::temp_dir()\<close>.\<close>

definition tunables_new :: "path \<Rightarrow> tunables" where
  "tunables_new env_temp_dir =
     \<lparr>max_body_ram = 192 * 1024,
      max_body = 1024 * 1024 * 1024,
      buffer_size_ram = 8 * 1024,
      buffer_size_fs = 64 * 1024,
      size_estimate_deflate = 4,
      size_estimate_gzip = 5,
      size_estimate_brotli = 6,
      temp_dir = env_temp_dir\<rparr>"

record tuner = template :: tunables

definition tuner_new :: "path \<Rightarrow> tuner" where
  "tuner_new env_temp_dir = \<lparr>template = tunables_new env_temp_dir\<rparr>"

definition set_max_body_ram :: "nat \<Rightarrow> tuner \<Rightarrow> ('e, tuner) result" where
  "set_max_body_ram sz t = Ok (t\<lparr>template := (template t)\<lparr>max_body_ram := sz\<rparr>\<rparr>)"

definition set_max_body :: "nat \<Rightarrow> tuner \<Rightarrow> ('e, tuner) result" where
  "set_max_body sz t = Ok (t\<lparr>template := (template t)\<lparr>max_body := sz\<rparr>\<rparr>)"

definition set_buffer_size_ram :: "nat \<Rightarrow> tuner \<Rightarrow> ('e, tuner) result" where
  "set_buffer_size_ram sz t =
     (if \<not> 0 < sz then panic ''buffer_size_ram must be greater than zero''
      else Ok (t\<lparr>template := (template t)\<lparr>buffer_size_ram := sz\<rparr>\<rparr>))"

definition set_buffer_size_fs :: "nat \<Rightarrow> tuner \<Rightarrow> ('e, tuner) result" where
  "set_buffer_size_fs sz t =
     (if \<not> 0 < sz then panic ''buffer_size_fs must be greater than zero''
      else Ok (t\<lparr>template := (template t)\<lparr>buffer_size_fs := sz\<rparr>\<rparr>))"

definition set_size_estimate_deflate :: "nat \<Rightarrow> tuner \<Rightarrow> ('e, tuner) result" where
  "set_size_estimate_deflate multiple t =
     (if \<not> 0 < multiple then panic ''size_estimate_deflate must be >= 1''
      else Ok (t\<lparr>template := (template t)\<lparr>size_estimate_deflate := multiple\<rparr>\<rparr>))"

definition set_size_estimate_gzip :: "nat \<Rightarrow> tuner \<Rightarrow> ('e, tuner) result" where
  "set_size_estimate_gzip multiple t =
     (if \<not> 0 < multiple then panic ''size_estimate_gzip must be >= 1''
      else Ok (t\<lparr>template := (template t)\<lparr>size_estimate_gzip := multiple\<rparr>\<rparr>))"

definition set_size_estimate_brotli :: "nat \<Rightarrow> tuner \<Rightarrow> ('e, tuner) result" where
  "set_size_estimate_brotli multiple t =
     (if \<not> 0 < multiple then panic ''size_estimate_brotli must be >= 1''
      else Ok (t\<lparr>template := (template t)\<lparr>size_estimate_brotli := multiple\<rparr>\<rparr>))"

definition set_temp_dir :: "path \<Rightarrow> tuner \<Rightarrow> ('e, tuner) result" where
  "set_temp_dir p t = Ok (t\<lparr>template := (template t)\<lparr>temp_dir := p\<rparr>\<rparr>)"

definition tuner_finish :: "tuner \<Rightarrow> ('e, tunables) result" where
  "tuner_finish t =
     (if \<not> max_body_ram (template t) \<le> max_body (template t)
      then panic ''max_body_ram can't be greater than max_body''
      else Ok (template t))"

datatype tuner_op = SetMaxBodyRam nat | SetMaxBody nat | SetBufferSizeRam nat
  | SetBufferSizeFs nat | SetSizeEstimateDeflate nat | SetSizeEstimateGzip nat
  | SetSizeEstimateBrotli nat | SetTempDir path

fun apply_tuner_op :: "tuner_op \<Rightarrow> tuner \<Rightarrow> ('e, tuner) result" where
  "apply_tuner_op (SetMaxBodyRam n) = set_max_body_ram n"
| "apply_tuner_op (SetMaxBody n) = set_max_body n"
| "apply_tuner_op (SetBufferSizeRam n) = set_buffer_size_ram n"
| "apply_tuner_op (SetBufferSizeFs n) = set_buffer_size_fs n"
| "apply_tuner_op (SetSizeEstimateDeflate n) = set_size_estimate_deflate n"
| "apply_tuner_op (SetSizeEstimateGzip n) = set_size_estimate_gzip n"
| "apply_tuner_op (SetSizeEstimateBrotli n) = set_size_estimate_brotli n"
| "apply_tuner_op (SetTempDir p) = set_temp_dir p"

fun run_tuner :: "tuner_op list \<Rightarrow> tuner \<Rightarrow> ('e, tunables) result" where
  "run_tuner [] t = tuner_finish t"
| "run_tuner (op # ops) t = bindR (apply_tuner_op op t) (run_tuner ops)"

definition buffers_ok :: "tunables \<Rightarrow> bool" where
  "buffers_ok t \<longleftrightarrow> 0 < buffer_size_ram t \<and> 0 < buffer_size_fs t \<and>
     0 < size_estimate_deflate t \<and> 0 < size_estimate_gzip t \<and> 0 < size_estimate_brotli t"

definition tunables_ok :: "tunables \<Rightarrow> bool" where
  "tunables_ok t \<longleftrightarrow> buffers_ok t \<and> max_body_ram t \<le> max_body t"

lemmas tuner_defs = set_max_body_ram_def set_max_body_def set_buffer_size_ram_def
  set_buffer_size_fs_def set_size_estimate_deflate_def set_size_estimate_gzip_def
  set_size_estimate_brotli_def set_temp_dir_def

lemma tunables_new_ok: "tunables_ok (tunables_new d)"
  by (simp add: tunables_ok_def buffers_ok_def tunables_new_def)

lemma apply_tuner_op_buffers:
  "apply_tuner_op op t = Ok t' \<Longrightarrow> buffers_ok (template t) \<Longrightarrow> buffers_ok (template t')"
  by (cases op) (auto simp: tuner_defs buffers_ok_def split: if_splits)

lemma run_tuner_ok:
  "run_tuner ops t = Ok u \<Longrightarrow> buffers_ok (template t) \<Longrightarrow> tunables_ok u"
proof (induction ops arbitrary: t)
  case Nil
  then show ?case by (auto simp: tuner_finish_def tunables_ok_def split: if_splits)
next
  case (Cons op ops)
  then show ?case using apply_tuner_op_buffers by fastforce
qed

text \<open>
  C40: Whatever setters are called on a new \<^verbatim>\<open>Tuner\<close>, in whatever order, a \<^verbatim>\<open>finish\<close> that
  returns gives \<^verbatim>\<open>Tunables\<close> with positive buffer sizes and size estimates and with
  \<^verbatim>\<open>max_body_ram <= max_body\<close>.
\<close>
theorem tuner_finish_invariants:
  assumes "run_tuner ops (tuner_new d) = Ok t"
  shows "0 < buffer_size_ram t \<and> 0 < buffer_size_fs t \<and> 0 < size_estimate_deflate t \<and>
    0 < size_estimate_gzip t \<and> 0 < size_estimate_brotli t \<and> max_body_ram t \<le> max_body t"
  using run_tuner_ok [OF assms] tunables_new_ok [of d]
  by (auto simp: tuner_new_def tunables_ok_def buffers_ok_def)

theorem tuner_finish_invariants_witness:
  "\<exists>t. run_tuner [SetMaxBody 6, SetMaxBodyRam 6] (tuner_new ''/tmp'') = (Ok t :: (unit, tunables) result) \<and>
     0 < buffer_size_ram t \<and> max_body_ram t = 6 \<and> max_body_ram t \<le> max_body t"
proof -
  have "run_tuner [SetMaxBody 6, SetMaxBodyRam 6] (tuner_new ''/tmp'') =
      (Ok ((tunables_new ''/tmp'')\<lparr>max_body_ram := 6, max_body := 6\<rparr>) :: (unit, tunables) result)"
    by (simp add: tuner_new_def tunables_new_def tuner_defs tuner_finish_def)
  note h = this
  show ?thesis
    using h tuner_finish_invariants [OF h]
    by (intro exI [where x = "(tunables_new ''/tmp'')\<lparr>max_body_ram := 6, max_body := 6\<rparr>"])
      (simp del: run_tuner.simps)
qed

section \<open>FutioTunables and FutioTuner\<close>

text \<open>
  Durations are in nanoseconds. \<open>'q\<close> is the type of the reference to a semaphore of the
  \<^emph>\<open>blocking-permit\<close> crate.
\<close>

datatype 'q blocking_policy = Direct | Permit 'q | Dispatch

record 'q futio_tunables =
  image :: tunables
  res_timeout :: "nat option"
  body_timeout :: "nat option"
  blocking_policy :: "'q blocking_policy"
  stream_item_size :: nat

definition futio_tunables_new :: "path \<Rightarrow> 'q futio_tunables" where
  "futio_tunables_new env_temp_dir =
     \<lparr>image = tunables_new env_temp_dir,
      res_timeout = None,
      body_timeout = Some (60 * 1000000000),
      blocking_policy = Direct,
      stream_item_size = 512 * 1024\<rparr>"

definition blocking_semaphore :: "'q futio_tunables \<Rightarrow> 'q option" where
  "blocking_semaphore t = (case blocking_policy t of Permit q \<Rightarrow> Some q | _ \<Rightarrow> None)"

datatype 'q futio_tuner_op = SetImage tunables | SetStreamItemSize nat | SetResTimeout nat
  | UnsetResTimeout | SetBodyTimeout nat | UnsetBodyTimeout | SetBlockingPolicy "'q blocking_policy"

fun apply_futio_tuner_op ::
  "'q futio_tuner_op \<Rightarrow> 'q futio_tunables \<Rightarrow> ('e, 'q futio_tunables) result" where
  "apply_futio_tuner_op (SetImage i) t = Ok (t\<lparr>image := i\<rparr>)"
| "apply_futio_tuner_op (SetStreamItemSize n) t =
     (if \<not> 0 < n then panic ''stream_item_size must be greater than zero''
      else Ok (t\<lparr>stream_item_size := n\<rparr>))"
| "apply_futio_tuner_op (SetResTimeout d) t = Ok (t\<lparr>res_timeout := Some d\<rparr>)"
| "apply_futio_tuner_op UnsetResTimeout t = Ok (t\<lparr>res_timeout := None\<rparr>)"
| "apply_futio_tuner_op (SetBodyTimeout d) t = Ok (t\<lparr>body_timeout := Some d\<rparr>)"
| "apply_futio_tuner_op UnsetBodyTimeout t = Ok (t\<lparr>body_timeout := None\<rparr>)"
| "apply_futio_tuner_op (SetBlockingPolicy p) t = Ok (t\<lparr>blocking_policy := p\<rparr>)"

definition futio_tuner_finish :: "'q futio_tunables \<Rightarrow> ('e, 'q futio_tunables) result" where
  "futio_tuner_finish t =
     (case (res_timeout t, body_timeout t) of
        (Some r, Some b) \<Rightarrow>
          if \<not> r \<le> b then panic ''res_timeout can't be greater than body_timeout'' else Ok t
      | _ \<Rightarrow> Ok t)"

fun run_futio_tuner ::
  "'q futio_tuner_op list \<Rightarrow> 'q futio_tunables \<Rightarrow> ('e, 'q futio_tunables) result" where
  "run_futio_tuner [] t = futio_tuner_finish t"
| "run_futio_tuner (op # ops) t = bindR (apply_futio_tuner_op op t) (run_futio_tuner ops)"

definition futio_ok :: "'q futio_tunables \<Rightarrow> bool" where
  "futio_ok t \<longleftrightarrow> 0 < stream_item_size t \<and>
     (case (res_timeout t, body_timeout t) of (Some r, Some b) \<Rightarrow> r \<le> b | _ \<Rightarrow> True)"

lemma run_futio_tuner_ok:
  "run_futio_tuner ops t = Ok u \<Longrightarrow> 0 < stream_item_size t \<Longrightarrow> futio_ok u"
proof (induction ops arbitrary: t)
  case Nil
  then show ?case
    by (auto simp: futio_tuner_finish_def futio_ok_def split: option.splits if_splits)
next
  case (Cons op ops)
  then show ?case
    by (cases op) (auto split: if_splits intro: Cons.IH)
qed

end
