(* ===== verification/Std_IO.thy ===== *)
theory Std_IO
  imports BI_Prelude
begin

text \<open>
  What the crates use of Rust's \<^verbatim>\<open>std::io\<close> and \<^verbatim>\<open>std::fs\<close>, and the contracts of the
  traits \<^verbatim>\<open>Read\<close> and \<^verbatim>\<open>Write\<close> as locales.

  \<^item> A \<^verbatim>\<open>Read\<close> implementation is a function \<open>rd\<close>: \<open>rd r k\<close> is one call
    \<^verbatim>\<open>r.read(buf)\<close> with a buffer of \<open>k\<close> bytes; it returns the bytes placed in the
    buffer (none at the end of the source) or an error, and the reader's next state.
    \<open>read_source\<close> is the trait's contract, \<open>steady_source\<close> a source whose only
    errors are interruptions.
  \<^item> A \<^verbatim>\<open>Write\<close> implementation is a function \<open>wr\<close>: \<open>wr o bs\<close> is \<^verbatim>\<open>o.write_all(bs)\<close>.
    \<open>write_sink\<close> is its contract, errors after a part was written included.
  \<^item> A \<^verbatim>\<open>File\<close> opened for writing is its contents and the handle's position. Its
    operations take an \<open>io_script\<close>, the environment's decisions on the operations to
    come: each entry lets one operation succeed, or makes it fail after some bytes.
\<close>

section \<open>Errors and seeking\<close>

datatype io_error = Interrupted | UnexpectedEof | WriteZero | InvalidInput | NotFound
  | OtherIo nat

datatype seek_from = SeekStart nat | SeekEnd int | SeekCurrent int

section \<open>Readers\<close>

type_synonym 'r reader = "'r \<Rightarrow> nat \<Rightarrow> (io_error + bytes) \<times> 'r"

text \<open>\<^verbatim>\<open>Read::read_exact\<close>: \<open>acc\<close> holds the bytes already placed in the buffer.\<close>

partial_function (option) read_exact_loop ::
  "'r reader \<Rightarrow> bytes \<Rightarrow> 'r \<Rightarrow> nat \<Rightarrow> (io_error, bytes, 'r) outcome" where
  "read_exact_loop rd acc r k =
     (if k = 0 then Some (Ok acc, r)
      else case rd r k of
        (Inr bs, r') \<Rightarrow>
          if bs = [] then Some (Err UnexpectedEof, r')
          else read_exact_loop rd (acc @ bs) r' (k - length bs)
      | (Inl e, r') \<Rightarrow>
          if e = Interrupted then read_exact_loop rd acc r' k
          else Some (Err e, r'))"

definition read_exact :: "'r reader \<Rightarrow> 'r \<Rightarrow> nat \<Rightarrow> (io_error, bytes, 'r) outcome" where
  "read_exact rd r k = read_exact_loop rd [] r k"

text \<open>\<^verbatim>\<open>io::Cursor\<close> over a byte slice: the contents and the position.\<close>

record cursor =
  cur_bytes :: bytes
  cur_pos :: nat

definition cursor_new :: "bytes \<Rightarrow> cursor" where
  "cursor_new bs = \<lparr>cur_bytes = bs, cur_pos = 0\<rparr>"

definition cursor_read :: "cursor reader" where
  "cursor_read c k =
     (let bs = take k (drop (cur_pos c) (cur_bytes c))
      in (Inr bs, c\<lparr>cur_pos := cur_pos c + length bs\<rparr>))"

section \<open>Writers and files\<close>

type_synonym 'w writer = "'w \<Rightarrow> bytes \<Rightarrow> (io_error + unit) \<times> 'w"

text \<open>\<^verbatim>\<open>impl Write for Vec<u8>\<close>.\<close>

definition vec_write_all :: "bytes writer" where
  "vec_write_all v bs = (Inr (), v @ bs)"

text \<open>
  \<^verbatim>\<open>io::copy\<close>: reads through a buffer of 8 KiB until the end of the source and returns
  the number of bytes copied.
\<close>

partial_function (option) io_copy ::
  "'r reader \<Rightarrow> 'w writer \<Rightarrow> nat \<Rightarrow> 'r \<Rightarrow> 'w \<Rightarrow> (io_error, nat, 'r \<times> 'w) outcome" where
  "io_copy rd wr copied r out =
     (case rd r 8192 of
        (Inr bs, r') \<Rightarrow>
          if bs = [] then Some (Ok copied, (r', out))
          else (case wr out bs of
            (Inr u, out') \<Rightarrow> io_copy rd wr (copied + length bs) r' out'
          | (Inl e, out') \<Rightarrow> Some (Err e, (r', out')))
      | (Inl e, r') \<Rightarrow>
          if e = Interrupted then io_copy rd wr copied r' out
          else Some (Err e, (r', out)))"

text \<open>
  The environment's script: \<open>None\<close> lets the next operation succeed, \<open>Some (n, e)\<close>
  makes it fail with \<open>e\<close>, a write after its first \<open>n\<close> bytes. Operations past the end
  of the script succeed.
\<close>

type_synonym io_script = "(nat \<times> io_error) option list"

record fsfile =
  content :: bytes
  fpos :: nat

definition put_at :: "nat \<Rightarrow> bytes \<Rightarrow> bytes \<Rightarrow> bytes" where
  "put_at p bs c =
     take p c @ replicate (p - length c) (CHR 0x00) @ bs @ drop (p + length bs) c"

definition file_put :: "fsfile \<Rightarrow> bytes \<Rightarrow> fsfile" where
  "file_put f bs =
     (if bs = [] then f
      else f\<lparr>content := put_at (fpos f) bs (content f), fpos := fpos f + length bs\<rparr>)"

text \<open>
  \<^verbatim>\<open>Write::write_all\<close> on a file: it issues no write for an empty slice and retries
  after an interruption with what is left.
\<close>

fun file_write_all :: "(fsfile \<times> io_script) writer" where
  "file_write_all (f, []) bs = (Inr (), (file_put f bs, []))"
| "file_write_all (f, None # w) bs =
     (if bs = [] then (Inr (), (f, None # w)) else (Inr (), (file_put f bs, w)))"
| "file_write_all (f, Some (n, e) # w) bs =
     (if bs = [] then (Inr (), (f, Some (n, e) # w))
      else if e = Interrupted then file_write_all (file_put f (take n bs), w) (drop n bs)
      else (Inl e, (file_put f (take n bs), w)))"

text \<open>\<^verbatim>\<open>File::seek\<close>, returning the new position.\<close>

fun seek_target :: "fsfile \<Rightarrow> seek_from \<Rightarrow> int" where
  "seek_target f (SeekStart n) = int n"
| "seek_target f (SeekEnd i) = int (length (content f)) + i"
| "seek_target f (SeekCurrent i) = int (fpos f) + i"

fun file_seek :: "seek_from \<Rightarrow> fsfile \<times> io_script \<Rightarrow> (io_error + nat) \<times> (fsfile \<times> io_script)" where
  "file_seek sf (f, w) =
     (let t = seek_target f sf;
          go = (\<lambda>w'. if t < 0 then (Inl InvalidInput, (f, w'))
                     else (Inr (nat t), (f\<lparr>fpos := nat t\<rparr>, w')))
      in case w of
           [] \<Rightarrow> go []
         | None # w' \<Rightarrow> go w'
         | Some (n, e) # w' \<Rightarrow> (Inl e, (f, w')))"

section \<open>The contract of a writer\<close>

text \<open>
  \<open>good o\<close> is the sink's own invariant and \<open>written o\<close> everything it has received: a
  success appends all of the bytes, a failure some prefix of them.
\<close>

locale write_sink =
  fixes wr :: "'w writer"
    and good :: "'w \<Rightarrow> bool"
    and written :: "'w \<Rightarrow> bytes"
  assumes write_ok: "wr o' bs = (Inr u, o'') \<Longrightarrow> good o' \<Longrightarrow>
      good o'' \<and> written o'' = written o' @ bs"
    and write_err: "wr o' bs = (Inl e, o'') \<Longrightarrow> good o' \<Longrightarrow>
      good o'' \<and> (\<exists>n. written o'' = written o' @ take n bs)"

text \<open>
  \<open>emits\<close> lifts this to a call that writes \<open>full\<close> in several steps, and \<open>refuses\<close>
  says that a good sink can give the error.
\<close>

definition emits ::
  "('w \<Rightarrow> bool) \<Rightarrow> ('w \<Rightarrow> bytes) \<Rightarrow> 'w \<Rightarrow> bytes \<Rightarrow> ('e + 'a) \<times> 'w \<Rightarrow> bool" where
  "emits good written out full m \<longleftrightarrow>
     good (snd m) \<and>
     (case fst m of
        Inr a \<Rightarrow> written (snd m) = written out @ full
      | Inl f \<Rightarrow> \<exists>n. written (snd m) = written out @ take n full)"

definition refuses :: "'w writer \<Rightarrow> ('w \<Rightarrow> bool) \<Rightarrow> io_error \<Rightarrow> bool" where
  "refuses wr good e \<longleftrightarrow> (\<exists>o' bs. good o' \<and> fst (wr o' bs) = Inl e)"

lemma emits_good: "emits good written out full m \<Longrightarrow> good (snd m)"
  by (simp add: emits_def)

lemma emits_Inr [simp]:
  "emits good written out full (Inr a, out') \<longleftrightarrow> good out' \<and> written out' = written out @ full"
  by (simp add: emits_def)

lemma emits_nil: "good out \<Longrightarrow> emits good written out [] (x, out)"
  by (simp add: emits_def split: sum.splits)

lemma emits_seq:
  assumes "emits good written out A (Inr a, o1)" and "emits good written o1 B m"
  shows "emits good written out (A @ B) m"
proof (cases "fst m")
  case (Inl f)
  then obtain n where n: "written (snd m) = written o1 @ take n B"
    using assms(2) by (auto simp: emits_def)
  have "written (snd m) = written out @ take (length A + n) (A @ B)"
    using assms(1) by (simp add: n)
  then have "\<exists>n. written (snd m) = written out @ take n (A @ B)" by blast
  then show ?thesis
    using assms(2) Inl by (simp add: emits_def)
qed (use assms in \<open>auto simp: emits_def\<close>)

lemma emits_stop:
  assumes "emits good written out A (Inl f, o1)"
  shows "emits good written out (A @ B) (Inl g, o1)"
proof -
  obtain n where n: "written o1 = written out @ take n A"
    using assms by (auto simp: emits_def)
  then have "written o1 = written out @ take (min n (length A)) (A @ B)"
    by (simp add: min_def)
  then have "\<exists>n. written o1 = written out @ take n (A @ B)" by blast
  then show ?thesis
    using assms by (simp add: emits_def)
qed

lemma emits_fail: "emits good written out A (Inr a, o1) \<Longrightarrow> emits good written out A (Inl f, o1)"
  unfolding emits_def by (simp, rule exI [of _ "length A"]) simp

lemma emits_conv:
  "emits good written out A (x, o1) \<Longrightarrow> isl y = isl x \<Longrightarrow> emits good written out A (y, o1)"
  by (cases x; cases y) (auto simp: emits_def)

lemma emits_bindT:
  assumes "emits good written out A m"
    and "\<And>a o1. m = (Inr a, o1) \<Longrightarrow> good o1 \<Longrightarrow> emits good written o1 B (f a o1)"
  shows "emits good written out (A @ B) (bindT m f)"
proof (cases "(m, f)" rule: bindT.cases)
  case (1 e s f')
  then show ?thesis using assms(1) emits_stop by auto
next
  case (2 a s f')
  then show ?thesis using assms emits_seq [of good written out A a s B "f a s"] emits_good by auto
qed

text \<open>
  \<open>emitsO\<close> is \<open>emits\<close> for a call that may not return, which it also rules out, with what
  a success returns; \<open>keepsO\<close> says that it returns with an invariant of the sink kept.
\<close>

definition emitsO ::
  "('w \<Rightarrow> bool) \<Rightarrow> ('w \<Rightarrow> bytes) \<Rightarrow> 'w \<Rightarrow> bytes \<Rightarrow> ('a \<Rightarrow> bool) \<Rightarrow> (('e + 'a) \<times> 'w) option \<Rightarrow> bool" where
  "emitsO good written out full P m \<longleftrightarrow>
     (\<exists>x out'. m = Some (x, out') \<and> emits good written out full (x, out') \<and> (\<forall>a. x = Inr a \<longrightarrow> P a))"

definition keepsO :: "('w \<Rightarrow> bool) \<Rightarrow> ('a \<times> 'w) option \<Rightarrow> bool" where
  "keepsO P m \<longleftrightarrow> (\<exists>x out'. m = Some (x, out') \<and> P out')"

definition preserves :: "('w \<Rightarrow> bool) \<Rightarrow> 'w writer \<Rightarrow> bool" where
  "preserves P wr \<longleftrightarrow> (\<forall>out bs. P out \<longrightarrow> P (snd (wr out bs)))"

lemma preservesD: "preserves P wr \<Longrightarrow> P out \<Longrightarrow> P (snd (wr out bs))"
  by (simp add: preserves_def)

lemma emitsO_Some:
  "emitsO good written out full P (Some (x, out')) \<longleftrightarrow>
     emits good written out full (x, out') \<and> (\<forall>a. x = Inr a \<longrightarrow> P a)"
  by (simp add: emitsO_def)

lemma emitsO_bind:
  assumes "emitsO good written out A P m"
    and "\<And>a o1. P a \<Longrightarrow> good o1 \<Longrightarrow> emitsO good written o1 B Q (f a o1)"
  shows "emitsO good written out (A @ B) Q (bindO m f)"
proof -
  obtain x o1 where m: "m = Some (x, o1)" "emits good written out A (x, o1)"
    "\<forall>a. x = Inr a \<longrightarrow> P a"
    using assms(1) by (auto simp: emitsO_def)
  show ?thesis
  proof (cases x)
    case (Inl e)
    then show ?thesis using m emits_stop [OF m(2) [unfolded Inl]] by (simp add: emitsO_Some)
  next
    case (Inr a)
    then obtain y o2 where y: "f a o1 = Some (y, o2)" "emits good written o1 B (y, o2)"
      "\<forall>b. y = Inr b \<longrightarrow> Q b"
      using assms(2) [of a o1] m emits_good [OF m(2)] by (auto simp: emitsO_def)
    then show ?thesis
      using m Inr emits_seq [OF m(2) [unfolded Inr] y(2)] by (simp add: emitsO_Some)
  qed
qed

lemma emitsO_bind_nil:
  assumes "emitsO good written out A P m"
    and "\<And>a o1. P a \<Longrightarrow> good o1 \<Longrightarrow> emitsO good written o1 [] Q (f a o1)"
  shows "emitsO good written out A Q (bindO m f)"
  using emitsO_bind [of good written out A P m "[]" Q f] assms by simp

lemma Some_bindT: "Some (bindT m f) = bindO (Some m) (\<lambda>a out. Some (f a out))"
  by (cases "(m, f)" rule: bindT.cases) auto

lemma emitsO_bindT:
  assumes "emitsO good written out A P (Some m)"
    and "\<And>a o1. P a \<Longrightarrow> good o1 \<Longrightarrow> emitsO good written o1 B Q (Some (f a o1))"
  shows "emitsO good written out (A @ B) Q (Some (bindT m f))"
  unfolding Some_bindT by (rule emitsO_bind [OF assms])

lemma emitsO_mono:
  "emitsO good written out A P m \<Longrightarrow> (\<And>a. P a \<Longrightarrow> Q a) \<Longrightarrow> emitsO good written out A Q m"
  by (auto simp: emitsO_def)

lemma emitsO_map_err:
  "emitsO good written out full P m \<Longrightarrow> emitsO good written out full P (map_errO c m)"
proof (cases "(c, m)" rule: map_errO.cases)
  case (2 c' r s)
  assume h: "emitsO good written out full P m"
  have "isl (map_err c' r) = isl r"
    by (cases "(c', r)" rule: map_err.cases) auto
  then show ?thesis
    using 2 h by (auto simp: emitsO_Some intro: emits_conv)
qed (simp add: emitsO_def)

text \<open>A call that succeeds.\<close>

definition okO :: "(('e + 'a) \<times> 'w) option \<Rightarrow> bool" where
  "okO m \<longleftrightarrow> (\<exists>a out'. m = Some (Inr a, out'))"

lemma okO_simps [simp]: "okO (Some (Inr a, out))" "\<not> okO (Some (Inl e, out))" "\<not> okO None"
  by (simp_all add: okO_def)

lemma okO_bind:
  assumes "okO m" and "emitsO good written out A P m"
    and "\<And>a o1. P a \<Longrightarrow> good o1 \<Longrightarrow> okO (f a o1)"
  shows "okO (bindO m f)"
  using assms by (auto simp: okO_def emitsO_Some)

lemma okO_bindT:
  assumes "okO (Some m)" and "emitsO good written out A P (Some m)"
    and "\<And>a o1. P a \<Longrightarrow> good o1 \<Longrightarrow> okO (Some (f a o1))"
  shows "okO (Some (bindT m f))"
  unfolding Some_bindT by (rule okO_bind [OF assms])

lemma emitsO_return: "good out \<Longrightarrow> P a \<Longrightarrow> emitsO good written out [] P (Some (Inr a, out))"
  by (simp add: emitsO_Some)

lemma emitsO_fail: "good out \<Longrightarrow> emitsO good written out [] P (Some (Inl x, out))"
  by (simp add: emitsO_Some emits_nil)

lemma keepsO_Some [simp]: "keepsO P (Some m) \<longleftrightarrow> P (snd m)"
  by (cases m) (simp add: keepsO_def)

lemma keepsO_None [simp]: "\<not> keepsO P None"
  by (simp add: keepsO_def)

lemma keepsO_bind:
  "keepsO P m \<Longrightarrow> (\<And>a o1. P o1 \<Longrightarrow> keepsO P (f a o1)) \<Longrightarrow> keepsO P (bindO m f)"
  by (cases "(m, f)" rule: bindO.cases) (auto simp: keepsO_def)

lemma keepsO_map_err: "keepsO P (map_errO c m) \<longleftrightarrow> keepsO P m"
  by (cases "(c, m)" rule: map_errO.cases) auto

context write_sink
begin

lemma wr_emits: "good out \<Longrightarrow> emits good written out bs (wr out bs)"
  using write_ok write_err by (cases "wr out bs"; cases "fst (wr out bs)") (auto simp: emits_def)

lemma write_appends:
  assumes "wr o' bs = (v, o'')" and "good o'"
  obtains n where "good o''" and "written o'' = written o' @ take n bs"
proof (cases v)
  case (Inl e)
  then show ?thesis using assms write_err that by blast
next
  case (Inr u)
  then show ?thesis using assms write_ok that [of "length bs"] by auto
qed

end

interpretation vec: write_sink vec_write_all "\<lambda>_. True" "\<lambda>v. v"
  by unfold_locales (auto simp: vec_write_all_def)

lemma vec_never_refuses [simp]: "\<not> refuses vec_write_all good e"
  by (auto simp: refuses_def vec_write_all_def)

section \<open>The contract of a reader\<close>

text \<open>
  \<open>stream r\<close> is everything the source delivers over its life, \<open>off r\<close> how much of it
  has been read, and \<open>patience r\<close> bounds the interruptions still to come, so that a
  loop that retries them ends.
\<close>

locale read_source =
  fixes rd :: "'r reader"
    and stream :: "'r \<Rightarrow> bytes"
    and off :: "'r \<Rightarrow> nat"
    and patience :: "'r \<Rightarrow> nat"
  assumes read_ok: "rd r k = (Inr bs, r') \<Longrightarrow>
      stream r' = stream r \<and> off r' = off r + length bs \<and> patience r' \<le> patience r \<and>
      length bs \<le> k \<and> bs = take (length bs) (drop (off r) (stream r))"
    and read_eof: "rd r k = (Inr [], r') \<Longrightarrow> 0 < k \<Longrightarrow> length (stream r) \<le> off r"
    and read_interrupted: "rd r k = (Inl Interrupted, r') \<Longrightarrow>
      stream r' = stream r \<and> off r' = off r \<and> patience r' < patience r"
begin

text \<open>\<open>r'\<close> is \<open>r\<close> after \<open>n\<close> more bytes were read.\<close>

definition advanced :: "'r \<Rightarrow> nat \<Rightarrow> 'r \<Rightarrow> bool" where
  "advanced r n r' \<longleftrightarrow> stream r' = stream r \<and> off r' = off r + n \<and> patience r' \<le> patience r"

definition rest :: "'r \<Rightarrow> bytes" where
  "rest r = drop (off r) (stream r)"

lemma advanced_refl [simp, intro]: "advanced r 0 r"
  by (simp add: advanced_def)

lemma advanced_trans: "advanced r m r' \<Longrightarrow> advanced r' n r'' \<Longrightarrow> advanced r (m + n) r''"
  by (simp add: advanced_def)

lemma advancedD:
  assumes "advanced r n r'"
  shows "stream r' = stream r" and "off r' = off r + n" and "patience r' \<le> patience r"
    and "rest r' = drop n (rest r)"
  using assms by (simp_all add: advanced_def rest_def add.commute)

lemma read_advances:
  assumes "rd r k = (Inr bs, r')"
  shows "advanced r (length bs) r'" and "length bs \<le> k" and "rest r = bs @ rest r'"
proof -
  note h = read_ok [OF assms]
  show "advanced r (length bs) r'" and "length bs \<le> k"
    using h by (simp_all add: advanced_def)
  have "bs = take (length bs) (rest r)" and "rest r' = drop (length bs) (rest r)"
    using h by (simp_all add: rest_def add.commute)
  then show "rest r = bs @ rest r'"
    by (metis append_take_drop_id)
qed

lemma read_end: "rd r k = (Inr [], r') \<Longrightarrow> 0 < k \<Longrightarrow> rest r = []"
  using read_eof by (simp add: rest_def)

lemma interrupted_advances:
  "rd r k = (Inl Interrupted, r') \<Longrightarrow>
     advanced r 0 r' \<and> patience r' < patience r \<and> rest r' = rest r"
  using read_interrupted by (simp add: advanced_def rest_def less_imp_le)

lemma source_cases:
  obtains (interrupted) r' where "rd r k = (Inl Interrupted, r')" "advanced r 0 r'"
      "patience r' < patience r" "rest r' = rest r"
  | (failed) e r' where "rd r k = (Inl e, r')" "e \<noteq> Interrupted"
  | (eof) r' where "rd r k = (Inr [], r')" "k = 0 \<or> rest r = []" "advanced r 0 r'"
      "rest r' = rest r"
  | (some) b bs r' where "rd r k = (Inr (b # bs), r')" "advanced r (length (b # bs)) r'"
      "length (b # bs) \<le> k" "rest r = b # bs @ rest r'"
proof (cases "rd r k")
  case (Pair v r')
  show ?thesis
  proof (cases v)
    case (Inl e)
    with Pair show ?thesis
      using interrupted failed interrupted_advances by (cases "e = Interrupted") blast+
  next
    case (Inr bs)
    with Pair have rd: "rd r k = (Inr bs, r')" by simp
    note adv = read_advances [OF rd]
    show ?thesis
    proof (cases bs)
      case Nil
      then show ?thesis
        using eof rd adv read_end by fastforce
    next
      case (Cons b bs')
      then show ?thesis
        using some [of b bs' r'] rd adv by simp
    qed
  qed
qed

end

locale steady_source = read_source +
  assumes no_fail: "rd r k = (Inl e, r') \<Longrightarrow> e = Interrupted"
begin

lemma read_cases:
  obtains (interrupted) r' where "rd r k = (Inl Interrupted, r')" "advanced r 0 r'"
      "patience r' < patience r" "rest r' = rest r"
  | (eof) r' where "rd r k = (Inr [], r')" "k = 0 \<or> rest r = []" "advanced r 0 r'"
      "rest r' = rest r"
  | (some) b bs r' where "rd r k = (Inr (b # bs), r')" "advanced r (length (b # bs)) r'"
      "length (b # bs) \<le> k" "rest r = b # bs @ rest r'"
  by (cases rule: source_cases [of r k]) (use no_fail in blast)+

lemma read_exact_loop_ok:
  "k \<le> length (rest r) \<Longrightarrow>
     \<exists>r'. read_exact_loop rd acc r k = Some (Ok (acc @ take k (rest r)), r') \<and> advanced r k r'"
proof (induction "patience r + k" arbitrary: acc r k rule: less_induct)
  case less
  show ?case
  proof (cases "k = 0")
    case True
    then show ?thesis by (simp add: read_exact_loop.simps)
  next
    case k: False
    show ?thesis
    proof (cases rule: read_cases [of r k])
      case (interrupted r')
      then obtain r'' where "read_exact_loop rd acc r' k = Some (Ok (acc @ take k (rest r)), r'')"
        "advanced r' k r''"
        using less.hyps [of r' k acc] less.prems by auto
      then show ?thesis
        using interrupted k advanced_trans [of r 0 r' k r'']
        by (simp add: read_exact_loop.simps [of rd acc r])
    next
      case (eof r')
      then show ?thesis using k less.prems by auto
    next
      case (some b bs r')
      let ?n = "length (b # bs)"
      have "patience r' + (k - ?n) < patience r + k"
        using some advancedD(3) [OF some(2)] by simp
      moreover have "k - ?n \<le> length (rest r')"
        using some less.prems by simp
      ultimately obtain r'' where
        "read_exact_loop rd (acc @ b # bs) r' (k - ?n) =
           Some (Ok ((acc @ b # bs) @ take (k - ?n) (rest r')), r'')"
        "advanced r' (k - ?n) r''"
        using less.hyps by blast
      then show ?thesis
        using some k advanced_trans [of r ?n r' "k - ?n" r'']
        by (simp add: read_exact_loop.simps [of rd acc r] take_Cons')
    qed
  qed
qed

lemma read_exact_loop_short:
  "length (rest r) < k \<Longrightarrow>
     \<exists>r'. read_exact_loop rd acc r k = Some (Err UnexpectedEof, r') \<and>
          advanced r (length (rest r)) r'"
proof (induction "patience r + k" arbitrary: acc r k rule: less_induct)
  case less
  then have k: "k \<noteq> 0" by auto
  show ?case
  proof (cases rule: read_cases [of r k])
    case (interrupted r')
    then obtain r'' where "read_exact_loop rd acc r' k = Some (Err UnexpectedEof, r'')"
      "advanced r' (length (rest r)) r''"
      using less.hyps [of r' k acc] less.prems by auto
    then show ?thesis
      using interrupted k advanced_trans [of r 0 r' "length (rest r)" r'']
      by (simp add: read_exact_loop.simps [of rd acc r])
  next
    case (eof r')
    then show ?thesis using k by (simp add: read_exact_loop.simps [of rd acc r])
  next
    case (some b bs r')
    let ?n = "length (b # bs)"
    have "patience r' + (k - ?n) < patience r + k"
      using some advancedD(3) [OF some(2)] by simp
    moreover have "length (rest r') < k - ?n"
      using some less.prems by simp
    ultimately obtain r'' where
      "read_exact_loop rd (acc @ b # bs) r' (k - ?n) = Some (Err UnexpectedEof, r'')"
      "advanced r' (length (rest r')) r''"
      using less.hyps by blast
    then show ?thesis
      using some k advanced_trans [of r ?n r' "length (rest r')" r'']
      by (simp add: read_exact_loop.simps [of rd acc r])
  qed
qed

lemma read_exact_ok:
  assumes "k \<le> length (rest r)"
  obtains r' where "read_exact rd r k = Some (Ok (take k (rest r)), r')" "advanced r k r'"
  using read_exact_loop_ok [OF assms, of "[]"] by (auto simp: read_exact_def)

lemma read_exact_short:
  assumes "length (rest r) < k"
  obtains r' where "read_exact rd r k = Some (Err UnexpectedEof, r')"
    "advanced r (length (rest r)) r'"
  using read_exact_loop_short [OF assms, of "[]"] by (auto simp: read_exact_def)

text \<open>Copying from a steady source into a sink that may fail.\<close>

lemma io_copy_emits:
  assumes ws: "write_sink wr good written"
  shows "good out \<Longrightarrow>
     \<exists>x r' out'. io_copy rd wr n r out = Some (x, (r', out')) \<and>
       emits good written out (rest r) (x, out') \<and>
       (case x of
          Inr m \<Rightarrow> m = n + length (rest r) \<and> advanced r (length (rest r)) r'
        | Inl f \<Rightarrow> \<exists>e. f = Fail e \<and> refuses wr good e)"
proof (induction "patience r + length (rest r)" arbitrary: n r out rule: less_induct)
  case less
  show ?case
  proof (cases rule: read_cases [of r 8192])
    case (interrupted r')
    then show ?thesis
      using less.hyps [of r' out n] less.prems advanced_trans [of r 0 r']
      by (fastforce simp add: io_copy.simps [of rd wr n r] split: sum.splits)
  next
    case (eof r')
    then show ?thesis
      using less.prems by (auto simp add: io_copy.simps [of rd wr n r])
  next
    case (some b bs r')
    let ?buf = "b # bs"
    obtain v o1 where o1: "wr out ?buf = (v, o1)" by (rule prod.exhaust)
    have em: "emits good written out ?buf (v, o1)"
      using write_sink.wr_emits [OF ws less.prems, of ?buf] o1 by simp
    show ?thesis
    proof (cases v)
      case (Inl e)
      then have "refuses wr good e"
        using o1 less.prems unfolding refuses_def by (metis fst_conv)
      moreover have "emits good written out (?buf @ rest r') (Inl (Fail e), o1)"
        by (rule emits_stop [OF em [unfolded Inl]])
      ultimately show ?thesis
        using some o1 Inl by (simp add: io_copy.simps [of rd wr n r])
    next
      case (Inr u)
      have "patience r' + length (rest r') < patience r + length (rest r)"
        using some advancedD(3) [OF some(2)] by simp
      then obtain x r'' out' where
        r'': "io_copy rd wr (n + length ?buf) r' o1 = Some (x, (r'', out'))"
        "emits good written o1 (rest r') (x, out')"
        "case x of
          Inr m \<Rightarrow> m = n + length ?buf + length (rest r') \<and> advanced r' (length (rest r')) r''
        | Inl f \<Rightarrow> \<exists>e. f = Fail e \<and> refuses wr good e"
        using less.hyps [of r' o1 "n + length ?buf"] emits_good [OF em] by auto
      have "emits good written out (?buf @ rest r') (x, out')"
        by (rule emits_seq [OF em [unfolded Inr] r''(2)])
      then show ?thesis
        using some o1 Inr r'' advanced_trans [of r "length ?buf" r' "length (rest r')" r'']
        by (auto simp add: io_copy.simps [of rd wr n r] split: sum.splits)
    qed
  qed
qed

lemma io_copy_keeps:
  assumes wr: "preserves P wr"
  shows "P out \<Longrightarrow> \<exists>x r' out'. io_copy rd wr n r out = Some (x, (r', out')) \<and> P out'"
proof (induction "patience r + length (rest r)" arbitrary: n r out rule: less_induct)
  case less
  show ?case
  proof (cases rule: read_cases [of r 8192])
    case (interrupted r')
    then show ?thesis
      using less.hyps [of r' out n] less.prems by (simp add: io_copy.simps [of rd wr n r])
  next
    case (eof r')
    then show ?thesis
      using less.prems by (simp add: io_copy.simps [of rd wr n r])
  next
    case (some b bs r')
    obtain v o1 where v: "wr out (b # bs) = (v, o1)" by (rule prod.exhaust)
    have "P o1" using preservesD [OF wr less.prems, of "b # bs"] v by simp
    moreover have "patience r' + length (rest r') < patience r + length (rest r)"
      using some advancedD(3) [OF some(2)] by simp
    ultimately have "\<exists>x r'' out'. io_copy rd wr (n + length (b # bs)) r' o1 = Some (x, (r'', out')) \<and> P out'"
      using less.hyps by blast
    then show ?thesis
      using some v \<open>P o1\<close> by (cases v) (simp_all add: io_copy.simps [of rd wr n r])
  qed
qed

end

interpretation std_cursor: steady_source cursor_read cur_bytes cur_pos "\<lambda>_. 0"
  by unfold_locales (auto simp: cursor_read_def Let_def min_def)

section \<open>Appending to a file\<close>

text \<open>A file handle that stands at the end of the file appends.\<close>

definition at_end :: "fsfile \<times> io_script \<Rightarrow> bool" where
  "at_end fw \<longleftrightarrow> fpos (fst fw) = length (content (fst fw))"

lemma put_at_end [simp]: "put_at (length c) bs c = c @ bs"
  by (simp add: put_at_def)

lemma file_put_end:
  "fpos f = length (content f) \<Longrightarrow>
     file_put f bs = \<lparr>content = content f @ bs, fpos = length (content f @ bs)\<rparr>"
  by (simp add: file_put_def)

lemma file_write_all_end:
  assumes "at_end fw"
  shows "case file_write_all fw bs of
      (Inr u, fw') \<Rightarrow> at_end fw' \<and> content (fst fw') = content (fst fw) @ bs
    | (Inl e, fw') \<Rightarrow> at_end fw' \<and> e \<noteq> Interrupted \<and>
        (\<exists>n. content (fst fw') = content (fst fw) @ take n bs)"
  using assms
proof (induction fw bs rule: file_write_all.induct)
  case (3 f n e w bs)
  show ?case
  proof (cases "bs \<noteq> [] \<and> e = Interrupted")
    case True
    let ?fw = "(file_put f (take n bs), w)"
    have "at_end ?fw" and c: "content (fst ?fw) = content f @ take n bs"
      using "3.prems" by (auto simp: at_end_def file_put_end)
    then have "case file_write_all ?fw (drop n bs) of
        (Inr u, fw') \<Rightarrow> at_end fw' \<and> content (fst fw') = content (fst ?fw) @ drop n bs
      | (Inl e, fw') \<Rightarrow> at_end fw' \<and> e \<noteq> Interrupted \<and>
          (\<exists>m. content (fst fw') = content (fst ?fw) @ take m (drop n bs))"
      using "3.IH" True by simp
    then show ?thesis
      using True by (auto simp: c take_drop_append_take simp del: fst_conv split: prod.splits sum.splits)
        (auto simp flip: take_add)
  next
    case False
    then show ?thesis
      using "3.prems" by (auto simp: at_end_def file_put_end)
  qed
qed (auto simp: at_end_def file_put_end)

interpretation file_end: write_sink file_write_all at_end "\<lambda>fw. content (fst fw)"
proof
  fix fw bs u fw'
  assume "file_write_all fw bs = (Inr u, fw')" and "at_end fw"
  then show "at_end fw' \<and> content (fst fw') = content (fst fw) @ bs"
    using file_write_all_end [of fw bs] by simp
next
  fix fw bs e fw'
  assume "file_write_all fw bs = (Inl e, fw')" and "at_end fw"
  then show "at_end fw' \<and> (\<exists>n. content (fst fw') = content (fst fw) @ take n bs)"
    using file_write_all_end [of fw bs] by simp
qed

text \<open>A file whose script holds no failure accepts everything.\<close>

definition calm :: "io_script \<Rightarrow> bool" where
  "calm w \<longleftrightarrow> set w \<subseteq> {None}"

lemma calm_Nil [simp]: "calm []" and calm_Cons [simp]: "calm (x # w) \<longleftrightarrow> x = None \<and> calm w"
  by (auto simp: calm_def)

lemma file_write_all_calm:
  "calm (snd fw) \<Longrightarrow> \<exists>fw'. file_write_all fw bs = (Inr (), fw') \<and> calm (snd fw')"
  by (induction fw bs rule: file_write_all.induct) auto

definition calm_end :: "fsfile \<times> io_script \<Rightarrow> bool" where
  "calm_end fw \<longleftrightarrow> at_end fw \<and> calm (snd fw)"

interpretation calm_file: write_sink file_write_all calm_end "\<lambda>fw. content (fst fw)"
proof
  fix fw bs u fw'
  assume "file_write_all fw bs = (Inr u, fw')" and "calm_end fw"
  then show "calm_end fw' \<and> content (fst fw') = content (fst fw) @ bs"
    using file_end.write_ok [of fw bs u fw'] file_write_all_calm [of fw bs]
    by (auto simp: calm_end_def)
next
  fix fw bs e fw'
  assume "file_write_all fw bs = (Inl e, fw')" and "calm_end fw"
  then show "calm_end fw' \<and> (\<exists>n. content (fst fw') = content (fst fw) @ take n bs)"
    using file_write_all_calm [of fw bs] by (auto simp: calm_end_def)
qed

lemma calm_never_refuses [simp]: "\<not> refuses file_write_all calm_end e"
  unfolding refuses_def calm_end_def
  by (metis file_write_all_calm fst_conv sum.distinct(1))

text \<open>Overwriting bytes in the middle of a file, which may stop part of the way.\<close>

lemma put_at_over:
  "length bs \<le> length old \<Longrightarrow>
     put_at (length c) bs (c @ old @ r) = c @ bs @ drop (length bs) old @ r"
  by (simp add: put_at_def)

lemma file_write_all_over:
  assumes "content (fst fw) = c @ old @ r" and "fpos (fst fw) = length c"
    and "length bs \<le> length old"
  shows "\<exists>x fw' n. file_write_all fw bs = (x, fw') \<and> n \<le> length bs \<and>
    content (fst fw') = c @ take n bs @ drop n old @ r \<and> (\<forall>u. x = Inr u \<longrightarrow> n = length bs)"
  using assms
proof (induction fw bs arbitrary: c old rule: file_write_all.induct)
  case (3 f n e w bs)
  let ?n = "min n (length bs)"
  have f: "content f = c @ old @ r" "fpos f = length c" using "3.prems" by simp_all
  have put: "content (file_put f (take n bs)) = c @ take ?n bs @ drop ?n old @ r"
    using f "3.prems"(3) put_at_over [of "take n bs" old c r]
    by (auto simp: file_put_def min_def)
  show ?case
  proof (cases "bs \<noteq> [] \<and> e = Interrupted")
    case True
    have pos: "fpos (file_put f (take n bs)) = length (c @ take ?n bs)"
      using f by (auto simp: file_put_def)
    have "\<exists>x fw' m. file_write_all (file_put f (take n bs), w) (drop n bs) = (x, fw') \<and>
        m \<le> length (drop n bs) \<and>
        content (fst fw') = (c @ take ?n bs) @ take m (drop n bs) @ drop m (drop ?n old) @ r \<and>
        (\<forall>u. x = Inr u \<longrightarrow> m = length (drop n bs))"
      using True put pos "3.prems"(3) by (intro "3.IH") auto
    then obtain x fw' m where m:
      "file_write_all (file_put f (take n bs), w) (drop n bs) = (x, fw')" "m \<le> length (drop n bs)"
      "content (fst fw') = (c @ take ?n bs) @ take m (drop n bs) @ drop m (drop ?n old) @ r"
      "\<forall>u. x = Inr u \<longrightarrow> m = length (drop n bs)"
      by blast
    have "take ?n bs @ take m (drop n bs) = take (?n + m) bs"
      by (cases "n \<le> length bs") (auto simp: take_add min_def)
    then have "content (fst fw') = c @ take (?n + m) bs @ drop (?n + m) old @ r"
      using m(3) by (simp add: add.commute)
    then show ?thesis
      using m True by (intro exI [of _ x] exI [of _ fw'] exI [of _ "?n + m"]) auto
  next
    case False
    then show ?thesis
      using f put by (cases "bs = []") (auto intro: exI [of _ 0] exI [of _ ?n])
  qed
next
  case (1 f bs)
  then show ?case using put_at_over [of bs old c r] by (auto simp: file_put_def)
next
  case (2 f w bs)
  then show ?case using put_at_over [of bs old c r] by (auto simp: file_put_def)
qed

end
