(* ===== verification/Errors.thy ===== *)
theory Errors
  imports Std_IO
begin

text \<open>
  The error enumerations: \<^verbatim>\<open>BodyError\<close> of \<^emph>\<open>body-image\<close>, \<^verbatim>\<open>BarcError\<close> and
  \<^verbatim>\<open>DialogConvertError\<close> of \<^emph>\<open>barc\<close>, and the compression modes that
  \<^verbatim>\<open>BarcError\<close> mentions. The conversions that \<^verbatim>\<open>From\<close> gives the \<^verbatim>\<open>?\<close> operator
  are the constructors \<open>BodyIo\<close>, \<open>Io\<close>, \<open>Body\<close> and \<open>IntoDialog\<close>.
\<close>

section \<open>Error enumerations\<close>

text \<open>
  The causes that come from the crates \<^emph>\<open>http\<close>, \<^emph>\<open>httparse\<close> and \<^emph>\<open>hyper\<close> are opaque
  values; a \<open>flaw\<close> is such a cause.
\<close>

datatype flaw = Flaw string

datatype body_error = BodyTooLong nat | BodyIo io_error | BodyFutureProof

datatype convert_error = NoMetaUrl | InvalidUrl flaw | NoMetaMethod | InvalidMethod flaw
  | NoMetaResVersion | InvalidVersion bytes | NoMetaResStatus | MalformedMetaResStatus
  | InvalidStatusCode flaw | InvalidResDecoded string | ConvertFutureProof

datatype compression = Plain | Gzip | Brotli

datatype barc_error = Body body_error | Io io_error | UnknownRecordType byte
  | UnknownCompression byte | DecoderUnsupported compression | ReadIncompleteRecHead nat
  | ReadInvalidRecHead | ReadInvalidRecHeadHex byte | InvalidHeader flaw
  | IntoDialog convert_error | BarcFutureProof

end
