(* ===== verification/Body_Sink.thy ===== *)
theory Body_Sink
  imports Errors Tune
begin

text \<open>
  \<^verbatim>\<open>BodySink\<close> of \<^verbatim>\<open>body-image/src/lib.rs\<close>: a body that is being written, held as a list of
  RAM buffers or in a temporary file.

  The creation of temporary files is the \<^emph>\<open>tempfile\<close> crate's: a parameter \<open>tmp\<close> of the
  operations that use it, with the contract \<open>temp_files\<close>. The capacities given to
  \<^verbatim>\<open>Vec::with_capacity\<close> are allocation hints and have no place in the model.

  \<open>byte_sink\<close> is what the readers and the asynchronous sink rely on: a push that succeeds
  appends, and the length is that of the bytes.
\<close>

section \<open>State and operations\<close>

type_synonym temp_fn = "path \<Rightarrow> io_script \<Rightarrow> (io_error + fsfile) \<times> io_script"

datatype sink_state = SinkRam "bytes list" | FsWrite fsfile

record body_sink =
  bs_state :: sink_state
  bs_len :: nat

definition sink_with_ram_buffers :: body_sink where
  "sink_with_ram_buffers = \<lparr>bs_state = SinkRam [], bs_len = 0\<rparr>"

definition sink_empty :: body_sink where
  "sink_empty = sink_with_ram_buffers"

definition sink_with_ram :: "nat \<Rightarrow> body_sink" where
  "sink_with_ram size_estimate =
     (if size_estimate = 0 then sink_empty else sink_with_ram_buffers)"

definition sink_with_fs ::
  "temp_fn \<Rightarrow> path \<Rightarrow> io_script \<Rightarrow> (body_error, body_sink) result \<times> io_script" where
  "sink_with_fs tmp dir w =
     (case tmp dir w of
        (Inr f, w') \<Rightarrow> (Ok \<lparr>bs_state = FsWrite f, bs_len = 0\<rparr>, w')
      | (Inl e, w') \<Rightarrow> (Err (BodyIo e), w'))"

definition sink_is_ram :: "body_sink \<Rightarrow> bool" where
  "sink_is_ram s = (case bs_state s of SinkRam v \<Rightarrow> True | FsWrite f \<Rightarrow> False)"

definition sink_is_empty :: "body_sink \<Rightarrow> bool" where
  "sink_is_empty s = (bs_len s = 0)"

definition sink_push ::
  "body_sink \<Rightarrow> bytes \<Rightarrow> io_script \<Rightarrow> (io_error, unit) result \<times> (body_sink \<times> io_script)" where
  "sink_push s buf w =
     (case bs_state s of
        SinkRam v \<Rightarrow>
          (if 0 < length buf
           then (Ok (), (\<lparr>bs_state = SinkRam (v @ [buf]), bs_len = bs_len s + length buf\<rparr>, w))
           else (Ok (), (s, w)))
      | FsWrite f \<Rightarrow>
          (if 0 < length buf
           then (case file_write_all (f, w) buf of
               (Inr u, (f', w')) \<Rightarrow>
                 (Ok (), (\<lparr>bs_state = FsWrite f', bs_len = bs_len s + length buf\<rparr>, w'))
             | (Inl e, (f', w')) \<Rightarrow> (Err e, (s\<lparr>bs_state := FsWrite f'\<rparr>, w')))
           else (Ok (), (s, w))))"

text \<open>The deprecated \<^verbatim>\<open>save\<close>: \<^verbatim>\<open>push\<close> with the error converted.\<close>

definition sink_save ::
  "body_sink \<Rightarrow> bytes \<Rightarrow> io_script \<Rightarrow> (body_error, unit) result \<times> (body_sink \<times> io_script)" where
  "sink_save s buf w = (case sink_push s buf w of (r, sw) \<Rightarrow> (map_err BodyIo r, sw))"

definition sink_write_all ::
  "body_sink \<Rightarrow> bytes \<Rightarrow> io_script \<Rightarrow> (io_error, unit) result \<times> (body_sink \<times> io_script)" where
  "sink_write_all s buf w =
     (if 0 < length buf
      then (case bs_state s of
          SinkRam v \<Rightarrow>
            (Ok (), (\<lparr>bs_state = SinkRam (v @ [buf]), bs_len = bs_len s + length buf\<rparr>, w))
        | FsWrite f \<Rightarrow>
            (case file_write_all (f, w) buf of
               (Inr u, (f', w')) \<Rightarrow>
                 (Ok (), (\<lparr>bs_state = FsWrite f', bs_len = bs_len s + length buf\<rparr>, w'))
             | (Inl e, (f', w')) \<Rightarrow> (Err e, (s\<lparr>bs_state := FsWrite f'\<rparr>, w'))))
      else (Ok (), (s, w)))"

text \<open>The loop of \<^verbatim>\<open>write_back\<close>: each buffer is written to the new file, then dropped.\<close>

fun write_buffers ::
  "fsfile \<times> io_script \<Rightarrow> bytes list \<Rightarrow> (io_error + unit) \<times> (fsfile \<times> io_script)" where
  "write_buffers fw [] = (Inr (), fw)"
| "write_buffers fw (b # bs) =
     (case file_write_all fw b of
        (Inr u, fw') \<Rightarrow> write_buffers fw' bs
      | (Inl e, fw') \<Rightarrow> (Inl e, fw'))"

text \<open>
  \<^verbatim>\<open>write_back\<close>: the state is cut to an empty \<^verbatim>\<open>Ram\<close> before the file is created, so that
  is what an error leaves.
\<close>

definition sink_write_back ::
  "temp_fn \<Rightarrow> path \<Rightarrow> body_sink \<Rightarrow> io_script
     \<Rightarrow> (body_error, unit) result \<times> (body_sink \<times> io_script)" where
  "sink_write_back tmp dir s w =
     (case bs_state s of
        SinkRam v \<Rightarrow>
          (let cut = \<lparr>bs_state = SinkRam [], bs_len = 0\<rparr>
           in case tmp dir w of
                (Inl e, w') \<Rightarrow> (Err (BodyIo e), (cut, w'))
              | (Inr f, w') \<Rightarrow>
                  (case write_buffers (f, w') v of
                     (Inl e, (f', w'')) \<Rightarrow> (Err (BodyIo e), (cut, w''))
                   | (Inr u, (f', w'')) \<Rightarrow>
                       (Ok (), (\<lparr>bs_state = FsWrite f', bs_len = bs_len s\<rparr>, w''))))
      | FsWrite f \<Rightarrow> (Ok (), (s, w)))"

section \<open>Abstraction and invariant\<close>

definition sink_bytes :: "body_sink \<Rightarrow> bytes" where
  "sink_bytes s = (case bs_state s of SinkRam v \<Rightarrow> concat v | FsWrite f \<Rightarrow> content f)"

text \<open>
  The length counts the bytes, no RAM buffer is empty, and the file handle stands at the end.
\<close>

definition sink_ok :: "body_sink \<Rightarrow> bool" where
  "sink_ok s \<longleftrightarrow> bs_len s = length (sink_bytes s) \<and>
     (case bs_state s of SinkRam v \<Rightarrow> [] \<notin> set v | FsWrite f \<Rightarrow> fpos f = length (content f))"

locale temp_files =
  fixes tmp :: temp_fn
  assumes new_file: "tmp d w = (Inr f, w') \<Longrightarrow> content f = [] \<and> fpos f = 0"

text \<open>A temporary directory that follows the environment's script.\<close>

definition scripted_tempfile :: temp_fn where
  "scripted_tempfile d w =
     (case w of
        [] \<Rightarrow> (Inr \<lparr>content = [], fpos = 0\<rparr>, [])
      | None # w' \<Rightarrow> (Inr \<lparr>content = [], fpos = 0\<rparr>, w')
      | Some (n, e) # w' \<Rightarrow> (Inl e, w'))"

interpretation scripted_tmp: temp_files scripted_tempfile
  by unfold_locales (auto simp: scripted_tempfile_def split: list.splits option.splits)

locale byte_sink =
  fixes push :: "'s \<Rightarrow> bytes \<Rightarrow> 'w \<Rightarrow> (io_error, unit) result \<times> ('s \<times> 'w)"
    and sbytes :: "'s \<Rightarrow> bytes"
    and slen :: "'s \<Rightarrow> nat"
    and sok :: "'s \<Rightarrow> bool"
  assumes push_ok: "push s buf w = (Inr u, (s', w')) \<Longrightarrow> sok s \<Longrightarrow>
      sok s' \<and> sbytes s' = sbytes s @ buf"
    and push_fail: "push s buf w = (Inl x, (s', w')) \<Longrightarrow> sok s \<Longrightarrow>
      (\<exists>e. x = Fail e \<and> e \<noteq> Interrupted) \<and> slen s' = slen s \<and>
      (\<exists>n. sbytes s' = sbytes s @ take n buf)"
    and len_ok: "sok s \<Longrightarrow> slen s = length (sbytes s)"
begin

lemma push_len: "push s buf w = (Inr u, (s', w')) \<Longrightarrow> sok s \<Longrightarrow> slen s' = slen s + length buf"
  using push_ok [of s buf w u s' w'] len_ok by auto

lemma push_no_panic: "push s buf w = (Inl x, (s', w')) \<Longrightarrow> sok s \<Longrightarrow> x \<noteq> Panic m"
  using push_fail [of s buf w x s' w'] by auto

end

lemma sink_write_all_eq_push: "sink_write_all s buf w = sink_push s buf w"
  by (simp add: sink_write_all_def sink_push_def split: sink_state.splits)

lemma sink_push_cases:
  assumes "sink_ok s"
  shows "case sink_push s buf w of
      (Inr u, (s', w')) \<Rightarrow> sink_ok s' \<and> sink_bytes s' = sink_bytes s @ buf \<and>
        sink_is_ram s' = sink_is_ram s \<and> (sink_is_ram s \<longrightarrow> w' = w)
    | (Inl x, (s', w')) \<Rightarrow> \<not> sink_is_ram s \<and> \<not> sink_is_ram s' \<and>
        (\<exists>e. x = Fail e \<and> e \<noteq> Interrupted) \<and>
        bs_len s' = bs_len s \<and> (\<exists>n. sink_bytes s' = sink_bytes s @ take n buf)"
proof (cases "bs_state s")
  case (SinkRam v)
  then show ?thesis
    using assms by (auto simp: sink_push_def sink_ok_def sink_bytes_def sink_is_ram_def)
next
  case (FsWrite f)
  then have "at_end (f, w)"
    using assms by (simp add: sink_ok_def at_end_def)
  from file_write_all_end [OF this, of buf] show ?thesis
    using assms FsWrite
    by (auto simp: sink_push_def sink_ok_def sink_bytes_def sink_is_ram_def at_end_def
        split: prod.splits sum.splits)
qed

lemma sink_push_calm:
  assumes "calm w"
  shows "\<exists>s' w'. sink_push s buf w = (Ok (), (s', w')) \<and> calm w'"
proof (cases "bs_state s")
  case (FsWrite f)
  then show ?thesis
    using assms file_write_all_calm [of "(f, w)" buf]
    by (cases "file_write_all (f, w) buf") (auto simp: sink_push_def split: prod.splits)
qed (use assms in \<open>simp add: sink_push_def\<close>)

interpretation pushing: byte_sink sink_push sink_bytes bs_len sink_ok
proof
  fix s buf w u s' w'
  assume "sink_push s buf w = (Inr u, (s', w'))" and "sink_ok s"
  then show "sink_ok s' \<and> sink_bytes s' = sink_bytes s @ buf"
    using sink_push_cases [of s buf w] by simp
next
  fix s buf w x s' w'
  assume "sink_push s buf w = (Inl x, (s', w'))" and "sink_ok s"
  then show "(\<exists>e. x = Fail e \<and> e \<noteq> Interrupted) \<and> bs_len s' = bs_len s \<and>
      (\<exists>n. sink_bytes s' = sink_bytes s @ take n buf)"
    using sink_push_cases [of s buf w] by simp
next
  fix s
  assume "sink_ok s"
  then show "bs_len s = length (sink_bytes s)" by (simp add: sink_ok_def)
qed

interpretation writing: byte_sink sink_write_all sink_bytes bs_len sink_ok
  by unfold_locales
    (simp_all add: sink_write_all_eq_push pushing.push_ok pushing.push_fail pushing.len_ok)

lemma sink_new_ok [simp]:
  "sink_ok sink_empty" "sink_ok sink_with_ram_buffers" "sink_ok (sink_with_ram n)"
  "sink_bytes sink_empty = []" "sink_bytes sink_with_ram_buffers = []"
  "sink_bytes (sink_with_ram n) = []"
  "sink_is_ram sink_empty" "sink_is_ram sink_with_ram_buffers" "sink_is_ram (sink_with_ram n)"
  by (simp_all add: sink_with_ram_def sink_empty_def sink_with_ram_buffers_def sink_ok_def
      sink_bytes_def sink_is_ram_def)

lemma write_buffers_end:
  "at_end fw \<Longrightarrow>
     case write_buffers fw bs of
       (Inr u, fw') \<Rightarrow> at_end fw' \<and> content (fst fw') = content (fst fw) @ concat bs
     | (Inl e, fw') \<Rightarrow> e \<noteq> Interrupted"
proof (induction bs arbitrary: fw)
  case Nil
  then show ?case by simp
next
  case (Cons b bs)
  obtain r fw' where b: "file_write_all fw b = (r, fw')" by (rule prod.exhaust)
  show ?case
  proof (cases r)
    case (Inl e)
    then show ?thesis using file_write_all_end [OF Cons.prems, of b] b by simp
  next
    case (Inr u)
    then have "at_end fw'" and c: "content (fst fw') = content (fst fw) @ b"
      using file_write_all_end [OF Cons.prems, of b] b by simp_all
    from Cons.IH [OF this(1)] show ?thesis
      by (auto simp: b Inr c split: prod.splits sum.splits)
  qed
qed

lemma write_buffers_calm:
  "calm (snd fw) \<Longrightarrow> \<exists>fw'. write_buffers fw bs = (Inr (), fw') \<and> calm (snd fw')"
proof (induction bs arbitrary: fw)
  case (Cons b bs)
  then show ?case
    using file_write_all_calm [OF Cons.prems, of b] by (auto split: prod.splits)
qed simp

context temp_files
begin

lemma with_fs_cases:
  "case sink_with_fs tmp d w of
     (Inr s, w') \<Rightarrow> sink_ok s \<and> sink_bytes s = [] \<and> \<not> sink_is_ram s
   | (Inl x, w') \<Rightarrow> \<exists>e. x = Fail (BodyIo e)"
  using new_file
  by (auto simp: sink_with_fs_def sink_ok_def sink_bytes_def sink_is_ram_def split: prod.splits sum.splits)

lemma write_back_cases:
  assumes "sink_ok s"
  shows "case sink_write_back tmp d s w of
      (Inr u, (s', w')) \<Rightarrow> sink_ok s' \<and> sink_bytes s' = sink_bytes s \<and> bs_len s' = bs_len s \<and>
        \<not> sink_is_ram s'
    | (Inl x, (s', w')) \<Rightarrow> sink_is_ram s \<and> (\<exists>e. x = Fail (BodyIo e)) \<and> s' = sink_empty"
proof (cases "bs_state s")
  case (FsWrite f)
  then show ?thesis using assms by (simp add: sink_write_back_def sink_is_ram_def)
next
  case (SinkRam v)
  show ?thesis
  proof (cases "tmp d w")
    case (Pair r w')
    show ?thesis
    proof (cases r)
      case (Inl e)
      then show ?thesis
        using SinkRam Pair
        by (simp add: sink_write_back_def sink_is_ram_def sink_empty_def sink_with_ram_buffers_def)
    next
      case (Inr f)
      with Pair have f: "content f = []" "at_end (f, w')"
        using new_file by (auto simp: at_end_def)
      from write_buffers_end [OF f(2), of v] show ?thesis
        using SinkRam Pair Inr assms f(1)
        by (auto simp: sink_write_back_def sink_is_ram_def sink_ok_def sink_bytes_def at_end_def
            sink_empty_def sink_with_ram_buffers_def split: prod.splits sum.splits)
    qed
  qed
qed

end

end
