(* ===== verification/Olio.thy ===== *)
theory Olio
  imports Std_IO
begin

text \<open>
  The interface of the crates \<^emph>\<open>olio\<close> and \<^emph>\<open>memmap\<close>, which are not part of the
  repository: a record of the operations that the source calls, passed as an argument \<open>fs\<close> to
  every definition that uses one, and the locale \<open>olio_files\<close> with their documented
  behaviour.

  \<^item> \<^verbatim>\<open>ReadPos\<close> reads a file through a position of its own (type \<open>'p\<close>);
  \<^item> \<^verbatim>\<open>ReadSlice\<close> does so within a range of the file (type \<open>'s\<close>);
  \<^item> \<^verbatim>\<open>GatheringReader\<close> reads a list of buffers one after the other (type \<open>'g\<close>);
  \<^item> a \<^verbatim>\<open>MemHandle<Mmap>\<close> is represented by the bytes it maps.

  \<open>cursor_olio\<close> is a concrete instance, over cursors on the file's contents, and shows that
  the contract can be met.
\<close>

datatype mem_advice = AdviseNormal | AdviseSequential

record ('p, 's, 'g) olio =
  rp_new :: "fsfile \<Rightarrow> nat \<Rightarrow> 'p"
  rp_tell :: "'p \<Rightarrow> nat"
  rp_read :: "'p reader"
  rp_seek :: "'p \<Rightarrow> seek_from \<Rightarrow> (io_error + nat) \<times> 'p"
  rp_subslice :: "'p \<Rightarrow> nat \<Rightarrow> nat \<Rightarrow> 's"
  rs_new :: "fsfile \<Rightarrow> nat \<Rightarrow> nat \<Rightarrow> 's"
  rs_len :: "'s \<Rightarrow> nat"
  rs_clone :: "'s \<Rightarrow> 's"
  rs_read :: "'s reader"
  rs_mem_map :: "'s \<Rightarrow> io_error + bytes"
  gr_new :: "bytes list \<Rightarrow> 'g"
  gr_read :: "'g reader"
  mmap_file :: "fsfile \<Rightarrow> io_error + bytes"
  mh_advise :: "bytes \<Rightarrow> mem_advice \<Rightarrow> io_error option"

text \<open>
  \<open>p_bytes p\<close> is the contents of the file that \<open>p\<close> reads, \<open>s_bytes s\<close> the bytes in the
  slice's range, \<open>g_bytes g\<close> the bytes of all buffers.
\<close>

locale olio_files =
  pos: steady_source "rp_read fs" p_bytes "rp_tell fs" p_patience +
  slc: steady_source "rs_read fs" s_bytes s_off s_patience +
  gat: steady_source "gr_read fs" g_bytes g_off g_patience
  for fs :: "('p, 's, 'g) olio" and p_bytes p_patience s_bytes s_off s_patience
    and g_bytes g_off g_patience +
  assumes pos_new: "p_bytes (rp_new fs f n) = content f \<and> rp_tell fs (rp_new fs f n) = 0"
    and slice_new: "s_bytes (rs_new fs f i j) = take (j - i) (drop i (content f)) \<and>
      s_off (rs_new fs f i j) = 0 \<and> rs_len fs (rs_new fs f i j) = j - i"
    and gather_new: "g_bytes (gr_new fs v) = concat v \<and> g_off (gr_new fs v) = 0"
    and pos_subslice: "i \<le> j \<Longrightarrow>
      s_bytes (rp_subslice fs p i j) = take (j - i) (drop i (p_bytes p)) \<and>
      s_off (rp_subslice fs p i j) = 0 \<and> rs_len fs (rp_subslice fs p i j) = j - i"
    and pos_seek_start: "\<exists>p'. rp_seek fs p (SeekStart n) = (Inr n, p') \<and>
      p_bytes p' = p_bytes p \<and> rp_tell fs p' = n \<and> p_patience p' \<le> p_patience p"
    and pos_seek_current: "0 \<le> int (rp_tell fs p) + d \<Longrightarrow>
      \<exists>p'. rp_seek fs p (SeekCurrent d) = (Inr (nat (int (rp_tell fs p) + d)), p') \<and>
        p_bytes p' = p_bytes p \<and> rp_tell fs p' = nat (int (rp_tell fs p) + d) \<and>
        p_patience p' \<le> p_patience p"
    and slice_clone: "s_bytes (rs_clone fs s) = s_bytes s \<and> rs_len fs (rs_clone fs s) = rs_len fs s \<and>
      (s_off s = 0 \<longrightarrow> s_off (rs_clone fs s) = 0)"
    and slice_map: "rs_mem_map fs s = Inr m \<Longrightarrow> rs_len fs s = length (s_bytes s) \<Longrightarrow>
      m = s_bytes s"
    and file_map: "mmap_file fs f = Inr m \<Longrightarrow> m = content f"

section \<open>An instance over cursors\<close>

definition cursor_seek :: "cursor \<Rightarrow> seek_from \<Rightarrow> (io_error + nat) \<times> cursor" where
  "cursor_seek c sf =
     (let t = (case sf of
          SeekStart n \<Rightarrow> int n
        | SeekEnd i \<Rightarrow> int (length (cur_bytes c)) + i
        | SeekCurrent i \<Rightarrow> int (cur_pos c) + i)
      in if t < 0 then (Inl InvalidInput, c) else (Inr (nat t), c\<lparr>cur_pos := nat t\<rparr>))"

text \<open>A slice carries its nominal length, which may exceed what the file holds.\<close>

definition slice_read :: "(cursor \<times> nat) reader" where
  "slice_read s k = (case cursor_read (fst s) k of (v, c) \<Rightarrow> (v, (c, snd s)))"

definition cursor_slice :: "bytes \<Rightarrow> nat \<Rightarrow> nat \<Rightarrow> cursor \<times> nat" where
  "cursor_slice bs i j = (cursor_new (take (j - i) (drop i bs)), j - i)"

definition cursor_olio :: "(cursor, cursor \<times> nat, cursor) olio" where
  "cursor_olio =
     \<lparr>rp_new = (\<lambda>f n. cursor_new (content f)),
      rp_tell = cur_pos,
      rp_read = cursor_read,
      rp_seek = cursor_seek,
      rp_subslice = (\<lambda>c. cursor_slice (cur_bytes c)),
      rs_new = (\<lambda>f. cursor_slice (content f)),
      rs_len = snd,
      rs_clone = (\<lambda>s. (cursor_new (cur_bytes (fst s)), snd s)),
      rs_read = slice_read,
      rs_mem_map = (\<lambda>s. if snd s = 0 then Inl InvalidInput else Inr (cur_bytes (fst s))),
      gr_new = (\<lambda>v. cursor_new (concat v)),
      gr_read = cursor_read,
      mmap_file = (\<lambda>f. if content f = [] then Inl InvalidInput else Inr (content f)),
      mh_advise = (\<lambda>m a. None)\<rparr>"

lemma cursor_olio_sel [simp]:
  "rp_new cursor_olio f n = cursor_new (content f)"
  "rp_tell cursor_olio = cur_pos" "rp_read cursor_olio = cursor_read"
  "rp_seek cursor_olio = cursor_seek"
  "rp_subslice cursor_olio c i j = cursor_slice (cur_bytes c) i j"
  "rs_new cursor_olio f i j = cursor_slice (content f) i j"
  "rs_len cursor_olio = snd" "rs_read cursor_olio = slice_read"
  "rs_clone cursor_olio s = (cursor_new (cur_bytes (fst s)), snd s)"
  "rs_mem_map cursor_olio s = (if snd s = 0 then Inl InvalidInput else Inr (cur_bytes (fst s)))"
  "gr_new cursor_olio v = cursor_new (concat v)" "gr_read cursor_olio = cursor_read"
  "mmap_file cursor_olio f = (if content f = [] then Inl InvalidInput else Inr (content f))"
  "mh_advise cursor_olio m a = None"
  by (simp_all add: cursor_olio_def)

interpretation slice_cursor: steady_source slice_read "\<lambda>s. cur_bytes (fst s)"
    "\<lambda>s. cur_pos (fst s)" "\<lambda>_. 0"
  by unfold_locales (auto simp: slice_read_def cursor_read_def Let_def min_def)

interpretation cursors: olio_files cursor_olio cur_bytes "\<lambda>_. 0" "\<lambda>s. cur_bytes (fst s)"
    "\<lambda>s. cur_pos (fst s)" "\<lambda>_. 0" cur_bytes cur_pos "\<lambda>_. 0"
  by unfold_locales
    (auto simp: cursor_slice_def cursor_new_def cursor_seek_def slice_read_def cursor_read_def
      Let_def min_def split: if_splits)

end
