(* ===== verification/Bytes_Buf.thy ===== *)
theory Bytes_Buf
  imports BI_Prelude
begin

text \<open>
  The interface of \<^verbatim>\<open>BytesMut\<close> of the \<^emph>\<open>bytes\<close> crate, which is not part of the
  repository: a record of the operations the readers use, passed as an argument \<open>bm\<close>, and
  the locale \<open>bytes_buf\<close> with what its documentation states. \<open>chunk_mut\<close> returns the
  length of the uninitialized slice, which may first be made by growing the buffer, hence the
  new state. A read into that slice followed by \<^verbatim>\<open>advance_mut\<close> is \<open>bm_advance\<close>, with
  the bytes the read placed there.
\<close>

record 'b bytes_mut =
  bm_new :: "nat \<Rightarrow> 'b"
  bm_chunk :: "'b \<Rightarrow> nat \<times> 'b"
  bm_advance :: "'b \<Rightarrow> bytes \<Rightarrow> 'b"
  bm_put :: "'b \<Rightarrow> bytes \<Rightarrow> 'b"
  bm_clear :: "'b \<Rightarrow> 'b"
  bm_remaining :: "'b \<Rightarrow> nat"
  bm_bytes :: "'b \<Rightarrow> bytes"

locale bytes_buf =
  fixes bm :: "'b bytes_mut"
  assumes new_bytes [simp]: "bm_bytes bm (bm_new bm n) = []"
    and new_room: "bm_chunk bm (bm_new bm n) = (k, b') \<Longrightarrow> n \<le> k"
    and chunk: "bm_chunk bm b = (k, b') \<Longrightarrow> 0 < k \<and> bm_bytes bm b' = bm_bytes bm b"
    and advance_bytes [simp]: "bm_bytes bm (bm_advance bm b bs) = bm_bytes bm b @ bs"
    and put_bytes [simp]: "bm_bytes bm (bm_put bm b bs) = bm_bytes bm b @ bs"
    and clear_bytes [simp]: "bm_bytes bm (bm_clear bm b) = []"
begin

lemma chunk_cases:
  obtains k b' where "bm_chunk bm b = (k, b')" "0 < k" "bm_bytes bm b' = bm_bytes bm b"
  using chunk by (cases "bm_chunk bm b") blast

end

text \<open>
  An instance: the contents and the capacity, which grows by 64 when the buffer is full. As in
  version 1 of the crate, \<^verbatim>\<open>remaining_mut\<close> counts what the buffer could grow to.
\<close>

definition grow_buf :: "(bytes \<times> nat) bytes_mut" where
  "grow_buf =
     \<lparr>bm_new = (\<lambda>n. ([], n)),
      bm_chunk = (\<lambda>(bs, c). if c \<le> length bs then (64, (bs, length bs + 64))
                           else (c - length bs, (bs, c))),
      bm_advance = (\<lambda>(bs, c) x. (bs @ x, c)),
      bm_put = (\<lambda>(bs, c) x. (bs @ x, max c (length bs + length x))),
      bm_clear = (\<lambda>(bs, c). ([], c)),
      bm_remaining = (\<lambda>(bs, c). 2 ^ 64 - 1 - length bs),
      bm_bytes = fst\<rparr>"

lemma grow_buf_sel [simp]:
  "bm_new grow_buf n = ([], n)"
  "bm_chunk grow_buf (bs, c) =
     (if c \<le> length bs then (64, (bs, length bs + 64)) else (c - length bs, (bs, c)))"
  "bm_advance grow_buf (bs, c) x = (bs @ x, c)"
  "bm_put grow_buf (bs, c) x = (bs @ x, max c (length bs + length x))"
  "bm_clear grow_buf (bs, c) = ([], c)"
  "bm_remaining grow_buf (bs, c) = 2 ^ 64 - 1 - length bs"
  "bm_bytes grow_buf = fst"
  by (simp_all add: grow_buf_def)

interpretation growing: bytes_buf grow_buf
  by unfold_locales (auto split: if_splits prod.splits)

end
