(* ===== verification/Body_Image.thy ===== *)
theory Body_Image
  imports Body_Sink Olio Bytes_Buf
begin

text \<open>
  \<^verbatim>\<open>BodyImage\<close> of \<^verbatim>\<open>body-image/src/lib.rs\<close>: a body ready for reading, its states, the
  readers over it, and \<^verbatim>\<open>read_from\<close>, which collects a source into an image under the
  limits of \<^verbatim>\<open>Tunables\<close>.

  \<open>image_bytes\<close> is the abstraction: the bytes an image stands for in any of its states.
  The lemmas show that every way of reading an image delivers these bytes, that the state
  changes keep them, and that what was written to a sink is what its image holds.
\<close>

section \<open>State and constructors\<close>

datatype 's image_state = Ram "bytes list" | FsRead fsfile | FsReadSlice 's | MemMap bytes

record 's body_image =
  bi_state :: "'s image_state"
  bi_len :: nat

definition image_empty :: "'s body_image" where
  "image_empty = \<lparr>bi_state = Ram [], bi_len = 0\<rparr>"

definition image_from_file :: "fsfile \<Rightarrow> nat \<Rightarrow> 's body_image" where
  "image_from_file f len =
     (if 0 < len then \<lparr>bi_state = FsRead f, bi_len = len\<rparr> else image_empty)"

definition image_from_read_slice :: "('p, 's, 'g) olio \<Rightarrow> 's \<Rightarrow> 's body_image" where
  "image_from_read_slice fs rslice =
     (let len = rs_len fs rslice
      in if 0 < len then \<lparr>bi_state = FsReadSlice rslice, bi_len = len\<rparr> else image_empty)"

definition image_is_ram :: "'s body_image \<Rightarrow> bool" where
  "image_is_ram b = (case bi_state b of Ram v \<Rightarrow> True | _ \<Rightarrow> False)"

definition image_is_mem_map :: "'s body_image \<Rightarrow> bool" where
  "image_is_mem_map b = (case bi_state b of MemMap m \<Rightarrow> True | _ \<Rightarrow> False)"

definition image_is_empty :: "'s body_image \<Rightarrow> bool" where
  "image_is_empty b = (bi_len b = 0)"

text \<open>\<^verbatim>\<open>BodySink::prepare\<close>. A flush of a \<^verbatim>\<open>File\<close> does nothing.\<close>

definition prepare ::
  "body_sink \<Rightarrow> io_script \<Rightarrow> (body_error, 's body_image) result \<times> io_script" where
  "prepare s w =
     (case bs_state s of
        SinkRam v \<Rightarrow> (Ok \<lparr>bi_state = Ram v, bi_len = bs_len s\<rparr>, w)
      | FsWrite f \<Rightarrow>
          (if bs_len s = 0 then (Ok image_empty, w)
           else (case file_seek (SeekStart 0) (f, w) of
               (Inr n, (f', w')) \<Rightarrow> (Ok \<lparr>bi_state = FsRead f', bi_len = bs_len s\<rparr>, w')
             | (Inl e, (f', w')) \<Rightarrow> (Err (BodyIo e), w'))))"

text \<open>\<^verbatim>\<open>from_slice\<close>: a panic is what \<^verbatim>\<open>expect\<close> would give.\<close>

definition image_from_slice :: "bytes \<Rightarrow> (body_error, 's body_image) result" where
  "image_from_slice bs =
     (case sink_push sink_with_ram_buffers bs [] of
        (Inl x, sw) \<Rightarrow> panic ''push is safe to Ram''
      | (Inr u, (s, w)) \<Rightarrow>
          (case prepare s w of
             (Inl x, w') \<Rightarrow> panic ''prepare is safe to Ram''
           | (Inr b, w') \<Rightarrow> Ok b))"

section \<open>State changes\<close>

definition mem_map ::
  "('p, 's, 'g) olio \<Rightarrow> 's body_image \<Rightarrow> (body_error, unit) result \<times> 's body_image" where
  "mem_map fs b =
     (let mapped = (\<lambda>v. case v of
          Inr m \<Rightarrow> (Ok (), b\<lparr>bi_state := MemMap m\<rparr>)
        | Inl e \<Rightarrow> (Err (BodyIo e), b))
      in case bi_state b of
           FsRead f \<Rightarrow>
             (if \<not> 0 < bi_len b then (panic ''assertion failed: self.len > 0'', b)
              else mapped (mmap_file fs f))
         | FsReadSlice s \<Rightarrow> mapped (rs_mem_map fs s)
         | _ \<Rightarrow> (Ok (), b))"

definition gather :: "'s body_image \<Rightarrow> (body_error, unit) result \<times> 's body_image" where
  "gather b =
     (case bi_state b of
        Ram v \<Rightarrow>
          (if 1 < length v
           then (let newb = concat v
                 in if length newb \<noteq> bi_len b
                    then (panic ''assertion failed: newb.len() == self.len'', b\<lparr>bi_state := Ram []\<rparr>)
                    else (Ok (), b\<lparr>bi_state := Ram [newb]\<rparr>))
           else (Ok (), b))
      | _ \<Rightarrow> (Ok (), b))"

section \<open>Readers over an image\<close>

datatype ('s, 'g) body_reader = Contiguous cursor | Scattered 'g | FileSlice 's

definition reader :: "('p, 's, 'g) olio \<Rightarrow> 's body_image \<Rightarrow> ('s, 'g) body_reader" where
  "reader fs b =
     (case bi_state b of
        Ram v \<Rightarrow>
          (if v = [] then Contiguous (cursor_new [])
           else if length v = 1 then Contiguous (cursor_new (v ! 0))
           else Scattered (gr_new fs v))
      | FsRead f \<Rightarrow> FileSlice (rs_new fs f 0 (bi_len b))
      | FsReadSlice s \<Rightarrow> FileSlice (rs_clone fs s)
      | MemMap m \<Rightarrow> Contiguous (cursor_new m))"

fun body_reader_read :: "('p, 's, 'g) olio \<Rightarrow> ('s, 'g) body_reader reader" where
  "body_reader_read fs (Contiguous c) k =
     (case cursor_read c k of (v, c') \<Rightarrow> (v, Contiguous c'))"
| "body_reader_read fs (Scattered g) k =
     (case gr_read fs g k of (v, g') \<Rightarrow> (v, Scattered g'))"
| "body_reader_read fs (FileSlice s) k =
     (case rs_read fs s k of (v, s') \<Rightarrow> (v, FileSlice s'))"

datatype 's exploded_image = ExRam "bytes list" | ExFsRead 's | ExMemMap bytes

definition explode_image :: "('p, 's, 'g) olio \<Rightarrow> 's body_image \<Rightarrow> 's exploded_image" where
  "explode_image fs b =
     (case bi_state b of
        Ram v \<Rightarrow> ExRam v
      | FsRead f \<Rightarrow> ExFsRead (rs_new fs f 0 (bi_len b))
      | FsReadSlice s \<Rightarrow> ExFsRead s
      | MemMap m \<Rightarrow> ExMemMap m)"

section \<open>Writing an image out\<close>

text \<open>\<^verbatim>\<open>tmp_advise\<close> of \<^verbatim>\<open>_mem_handle_ext.rs\<close>: advise, run, advise normal again.\<close>

definition tmp_advise ::
  "(mem_advice \<Rightarrow> io_error option) \<Rightarrow> mem_advice \<Rightarrow> ('w \<Rightarrow> (io_error + 'a) \<times> 'w) \<Rightarrow> 'w
     \<Rightarrow> (io_error + 'a) \<times> 'w" where
  "tmp_advise advise advice f out =
     (case advise advice of
        Some e \<Rightarrow> (Inl e, out)
      | None \<Rightarrow>
          (case f out of (res, out') \<Rightarrow>
            (case advise AdviseNormal of
               Some e \<Rightarrow> (Inl e, out')
             | None \<Rightarrow> (res, out'))))"

fun write_each :: "'w writer \<Rightarrow> 'w \<Rightarrow> bytes list \<Rightarrow> (io_error + unit) \<times> 'w" where
  "write_each wr out [] = (Inr (), out)"
| "write_each wr out (b # bs) =
     (case wr out b of
        (Inr u, out') \<Rightarrow> write_each wr out' bs
      | (Inl e, out') \<Rightarrow> (Inl e, out'))"

text \<open>The length an image reports once \<^verbatim>\<open>io::copy\<close> is through.\<close>

definition after_copy ::
  "nat \<Rightarrow> (io_error, nat, 'r \<times> 'w) outcome \<Rightarrow> (body_error, nat, 'w) outcome" where
  "after_copy len v =
     (case v of
        None \<Rightarrow> None
      | Some (x, (r', out')) \<Rightarrow> Some (bindR (map_err BodyIo x) (\<lambda>n. Ok len), out'))"

definition write_to ::
  "('p, 's, 'g) olio \<Rightarrow> 'w writer \<Rightarrow> 's body_image \<Rightarrow> 'w \<Rightarrow> (body_error, nat, 'w) outcome" where
  "write_to fs wr b out =
     (let done = (\<lambda>v. case v of
          (Inr u, out') \<Rightarrow> Some (Ok (bi_len b), out')
        | (Inl e, out') \<Rightarrow> Some (Err (BodyIo e), out'))
      in case bi_state b of
           Ram v \<Rightarrow> done (write_each wr out v)
         | MemMap m \<Rightarrow> done (tmp_advise (mh_advise fs m) AdviseSequential (\<lambda>out. wr out m) out)
         | FsRead f \<Rightarrow> after_copy (bi_len b) (io_copy (rp_read fs) wr 0 (rp_new fs f (bi_len b)) out)
         | FsReadSlice s \<Rightarrow> after_copy (bi_len b) (io_copy (rs_read fs) wr 0 (rs_clone fs s) out))"

section \<open>Abstraction and invariant\<close>

text \<open>\<open>s_bytes\<close> gives the bytes of a slice, \<open>s_off\<close> its position.\<close>

definition image_bytes :: "('s \<Rightarrow> bytes) \<Rightarrow> 's body_image \<Rightarrow> bytes" where
  "image_bytes s_bytes b =
     (case bi_state b of
        Ram v \<Rightarrow> concat v
      | FsRead f \<Rightarrow> content f
      | FsReadSlice s \<Rightarrow> s_bytes s
      | MemMap m \<Rightarrow> m)"

definition image_ok ::
  "('p, 's, 'g) olio \<Rightarrow> ('s \<Rightarrow> bytes) \<Rightarrow> ('s \<Rightarrow> nat) \<Rightarrow> 's body_image \<Rightarrow> bool" where
  "image_ok fs s_bytes s_off b \<longleftrightarrow>
     bi_len b = length (image_bytes s_bytes b) \<and>
     (case bi_state b of
        Ram v \<Rightarrow> True
      | FsRead f \<Rightarrow> 0 < bi_len b
      | FsReadSlice s \<Rightarrow> s_off s = 0 \<and> rs_len fs s = bi_len b
      | MemMap m \<Rightarrow> True)"

fun reader_bytes :: "('s \<Rightarrow> bytes) \<Rightarrow> ('g \<Rightarrow> bytes) \<Rightarrow> ('s, 'g) body_reader \<Rightarrow> bytes" where
  "reader_bytes sb gb (Contiguous c) = cur_bytes c"
| "reader_bytes sb gb (Scattered g) = gb g"
| "reader_bytes sb gb (FileSlice s) = sb s"

fun reader_nat :: "(cursor \<Rightarrow> nat) \<Rightarrow> ('s \<Rightarrow> nat) \<Rightarrow> ('g \<Rightarrow> nat) \<Rightarrow> ('s, 'g) body_reader \<Rightarrow> nat" where
  "reader_nat cf sf gf (Contiguous c) = cf c"
| "reader_nat cf sf gf (Scattered g) = gf g"
| "reader_nat cf sf gf (FileSlice s) = sf s"

lemma image_empty_simps [simp]:
  "image_bytes sb image_empty = []" "bi_len image_empty = 0" "image_is_ram image_empty"
  "image_ok fs sb so image_empty"
  by (simp_all add: image_empty_def image_bytes_def image_is_ram_def image_ok_def)

text \<open>What a sink holds is what the image made of it holds.\<close>

lemma prepare_cases:
  assumes "sink_ok s"
  shows "case prepare s w of
      (Inr b, w') \<Rightarrow> image_ok fs sb so b \<and> image_bytes sb b = sink_bytes s \<and>
        bi_len b = bs_len s \<and> image_is_ram b = (sink_is_ram s \<or> bs_len s = 0)
    | (Inl x, w') \<Rightarrow> \<not> sink_is_ram s \<and> (\<exists>e. x = Fail (BodyIo e))"
  using assms
  by (auto simp: prepare_def sink_ok_def image_ok_def image_bytes_def sink_bytes_def
      image_is_ram_def sink_is_ram_def image_empty_def Let_def split: sink_state.splits list.splits option.splits)

text \<open>An image in RAM or on a file of its own, with the bytes it holds.\<close>

definition image_holds :: "'s body_image \<Rightarrow> bytes \<Rightarrow> bool" where
  "image_holds b bs \<longleftrightarrow>
     bi_len b = length bs \<and>
     (case bi_state b of
        Ram v \<Rightarrow> concat v = bs
      | FsRead f \<Rightarrow> content f = bs \<and> bs \<noteq> []
      | _ \<Rightarrow> False)"

lemma image_holdsD:
  assumes "image_holds b bs"
  shows "image_ok fs sb so b" and "image_bytes sb b = bs" and "bi_len b = length bs"
  using assms by (auto simp: image_holds_def image_ok_def image_bytes_def split: image_state.splits)

lemma image_from_slice_holds:
  "\<exists>b. image_from_slice bs = Ok b \<and> image_holds b bs \<and> image_is_ram b"
  by (auto simp: image_from_slice_def sink_push_def sink_with_ram_buffers_def prepare_def
      image_holds_def image_is_ram_def)

lemma prepare_holds:
  assumes "sink_ok s"
  shows "case prepare s w of
      (Inr b, w') \<Rightarrow> image_holds (b :: 's body_image) (sink_bytes s) \<and>
        image_is_ram b = (sink_is_ram s \<or> sink_bytes s = []) \<and> (calm w \<longrightarrow> calm w')
    | (Inl x, w') \<Rightarrow> \<not> sink_is_ram s \<and> (\<exists>e. x = Fail (BodyIo e)) \<and> \<not> calm w"
  using assms
  by (auto simp: prepare_def sink_ok_def image_holds_def sink_bytes_def image_is_ram_def
      sink_is_ram_def image_empty_def Let_def
      split: sink_state.splits list.splits option.splits)

lemma gather_keeps:
  assumes "image_ok fs sb so b"
  shows "\<exists>b'. gather b = (Ok (), b') \<and> image_ok fs sb so b' \<and>
    image_bytes sb b' = image_bytes sb b \<and> bi_len b' = bi_len b \<and>
    (\<forall>v. bi_state b' = Ram v \<longrightarrow> length v \<le> 1)"
  using assms
  by (cases "bi_state b") (auto simp: gather_def image_ok_def image_bytes_def Let_def)

context olio_files
begin

abbreviation im_ok :: "'s body_image \<Rightarrow> bool" where "im_ok \<equiv> image_ok fs s_bytes s_off"
abbreviation im_bytes :: "'s body_image \<Rightarrow> bytes" where "im_bytes \<equiv> image_bytes s_bytes"
abbreviation rd_bytes :: "('s, 'g) body_reader \<Rightarrow> bytes"
  where "rd_bytes \<equiv> reader_bytes s_bytes g_bytes"
abbreviation rd_off :: "('s, 'g) body_reader \<Rightarrow> nat"
  where "rd_off \<equiv> reader_nat cur_pos s_off g_off"
abbreviation rd_patience :: "('s, 'g) body_reader \<Rightarrow> nat"
  where "rd_patience \<equiv> reader_nat (\<lambda>_. 0) s_patience g_patience"

end

text \<open>The reader over an image is itself a source without failures.\<close>

sublocale olio_files \<subseteq> bdy: steady_source "body_reader_read fs" rd_bytes rd_off rd_patience
proof
  fix r k bs r'
  assume h: "body_reader_read fs r k = (Inr bs, r')"
  show "rd_bytes r' = rd_bytes r \<and> rd_off r' = rd_off r + length bs \<and>
      rd_patience r' \<le> rd_patience r \<and> length bs \<le> k \<and>
      bs = take (length bs) (drop (rd_off r) (rd_bytes r))"
    using h std_cursor.read_ok slc.read_ok gat.read_ok
    by (cases r) (fastforce split: prod.splits)+
next
  fix r k r'
  assume "body_reader_read fs r k = (Inr [], r')" and "0 < k"
  then show "length (rd_bytes r) \<le> rd_off r"
    using std_cursor.read_eof slc.read_eof gat.read_eof
    by (cases r) (fastforce split: prod.splits)+
next
  fix r k r'
  assume "body_reader_read fs r k = (Inl Interrupted, r')"
  then show "rd_bytes r' = rd_bytes r \<and> rd_off r' = rd_off r \<and> rd_patience r' < rd_patience r"
    using std_cursor.read_interrupted slc.read_interrupted gat.read_interrupted
    by (cases r) (fastforce split: prod.splits)+
next
  fix r k e r'
  assume "body_reader_read fs r k = (Inl e, r')"
  then show "e = Interrupted"
    using std_cursor.no_fail slc.no_fail gat.no_fail
    by (cases r) (fastforce split: prod.splits)+
qed

lemma write_each_emits:
  assumes ws: "write_sink wr good written"
  shows "good out \<Longrightarrow> emits good written out (concat bs) (write_each wr out bs) \<and>
     (\<forall>e. fst (write_each wr out bs) = Inl e \<longrightarrow> refuses wr good e)"
proof (induction bs arbitrary: out)
  case Nil
  then show ?case by (simp add: emits_nil)
next
  case (Cons b bs)
  obtain v o1 where v: "wr out b = (v, o1)" by (rule prod.exhaust)
  have em: "emits good written out b (v, o1)"
    using write_sink.wr_emits [OF ws Cons.prems, of b] v by simp
  show ?case
  proof (cases v)
    case (Inl e)
    have "refuses wr good e"
      using v Inl Cons.prems unfolding refuses_def by (metis fst_conv)
    then show ?thesis
      using v Inl emits_stop [OF em [unfolded Inl]] by simp
  next
    case (Inr u)
    have "good o1" using emits_good [OF em] by simp
    note IH = Cons.IH [OF this]
    show ?thesis
      using v Inr IH emits_seq [OF em [unfolded Inr] IH [THEN conjunct1]] by simp
  qed
qed

lemma tmp_advise_emits:
  assumes ws: "write_sink wr good written" and "good out"
  shows "emits good written out m (tmp_advise adv a (\<lambda>out. wr out m) out) \<and>
     (\<forall>e. fst (tmp_advise adv a (\<lambda>out. wr out m) out) = Inl e \<longrightarrow>
        refuses wr good e \<or> (\<exists>a. adv a = Some e))"
proof (cases "adv a")
  case (Some e)
  have "emits good written out ([] @ m) (Inl e, out)"
    by (rule emits_stop [OF emits_nil]) (rule assms)
  then show ?thesis using Some by (auto simp: tmp_advise_def)
next
  case None
  obtain v o1 where v: "wr out m = (v, o1)" by (rule prod.exhaust)
  have em: "emits good written out m (v, o1)"
    using write_sink.wr_emits [OF assms, of m] v by simp
  have "refuses wr good e" if "v = Inl e" for e
    using v that assms(2) unfolding refuses_def by (metis fst_conv)
  moreover have "emits good written out m (Inl e, o1)" for e :: io_error
    using em by (cases v) (auto intro: emits_conv emits_fail)
  ultimately show ?thesis
    using None v em by (auto simp: tmp_advise_def split: option.splits)
qed

lemma after_copy_emits:
  assumes "emits good written out full (x, out')"
    and "case x of Inr m \<Rightarrow> P m | Inl f \<Rightarrow> \<exists>e. f = Fail e \<and> R e"
  shows "\<exists>y. after_copy len (Some (x, (r', out'))) = Some (y, out') \<and>
    emits good written out full (y, out') \<and>
    (case y of Inr n \<Rightarrow> n = len | Inl f \<Rightarrow> \<exists>e. f = Fail (BodyIo e) \<and> R e)"
proof (cases x)
  case (Inl f)
  then obtain e where f: "f = Fail e" "R e" using assms(2) by auto
  have "emits good written out full (Inl (Fail (BodyIo e)), out')"
    using assms(1) Inl by (auto intro: emits_conv)
  then show ?thesis using Inl f by (simp add: after_copy_def)
qed (use assms in \<open>simp add: after_copy_def\<close>)

context steady_source
begin

lemma copy_emits:
  assumes ws: "write_sink wr good written" and "good out" and rest: "rest r = bs"
  shows "\<exists>y out'. after_copy len (io_copy rd wr n r out) = Some (y, out') \<and>
    emits good written out bs (y, out') \<and>
    (case y of Inr m \<Rightarrow> m = len | Inl f \<Rightarrow> \<exists>e. f = Fail (BodyIo e) \<and> refuses wr good e)"
proof -
  obtain x r' out' where c: "io_copy rd wr n r out = Some (x, (r', out'))"
    "emits good written out bs (x, out')"
    "case x of Inr m \<Rightarrow> m = n + length bs \<and> advanced r (length bs) r'
     | Inl f \<Rightarrow> \<exists>e. f = Fail e \<and> refuses wr good e"
    using io_copy_emits [OF ws assms(2), of n r] unfolding rest by blast
  show ?thesis
    using after_copy_emits [OF c(2,3), of len r'] c(1) by auto
qed

lemma copy_vec:
  assumes rest: "rest r = bs"
  obtains r' where "io_copy rd vec_write_all 0 r [] = Some (Ok (length bs), (r', bs))"
proof -
  obtain x r' out' where "io_copy rd vec_write_all 0 r [] = Some (x, (r', out'))"
    "emits (\<lambda>_. True) (\<lambda>v. v) [] bs (x, out')"
    "case x of Inr m \<Rightarrow> m = 0 + length bs \<and> advanced r (length bs) r'
     | Inl f \<Rightarrow> \<exists>e. f = Fail e \<and> refuses vec_write_all (\<lambda>_. True) e"
    using io_copy_emits [OF vec.write_sink_axioms TrueI, of 0 r "[]"] unfolding rest by auto
  then show ?thesis
    using that by (cases x) auto
qed

end

context olio_files
begin

lemma reader_starts:
  assumes "im_ok b"
  shows "rd_bytes (reader fs b) = im_bytes b" and "rd_off (reader fs b) = 0"
  using assms gather_new slice_new slice_clone
  by (cases "bi_state b";
      auto simp: reader_def image_ok_def image_bytes_def cursor_new_def length_Suc_conv)+

lemma mem_map_keeps:
  assumes "im_ok b"
  shows "case mem_map fs b of
      (Inr u, b') \<Rightarrow> im_ok b' \<and> im_bytes b' = im_bytes b \<and> bi_len b' = bi_len b
    | (Inl x, b') \<Rightarrow> b' = b \<and> (\<exists>e. x = Fail (BodyIo e))"
proof (cases "bi_state b")
  case (FsRead f)
  then show ?thesis
    using assms file_map [of f]
    by (cases "mmap_file fs f") (auto simp: mem_map_def image_ok_def image_bytes_def)
next
  case (FsReadSlice s)
  then show ?thesis
    using assms slice_map [of s]
    by (cases "rs_mem_map fs s") (auto simp: mem_map_def image_ok_def image_bytes_def)
qed (use assms in \<open>simp_all add: mem_map_def\<close>)

text \<open>Whatever its state, an image writes out its bytes, or a prefix of them and an error.\<close>

lemma write_to_emits:
  assumes ws: "write_sink wr good written" and good: "good out" and ok: "im_ok b"
  shows "\<exists>x out'. write_to fs wr b out = Some (x, out') \<and>
    emits good written out (im_bytes b) (x, out') \<and>
    (case x of
       Inr n \<Rightarrow> n = bi_len b
     | Inl f \<Rightarrow> \<exists>e. f = Fail (BodyIo e) \<and>
         (refuses wr good e \<or> (\<exists>m a. mh_advise fs m a = Some e)))"
proof (cases "bi_state b")
  case (Ram v)
  have "emits good written out (concat v) (write_each wr out v)"
    and "\<And>e. fst (write_each wr out v) = Inl e \<Longrightarrow> refuses wr good e"
    using write_each_emits [OF ws good, of v] by auto
  then show ?thesis
    using Ram by (cases "write_each wr out v"; cases "fst (write_each wr out v)")
      (auto simp: write_to_def image_bytes_def intro: emits_conv)
next
  case (MemMap m)
  let ?t = "tmp_advise (mh_advise fs m) AdviseSequential (\<lambda>out. wr out m) out"
  have "emits good written out m ?t"
    and "\<And>e. fst ?t = Inl e \<Longrightarrow> refuses wr good e \<or> (\<exists>a. mh_advise fs m a = Some e)"
    using tmp_advise_emits [OF ws good, of m "mh_advise fs m"] by auto
  then show ?thesis
    using MemMap by (cases ?t; cases "fst ?t")
      (auto simp: write_to_def image_bytes_def intro: emits_conv)
next
  case (FsRead f)
  have "pos.rest (rp_new fs f (bi_len b)) = im_bytes b"
    using FsRead pos_new by (simp add: pos.rest_def image_bytes_def)
  then obtain y out' where y:
    "after_copy (bi_len b) (io_copy (rp_read fs) wr 0 (rp_new fs f (bi_len b)) out) = Some (y, out')"
    "emits good written out (im_bytes b) (y, out')"
    "case y of Inr n \<Rightarrow> n = bi_len b | Inl f \<Rightarrow> \<exists>e. f = Fail (BodyIo e) \<and> refuses wr good e"
    using pos.copy_emits [OF ws good] by blast
  then have "write_to fs wr b out = Some (y, out')"
    using FsRead by (simp add: write_to_def)
  with y show ?thesis
    by (intro exI [of _ y] exI [of _ out']) (auto split: sum.splits)
next
  case (FsReadSlice s)
  have "slc.rest (rs_clone fs s) = im_bytes b"
    using FsReadSlice ok slice_clone [of s]
    by (simp add: slc.rest_def image_ok_def image_bytes_def)
  then obtain y out' where y:
    "after_copy (bi_len b) (io_copy (rs_read fs) wr 0 (rs_clone fs s) out) = Some (y, out')"
    "emits good written out (im_bytes b) (y, out')"
    "case y of Inr n \<Rightarrow> n = bi_len b | Inl f \<Rightarrow> \<exists>e. f = Fail (BodyIo e) \<and> refuses wr good e"
    using slc.copy_emits [OF ws good] by blast
  then have "write_to fs wr b out = Some (y, out')"
    using FsReadSlice by (simp add: write_to_def)
  with y show ?thesis
    by (intro exI [of _ y] exI [of _ out']) (auto split: sum.splits)
qed

end

section \<open>Properties of bodies\<close>

text \<open>A client's calls on a sink, and on an image.\<close>

datatype sink_op = Push bytes | WriteAll bytes | WriteBack path

fun sink_op_bytes :: "sink_op \<Rightarrow> bytes" where
  "sink_op_bytes (Push bs) = bs"
| "sink_op_bytes (WriteAll bs) = bs"
| "sink_op_bytes (WriteBack d) = []"

fun apply_sink_op ::
  "temp_fn \<Rightarrow> sink_op \<Rightarrow> body_sink \<Rightarrow> io_script \<Rightarrow> (body_error, unit) result \<times> (body_sink \<times> io_script)" where
  "apply_sink_op tmp (Push bs) s w = (case sink_push s bs w of (r, sw) \<Rightarrow> (map_err BodyIo r, sw))"
| "apply_sink_op tmp (WriteAll bs) s w =
     (case sink_write_all s bs w of (r, sw) \<Rightarrow> (map_err BodyIo r, sw))"
| "apply_sink_op tmp (WriteBack d) s w = sink_write_back tmp d s w"

fun run_sink ::
  "temp_fn \<Rightarrow> sink_op list \<Rightarrow> body_sink \<Rightarrow> io_script \<Rightarrow> (body_error, unit) result \<times> (body_sink \<times> io_script)" where
  "run_sink tmp [] s w = (Ok (), (s, w))"
| "run_sink tmp (op # ops) s w =
     bindT (apply_sink_op tmp op s w) (\<lambda>_ (s, w). run_sink tmp ops s w)"

datatype image_op = MemMapOp | GatherOp

fun apply_image_op ::
  "('p, 's, 'g) olio \<Rightarrow> image_op \<Rightarrow> 's body_image \<Rightarrow> (body_error, unit) result \<times> 's body_image" where
  "apply_image_op fs MemMapOp b = mem_map fs b"
| "apply_image_op fs GatherOp b = gather b"

fun run_image ::
  "('p, 's, 'g) olio \<Rightarrow> image_op list \<Rightarrow> 's body_image \<Rightarrow> (body_error, unit) result \<times> 's body_image" where
  "run_image fs [] b = (Ok (), b)"
| "run_image fs (op # ops) b = bindT (apply_image_op fs op b) (\<lambda>_ b. run_image fs ops b)"

context temp_files
begin

lemma apply_sink_op_cases:
  assumes "sink_ok s"
  shows "case apply_sink_op tmp op s w of
      (Inr u, (s', w')) \<Rightarrow> sink_ok s' \<and> sink_bytes s' = sink_bytes s @ sink_op_bytes op
    | (Inl x, (s', w')) \<Rightarrow> (\<exists>e. x = Fail (BodyIo e)) \<and> bs_len s' \<le> length (sink_bytes s') \<and>
        (\<exists>n. sink_bytes s' = take n (sink_bytes s @ sink_op_bytes op))"
proof -
  have pushed: "case sink_push s bs w of
      (Inr u, (s', w')) \<Rightarrow> sink_ok s' \<and> sink_bytes s' = sink_bytes s @ bs
    | (Inl x, (s', w')) \<Rightarrow> (\<exists>e. x = Fail e) \<and> bs_len s' \<le> length (sink_bytes s') \<and>
        (\<exists>n. sink_bytes s' = take n (sink_bytes s @ bs))" for bs
  proof -
    have "\<exists>m. sink_bytes s @ take n bs = take m (sink_bytes s @ bs)" for n
      by (rule exI [of _ "length (sink_bytes s) + n"]) simp
    then show ?thesis
      using sink_push_cases [OF assms, of bs w] pushing.len_ok [OF assms]
      by (auto split: prod.splits sum.splits)
  qed
  show ?thesis
  proof (cases op)
    case (Push bs)
    then show ?thesis using pushed [of bs] by (auto split: prod.splits sum.splits)
  next
    case (WriteAll bs)
    then show ?thesis
      using pushed [of bs] by (auto simp: sink_write_all_eq_push split: prod.splits sum.splits)
  next
    case (WriteBack d)
    have "sink_bytes sink_empty = take 0 xs \<and> bs_len sink_empty = 0" for xs
      by (simp add: sink_empty_def sink_with_ram_buffers_def sink_bytes_def)
    then show ?thesis
      using write_back_cases [OF assms, of d w] WriteBack
      by (fastforce split: prod.splits sum.splits)
  qed
qed

lemma run_sink_cases:
  "sink_ok s \<Longrightarrow>
     case run_sink tmp ops s w of
       (Inr u, (s', w')) \<Rightarrow> sink_ok s' \<and> sink_bytes s' = sink_bytes s @ concat (map sink_op_bytes ops)
     | (Inl x, (s', w')) \<Rightarrow> (\<exists>e. x = Fail (BodyIo e)) \<and> bs_len s' \<le> length (sink_bytes s') \<and>
         (\<exists>n. sink_bytes s' = take n (sink_bytes s @ concat (map sink_op_bytes ops)))"
proof (induction ops arbitrary: s w)
  case (Cons op ops)
  obtain x s' w' where x: "apply_sink_op tmp op s w = (x, (s', w'))"
    by (metis prod.exhaust)
  show ?case
  proof (cases x)
    case (Inr u)
    then have "sink_ok s'" "sink_bytes s' = sink_bytes s @ sink_op_bytes op"
      using apply_sink_op_cases [OF Cons.prems, of op w] x by simp_all
    then show ?thesis
      using Cons.IH [of s' w'] x Inr by (auto split: prod.splits sum.splits)
  next
    case (Inl f)
    let ?all = "(sink_bytes s @ sink_op_bytes op) @ concat (map sink_op_bytes ops)"
    obtain n e where "sink_bytes s' = take n (sink_bytes s @ sink_op_bytes op)" "f = Fail (BodyIo e)"
      and len: "bs_len s' \<le> length (sink_bytes s')"
      using apply_sink_op_cases [OF Cons.prems, of op w] x Inl by auto
    moreover from this(1) have "sink_bytes s' = take (min n (length (sink_bytes s @ sink_op_bytes op))) ?all"
      by (simp only: take_append) (simp add: min_def)
    then have "\<exists>m. sink_bytes s' = take m ?all" by blast
    ultimately show ?thesis using x Inl by simp
  qed
qed simp

end

context olio_files
begin

lemma run_image_keeps:
  "im_ok b \<Longrightarrow>
     case run_image fs ops b of (x, b') \<Rightarrow>
       im_ok b' \<and> im_bytes b' = im_bytes b \<and> bi_len b' = bi_len b \<and>
       (\<forall>f. x = Inl f \<longrightarrow> (\<exists>e. f = Fail (BodyIo e)))"
proof (induction ops arbitrary: b)
  case (Cons op ops)
  obtain x b1 where x: "apply_image_op fs op b = (x, b1)" by (rule prod.exhaust)
  have "im_ok b1 \<and> im_bytes b1 = im_bytes b \<and> bi_len b1 = bi_len b \<and>
      (\<forall>f. x = Inl f \<longrightarrow> (\<exists>e. f = Fail (BodyIo e)))"
    using x mem_map_keeps [OF Cons.prems] gather_keeps [OF Cons.prems] Cons.prems
    by (cases op) (auto split: sum.splits)
  then show ?case
    using Cons.IH [of b1] x by (cases x) (auto split: prod.splits)
qed simp

lemma reader_copies:
  assumes "im_ok b"
  shows "\<exists>r'. io_copy (body_reader_read fs) vec_write_all 0 (reader fs b) [] =
    Some (Ok (bi_len b), (r', im_bytes b))"
proof -
  have "bdy.rest (reader fs b) = im_bytes b"
    using reader_starts [OF assms] by (simp add: bdy.rest_def)
  from bdy.copy_vec [OF this] show ?thesis
    using assms by (metis image_ok_def)
qed

lemma write_to_vec:
  assumes "im_ok b" and "\<And>m a. mh_advise fs m a = None"
  shows "write_to fs vec_write_all b [] = Some (Ok (bi_len b), im_bytes b)"
proof -
  obtain x out' where "write_to fs vec_write_all b [] = Some (x, out')"
    "emits (\<lambda>_. True) (\<lambda>v. v) [] (im_bytes b) (x, out')"
    "case x of Inr n \<Rightarrow> n = bi_len b
     | Inl f \<Rightarrow> \<exists>e. f = Fail (BodyIo e) \<and>
         (refuses vec_write_all (\<lambda>_. True) e \<or> (\<exists>m a. mh_advise fs m a = Some e))"
    using write_to_emits [OF vec.write_sink_axioms TrueI assms(1), of "[]"] by auto
  then show ?thesis
    using assms(2) by (cases x) auto
qed

text \<open>An image made from a file with a length of the caller's choice.\<close>

lemma write_to_file:
  assumes "0 < len"
  shows "write_to fs vec_write_all (image_from_file f len) [] = Some (Ok len, content f)"
proof -
  have "pos.rest (rp_new fs f len) = content f"
    using pos_new by (simp add: pos.rest_def)
  then obtain r' where
    "io_copy (rp_read fs) vec_write_all 0 (rp_new fs f len) [] =
       Some (Ok (length (content f)), (r', content f))"
    using pos.copy_vec by blast
  then show ?thesis
    using assms by (simp add: image_from_file_def write_to_def after_copy_def)
qed

lemma reader_file:
  assumes "0 < len"
  shows "\<exists>r'. io_copy (body_reader_read fs) vec_write_all 0 (reader fs (image_from_file f len)) [] =
    Some (Ok (min len (length (content f))), (r', take len (content f)))"
proof -
  have r: "bdy.rest (reader fs (image_from_file f len)) = take len (content f)"
    using assms slice_new by (simp add: bdy.rest_def image_from_file_def reader_def)
  from bdy.copy_vec [OF r] show ?thesis
    by (metis length_take min.commute)
qed

end

text \<open>
  C11: Calls of \<^verbatim>\<open>push\<close>, \<^verbatim>\<open>write_all\<close> and \<^verbatim>\<open>write_back\<close> are made on a new \<^verbatim>\<open>BodySink\<close>, in RAM or
  on a file, until one fails. When all succeed, then \<^verbatim>\<open>prepare\<close> makes an image with exactly the bytes
  given, in their order, and their number as its length, or it fails, on a file, with an I/O error.
  When one fails, it is with an I/O error, and the sink holds a prefix of the bytes given, whose
  reported length is at most the real one.
\<close>
theorem sink_image_bytes:
  assumes "temp_files tmp"
    and "s0 = sink_with_ram n \<or> (\<exists>d w0. sink_with_fs tmp d w0 = (Ok s0, w))"
    and "run_sink tmp ops s0 w = (x, (s, w'))"
    and "given = concat (map sink_op_bytes ops)"
  shows "case x of
      Inr u \<Rightarrow>
        (case prepare s w' of
           (Inr b, w'') \<Rightarrow>
             image_bytes sb b = given \<and> bi_len b = length given \<and> image_ok fs sb so b
         | (Inl f, w'') \<Rightarrow> \<not> sink_is_ram s \<and> (\<exists>e. f = Fail (BodyIo e)))
    | Inl f \<Rightarrow>
        (\<exists>e. f = Fail (BodyIo e)) \<and> (\<exists>n. sink_bytes s = take n given) \<and>
        bs_len s \<le> length (sink_bytes s)"
proof -
  have s0: "sink_ok s0 \<and> sink_bytes s0 = []"
    using assms(2)
  proof
    assume "\<exists>d w0. sink_with_fs tmp d w0 = (Ok s0, w)"
    then obtain d w0 where "sink_with_fs tmp d w0 = (Ok s0, w)" by blast
    then show ?thesis using temp_files.with_fs_cases [OF assms(1), of d w0] by simp
  qed simp
  note run = temp_files.run_sink_cases [OF assms(1), of s0 ops w]
  show ?thesis
  proof (cases x)
    case (Inl f)
    then show ?thesis using run s0 assms(3,4) by auto
  next
    case (Inr u)
    then have "sink_ok s" "sink_bytes s = given" using run s0 assms(3,4) by simp_all
    then show ?thesis
      using prepare_cases [where s = s and w = w' and fs = fs and sb = sb and so = so] Inr
      by (auto simp: sink_ok_def split: prod.splits sum.splits)
  qed
qed

theorem sink_image_bytes_witness:
  "\<exists>s b. run_sink scripted_tempfile [Push ''ab'', WriteBack ''/tmp'', WriteAll ''cd''] (sink_with_ram 9) [] =
      (Ok (), (s, [])) \<and> \<not> sink_is_ram s \<and> prepare s [] = (Ok b, []) \<and>
    image_bytes (\<lambda>s :: cursor \<times> nat. cur_bytes (fst s)) b = ''abcd'' \<and> bi_len b = 4"
proof -
  let ?ops = "[Push ''ab'', WriteBack ''/tmp'', WriteAll ''cd'']"
  let ?s = "\<lparr>bs_state = FsWrite \<lparr>content = ''abcd'', fpos = 4\<rparr>, bs_len = 4\<rparr>"
  have run: "run_sink scripted_tempfile ?ops (sink_with_ram 9) [] = (Ok (), (?s, []))"
    by (simp add: sink_with_ram_def sink_with_ram_buffers_def sink_push_def sink_write_all_def
        sink_write_back_def scripted_tempfile_def file_put_def put_at_def)
  have img: "prepare ?s [] = (Ok \<lparr>bi_state = FsRead \<lparr>content = ''abcd'', fpos = 0\<rparr>, bi_len = 4\<rparr>, [])"
    by (simp add: prepare_def)
  have "\<not> sink_is_ram ?s" by (simp add: sink_is_ram_def)
  moreover have "image_bytes (\<lambda>s :: cursor \<times> nat. cur_bytes (fst s))
        \<lparr>bi_state = FsRead \<lparr>content = ''abcd'', fpos = 0\<rparr>, bi_len = 4\<rparr> = ''abcd''"
    using sink_image_bytes [OF scripted_tmp.temp_files_axioms _ run refl,
        where sb = "\<lambda>s :: cursor \<times> nat. cur_bytes (fst s)" and n = 9, of cursor_olio "\<lambda>_. 0"]
    by (simp add: img)
  ultimately show ?thesis using run img by (intro exI conjI) auto
qed

text \<open>
  What a push does to a well-formed sink on every path: a success appends the buffer and
  keeps the buffering state; a failure happens only on a file, is an I/O error that is not an
  interruption, leaves the length as it was, and leaves the file with a prefix of the buffer at
  its end.
\<close>
theorem sink_push_effect:
  assumes "sink_ok s"
  shows "case sink_push s buf w of
      (Inr u, (s', w')) \<Rightarrow> sink_ok s' \<and> sink_bytes s' = sink_bytes s @ buf \<and>
        sink_is_ram s' = sink_is_ram s
    | (Inl x, (s', w')) \<Rightarrow> \<not> sink_is_ram s \<and> (\<exists>e. x = Fail e \<and> e \<noteq> Interrupted) \<and>
        bs_len s' = bs_len s \<and> (\<exists>n. sink_bytes s' = sink_bytes s @ take n buf)"
  using sink_push_cases [OF assms, of buf w] by (auto split: prod.splits sum.splits)

theorem sink_push_effect_witness:
  "\<exists>s'. sink_push \<lparr>bs_state = FsWrite \<lparr>content = ''ab'', fpos = 2\<rparr>, bs_len = 2\<rparr> ''cd''
       [Some (1, WriteZero)] = (Err WriteZero, (s', [])) \<and> bs_len s' = 2 \<and>
     sink_bytes s' = ''abc''"
proof -
  have "sink_ok \<lparr>bs_state = FsWrite \<lparr>content = ''ab'', fpos = 2\<rparr>, bs_len = 2\<rparr>"
    by (simp add: sink_ok_def sink_bytes_def)
  from sink_push_effect [OF this, of "''cd''" "[Some (1, WriteZero)]"]
  show ?thesis
    by (simp add: sink_push_def sink_bytes_def file_put_def put_at_def)
qed

text \<open>
  \<^verbatim>\<open>write_back\<close> moves a well-formed sink to a file without changing its bytes; when it
  fails, which it does only from RAM and with an I/O error, the sink is left empty and in RAM.
\<close>
theorem sink_write_back_effect:
  assumes "temp_files tmp" and "sink_ok s"
  shows "case sink_write_back tmp d s w of
      (Inr u, (s', w')) \<Rightarrow> sink_ok s' \<and> sink_bytes s' = sink_bytes s \<and> bs_len s' = bs_len s \<and>
        \<not> sink_is_ram s'
    | (Inl x, (s', w')) \<Rightarrow> sink_is_ram s \<and> (\<exists>e. x = Fail (BodyIo e)) \<and> s' = sink_empty"
  by (rule temp_files.write_back_cases [OF assms])

theorem sink_write_back_effect_witness:
  "sink_write_back scripted_tempfile ''/tmp'' \<lparr>bs_state = SinkRam [''ab'', ''c''], bs_len = 3\<rparr>
     [None, None, Some (0, OtherIo 28)] = (Err (BodyIo (OtherIo 28)), (sink_empty, []))"
proof -
  have "sink_ok \<lparr>bs_state = SinkRam [''ab'', ''c''], bs_len = 3\<rparr>"
    by (simp add: sink_ok_def sink_bytes_def)
  from sink_write_back_effect [OF scripted_tmp.temp_files_axioms this,
      of "''/tmp''" "[None, None, Some (0, OtherIo 28)]"]
  show ?thesis
    by (simp add: sink_write_back_def scripted_tempfile_def file_put_def put_at_def Let_def)
qed

text \<open>The bytes of the parts that \<^verbatim>\<open>explode\<close> gives, a slice being read to its end.\<close>

definition exploded_holds :: "('p, 's, 'g) olio \<Rightarrow> 's exploded_image \<Rightarrow> bytes \<Rightarrow> bool" where
  "exploded_holds fs x bs \<longleftrightarrow>
     (case x of
        ExRam v \<Rightarrow> concat v = bs
      | ExMemMap m \<Rightarrow> m = bs
      | ExFsRead s \<Rightarrow>
          \<exists>s'. io_copy (rs_read fs) vec_write_all 0 s [] = Some (Ok (length bs), (s', bs)))"

context olio_files
begin

lemma explode_holds:
  assumes "im_ok b"
  shows "exploded_holds fs (explode_image fs b) (im_bytes b)"
proof (cases "bi_state b")
  case (FsRead f)
  then have "slc.rest (rs_new fs f 0 (bi_len b)) = im_bytes b"
    using assms slice_new by (simp add: slc.rest_def image_ok_def image_bytes_def)
  from slc.copy_vec [OF this] show ?thesis
    using FsRead by (auto simp: exploded_holds_def explode_image_def)
next
  case (FsReadSlice s)
  then have "slc.rest s = im_bytes b"
    using assms by (simp add: slc.rest_def image_ok_def image_bytes_def)
  from slc.copy_vec [OF this] show ?thesis
    using FsReadSlice by (auto simp: exploded_holds_def explode_image_def)
qed (simp_all add: exploded_holds_def explode_image_def image_bytes_def)

end

text \<open>
  C10: An image's bytes do not depend on its state. After any calls of \<^verbatim>\<open>mem_map\<close> and
  \<^verbatim>\<open>gather\<close> on a well-formed image, which never panic, copying from its reader,
  \<^verbatim>\<open>write_to\<close> (when advice on memory maps is accepted) and what \<^verbatim>\<open>explode\<close> gives all have the bytes
  it held before, and its length is their number.
\<close>
theorem image_views_agree:
  assumes "olio_files fs p_bytes p_patience s_bytes s_off s_patience g_bytes g_off g_patience"
    and "image_ok fs s_bytes s_off b"
    and "\<forall>m a. mh_advise fs m a = None"
  shows "case run_image fs ops b of (x, b') \<Rightarrow>
    (\<forall>m. x \<noteq> panic m) \<and> bi_len b' = length (image_bytes s_bytes b) \<and>
    (\<exists>r'. io_copy (body_reader_read fs) vec_write_all 0 (reader fs b') [] =
       Some (Ok (bi_len b'), (r', image_bytes s_bytes b))) \<and>
    write_to fs vec_write_all b' [] = Some (Ok (bi_len b'), image_bytes s_bytes b) \<and>
    exploded_holds fs (explode_image fs b') (image_bytes s_bytes b)"
proof (cases "run_image fs ops b")
  case (Pair x b')
  have k: "image_ok fs s_bytes s_off b'" "image_bytes s_bytes b' = image_bytes s_bytes b"
    "bi_len b' = bi_len b" "\<forall>m. x \<noteq> panic m"
    using olio_files.run_image_keeps [OF assms(1,2), of ops] Pair by auto
  then show ?thesis
    using olio_files.reader_copies [OF assms(1) k(1)] olio_files.explode_holds [OF assms(1) k(1)]
      olio_files.write_to_vec [OF assms(1) k(1)] assms(2,3) Pair
    by (simp add: image_ok_def)
qed

theorem image_views_agree_witness:
  "case run_image cursor_olio [GatherOp, MemMapOp]
      \<lparr>bi_state = Ram [''ab'', ''cd''], bi_len = 4\<rparr> of (x, b') \<Rightarrow>
    bi_state b' = Ram [''abcd''] \<and> write_to cursor_olio vec_write_all b' [] = Some (Ok 4, ''abcd'') \<and>
    exploded_holds cursor_olio (explode_image cursor_olio b') ''abcd''"
proof -
  have "image_ok cursor_olio (\<lambda>s. cur_bytes (fst s)) (\<lambda>s. cur_pos (fst s))
      \<lparr>bi_state = Ram [''ab'', ''cd''], bi_len = 4\<rparr>"
    by (simp add: image_ok_def image_bytes_def)
  from image_views_agree [OF cursors.olio_files_axioms this, of "[GatherOp, MemMapOp]"]
  show ?thesis
    by (simp add: gather_def mem_map_def image_bytes_def Let_def)
qed

text \<open>
  \<^verbatim>\<open>write_to\<close> on any writer that meets the contract of \<^verbatim>\<open>Write\<close>: it returns; a
  success has written all of the image's bytes and returns its length; a failure is an I/O error
  of the writer or of the memory advice, after a prefix of the bytes was written.
\<close>
theorem write_to_prefix:
  assumes "olio_files fs p_bytes p_patience s_bytes s_off s_patience g_bytes g_off g_patience"
    and "write_sink wr good written" and "good out" and "image_ok fs s_bytes s_off b"
  shows "\<exists>x out'. write_to fs wr b out = Some (x, out') \<and> good out' \<and>
    (case x of
       Inr n \<Rightarrow> n = bi_len b \<and> written out' = written out @ image_bytes s_bytes b
     | Inl f \<Rightarrow> (\<exists>k. written out' = written out @ take k (image_bytes s_bytes b)) \<and>
         (\<exists>e. f = Fail (BodyIo e) \<and> (refuses wr good e \<or> (\<exists>m a. mh_advise fs m a = Some e))))"
proof -
  obtain x out' where "write_to fs wr b out = Some (x, out')"
    "emits good written out (image_bytes s_bytes b) (x, out')"
    "case x of Inr n \<Rightarrow> n = bi_len b
     | Inl f \<Rightarrow> \<exists>e. f = Fail (BodyIo e) \<and> (refuses wr good e \<or> (\<exists>m a. mh_advise fs m a = Some e))"
    using olio_files.write_to_emits [OF assms] by blast
  then show ?thesis
    by (intro exI [of _ x] exI [of _ out']) (auto simp: emits_def split: sum.splits)
qed

theorem write_to_prefix_witness:
  "write_to cursor_olio file_write_all \<lparr>bi_state = Ram [''ab'', ''cd''], bi_len = 4\<rparr>
     (\<lparr>content = ''x'', fpos = 1\<rparr>, [None, Some (1, WriteZero)]) =
   Some (Err (BodyIo WriteZero), (\<lparr>content = ''xabc'', fpos = 4\<rparr>, []))"
proof -
  have "at_end (\<lparr>content = ''x'', fpos = 1\<rparr>, [None, Some (1, WriteZero)])"
    by (simp add: at_end_def)
  moreover have "image_ok cursor_olio (\<lambda>s. cur_bytes (fst s)) (\<lambda>s. cur_pos (fst s))
      \<lparr>bi_state = Ram [''ab'', ''cd''], bi_len = 4\<rparr>"
    by (simp add: image_ok_def image_bytes_def)
  ultimately show ?thesis
    using write_to_prefix [OF cursors.olio_files_axioms file_end.write_sink_axioms,
        of "(\<lparr>content = ''x'', fpos = 1\<rparr>, [None, Some (1, WriteZero)])"
          "\<lparr>bi_state = Ram [''ab'', ''cd''], bi_len = 4\<rparr>"]
    by (simp add: write_to_def file_put_def put_at_def)
qed

text \<open>
  The length given to \<^verbatim>\<open>from_file\<close> limits what a reader of the image delivers, but not
  what \<^verbatim>\<open>write_to\<close> writes: it copies the whole file and still returns the given length.
\<close>
theorem from_file_length:
  assumes "olio_files fs p_bytes p_patience s_bytes s_off s_patience g_bytes g_off g_patience"
    and "0 < len"
  shows "write_to fs vec_write_all (image_from_file f len) [] = Some (Ok len, content f) \<and>
    (\<exists>r'. io_copy (body_reader_read fs) vec_write_all 0 (reader fs (image_from_file f len)) [] =
       Some (Ok (min len (length (content f))), (r', take len (content f))))"
  using olio_files.write_to_file [OF assms] olio_files.reader_file [OF assms] by blast

theorem from_file_length_witness:
  "write_to cursor_olio vec_write_all (image_from_file \<lparr>content = ''abcd'', fpos = 0\<rparr> 2) [] =
     Some (Ok 2, ''abcd'')"
  using from_file_length [OF cursors.olio_files_axioms, of 2 "\<lparr>content = ''abcd'', fpos = 0\<rparr>"]
  by simp

end
