(* ===== verification/Image_Read.thy ===== *)
theory Image_Read
  imports Body_Image
begin

text \<open>
  \<^verbatim>\<open>BodyImage::read_from\<close> and \<^verbatim>\<open>read_to_body_fs\<close> of \<^verbatim>\<open>body-image/src/lib.rs\<close>: a
  source is collected into an image, in RAM up to \<^verbatim>\<open>max_body_ram\<close> and in a temporary file
  beyond, or from the start when the estimate says so.

  The loops are \<open>partial_function\<close>s: a source that never ends is never done. The lemmas show
  that on every source that ends they return, with which image, or with which error.
\<close>

section \<open>The loops\<close>

text \<open>The \<^verbatim>\<open>'fill\<close> loop: one buffer is filled as far as the source and its capacity go.\<close>

partial_function (option) fill_buf ::
  "'b bytes_mut \<Rightarrow> 'r reader \<Rightarrow> 'b \<Rightarrow> 'r \<Rightarrow> (body_error, 'b, 'r) outcome" where
  "fill_buf bm rd buf r =
     (case bm_chunk bm buf of (k, buf) \<Rightarrow>
      (case rd r k of
         (Inr bs, r') \<Rightarrow>
           if bs = [] then Some (Ok buf, r')
           else if bm_remaining bm (bm_advance bm buf bs) < 1024
           then Some (Ok (bm_advance bm buf bs), r')
           else fill_buf bm rd (bm_advance bm buf bs) r'
       | (Inl e, r') \<Rightarrow>
           if e = Interrupted then fill_buf bm rd buf r'
           else Some (Err (BodyIo e), r')))"

text \<open>
  The loop of \<^verbatim>\<open>read_to_body_fs\<close>; \<open>sz\<close> counts what this loop has read. The buffer is
  empty at the head of the loop.
\<close>

partial_function (option) read_fs_loop ::
  "'b bytes_mut \<Rightarrow> 'r reader \<Rightarrow> tunables \<Rightarrow> nat \<Rightarrow> 'b \<Rightarrow> body_sink \<Rightarrow> 'r \<Rightarrow> io_script
     \<Rightarrow> (body_error, 's body_image, 'r \<times> io_script) outcome" where
  "read_fs_loop bm rd tune sz buf body r w =
     (case bm_chunk bm buf of (k, buf) \<Rightarrow>
      (case rd r k of
         (Inr bs, r') \<Rightarrow>
           if bs = [] then (case prepare body w of (x, w') \<Rightarrow> Some (x, (r', w')))
           else if max_body tune < sz + length bs
           then Some (Err (BodyTooLong (sz + length bs)), (r', w))
           else (case sink_write_all body (bm_bytes bm (bm_advance bm buf bs)) w of
               (Inl (Panic m), (body', w')) \<Rightarrow> Some (panic m, (r', w'))
             | (Inl (Fail e), (body', w')) \<Rightarrow> Some (Err (BodyIo e), (r', w'))
             | (Inr u, (body', w')) \<Rightarrow>
                 read_fs_loop bm rd tune (sz + length bs) (bm_clear bm (bm_advance bm buf bs))
                   body' r' w')
       | (Inl e, r') \<Rightarrow>
           if e = Interrupted then read_fs_loop bm rd tune sz buf body r' w
           else Some (Err (BodyIo e), (r', w))))"

definition read_to_body_fs ::
  "'b bytes_mut \<Rightarrow> 'r reader \<Rightarrow> tunables \<Rightarrow> body_sink \<Rightarrow> 'r \<Rightarrow> io_script
     \<Rightarrow> (body_error, 's body_image, 'r \<times> io_script) outcome" where
  "read_to_body_fs bm rd tune body r w =
     (if sink_is_ram body then Some (panic ''assertion failed: !body.is_ram()'', (r, w))
      else read_fs_loop bm rd tune 0 (bm_new bm (buffer_size_fs tune)) body r w)"

text \<open>The \<^verbatim>\<open>'eof\<close> loop of \<^verbatim>\<open>read_from\<close>.\<close>

partial_function (option) read_ram_loop ::
  "'b bytes_mut \<Rightarrow> 'r reader \<Rightarrow> temp_fn \<Rightarrow> tunables \<Rightarrow> nat \<Rightarrow> body_sink \<Rightarrow> 'r \<Rightarrow> io_script
     \<Rightarrow> (body_error, 's body_image, 'r \<times> io_script) outcome" where
  "read_ram_loop bm rd tmp tune sz body r w =
     (case fill_buf bm rd (bm_new bm (buffer_size_ram tune)) r of
        None \<Rightarrow> None
      | Some (Inl x, r') \<Rightarrow> Some (Inl x, (r', w))
      | Some (Inr buf, r') \<Rightarrow>
          (if length (bm_bytes bm buf) = 0
           then (case prepare body w of (x, w') \<Rightarrow> Some (x, (r', w')))
           else if max_body tune < sz + length (bm_bytes bm buf)
           then Some (Err (BodyTooLong (sz + length (bm_bytes bm buf))), (r', w))
           else if max_body_ram tune < sz + length (bm_bytes bm buf)
           then (case sink_write_back tmp (temp_dir tune) body w of
               (Inl x, (body', w')) \<Rightarrow> Some (Inl x, (r', w'))
             | (Inr u, (body', w')) \<Rightarrow>
                 (case sink_write_all body' (bm_bytes bm buf) w' of
                    (Inl (Panic m), (body'', w'')) \<Rightarrow> Some (panic m, (r', w''))
                  | (Inl (Fail e), (body'', w'')) \<Rightarrow> Some (Err (BodyIo e), (r', w''))
                  | (Inr u, (body'', w'')) \<Rightarrow> read_to_body_fs bm rd tune body'' r' w''))
           else (case sink_push body (bm_bytes bm buf) w of
               (Inl (Panic m), (body', w')) \<Rightarrow> Some (panic m, (r', w'))
             | (Inl (Fail e), (body', w')) \<Rightarrow> Some (Err (BodyIo e), (r', w'))
             | (Inr u, (body', w')) \<Rightarrow>
                 read_ram_loop bm rd tmp tune (sz + length (bm_bytes bm buf)) body' r' w')))"

definition read_from ::
  "'b bytes_mut \<Rightarrow> 'r reader \<Rightarrow> temp_fn \<Rightarrow> tunables \<Rightarrow> nat \<Rightarrow> 'r \<Rightarrow> io_script
     \<Rightarrow> (body_error, 's body_image, 'r \<times> io_script) outcome" where
  "read_from bm rd tmp tune len_estimate r w =
     (if max_body_ram tune < len_estimate
      then (case sink_with_fs tmp (temp_dir tune) w of
          (Inl x, w') \<Rightarrow> Some (Inl x, (r, w'))
        | (Inr body, w') \<Rightarrow> read_to_body_fs bm rd tune body r w')
      else read_ram_loop bm rd tmp tune 0 (sink_with_ram len_estimate) r w)"

section \<open>Sources, buffers and files together\<close>

locale collecting =
  src: read_source rd stream off patience +
  buf: bytes_buf bm +
  dir: temp_files tmp
  for rd :: "'r reader" and stream off patience and bm :: "'b bytes_mut" and tmp
begin

definition source_fails :: "io_error \<Rightarrow> bool" where
  "source_fails e \<longleftrightarrow> e \<noteq> Interrupted \<and> (\<exists>r k r'. rd r k = (Inl e, r'))"

text \<open>The file system has no failure in store.\<close>

definition quiet :: "io_script \<Rightarrow> bool" where
  "quiet w \<longleftrightarrow> calm w \<and> (\<forall>d w. calm w \<longrightarrow> (\<exists>f w'. tmp d w = (Inr f, w') \<and> calm w'))"

text \<open>A buffer of at most \<open>m\<close> bytes never comes near its capacity.\<close>

definition roomy :: "nat \<Rightarrow> bool" where
  "roomy m \<longleftrightarrow> (\<forall>b. length (bm_bytes bm b) \<le> m \<longrightarrow> 1024 \<le> bm_remaining bm b)"

text \<open>What one buffer takes of a source.\<close>

definition filled :: "'b \<Rightarrow> 'r \<Rightarrow> (body_error, 'b) result \<Rightarrow> 'r \<Rightarrow> bool" where
  "filled b r x r' \<longleftrightarrow>
     (case x of
        Inr b' \<Rightarrow> \<exists>n. src.advanced r n r' \<and> n \<le> length (src.rest r) \<and>
          bm_bytes bm b' = bm_bytes bm b @ take n (src.rest r) \<and> (n = 0 \<longrightarrow> src.rest r = []) \<and>
          (roomy (length (bm_bytes bm b @ src.rest r)) \<longrightarrow> n = length (src.rest r))
      | Inl f \<Rightarrow> \<exists>e. f = Fail (BodyIo e) \<and> source_fails e)"

lemma filled_more:
  assumes "src.advanced r (length bs) r1" and "src.rest r = bs @ src.rest r1" and "bs \<noteq> []"
    and "bm_bytes bm b1 = bm_bytes bm b @ bs" and "filled b1 r1 x r2"
  shows "filled b r x r2"
proof (cases x)
  case (Inl f)
  then show ?thesis using assms(5) by (simp add: filled_def)
next
  case (Inr b2)
  then obtain n where n: "src.advanced r1 n r2" "n \<le> length (src.rest r1)"
    "bm_bytes bm b2 = bm_bytes bm b1 @ take n (src.rest r1)"
    "roomy (length (bm_bytes bm b1 @ src.rest r1)) \<longrightarrow> n = length (src.rest r1)"
    using assms(5) by (auto simp: filled_def)
  have "src.advanced r (length bs + n) r2"
    using src.advanced_trans [OF assms(1) n(1)] .
  moreover have "bm_bytes bm b2 = bm_bytes bm b @ take (length bs + n) (src.rest r)"
    using n(3) assms(2,4) by simp
  ultimately show ?thesis
    using Inr n assms(2-4) by (auto simp: filled_def intro!: exI [of _ "length bs + n"])
qed

lemma fill_buf_cases: "\<exists>x r'. fill_buf bm rd b r = Some (x, r') \<and> filled b r x r'"
proof (induction "patience r + length (src.rest r)" arbitrary: b r rule: less_induct)
  case less
  obtain k b1 where ch: "bm_chunk bm b = (k, b1)" "0 < k" "bm_bytes bm b1 = bm_bytes bm b"
    by (rule buf.chunk_cases)
  note unfold = fill_buf.simps [of bm rd b r]
  show ?case
  proof (cases rule: src.source_cases [of r k])
    case (interrupted r')
    then show ?thesis
      using less.hyps [of r' b1] ch src.advanced_trans [of r 0 r']
      by (fastforce simp: unfold filled_def split: sum.splits)
  next
    case (failed e r')
    then have "source_fails e" by (auto simp: source_fails_def)
    then show ?thesis using failed ch by (simp add: unfold filled_def)
  next
    case (eof r')
    then show ?thesis using ch by (auto simp: unfold filled_def)
  next
    case (some c cs r')
    let ?bs = "c # cs" and ?b = "bm_advance bm b1 (c # cs)"
    have b: "bm_bytes bm ?b = bm_bytes bm b @ ?bs" using ch by simp
    show ?thesis
    proof (cases "bm_remaining bm ?b < 1024")
      case True
      have "\<not> roomy (length (bm_bytes bm b @ src.rest r))"
        using True b some(4) by (auto simp: roomy_def not_le intro!: exI [of _ ?b])
      then show ?thesis
        using True some ch b by (auto simp: unfold filled_def intro!: exI [of _ "length ?bs"])
    next
      case False
      have "patience r' + length (src.rest r') < patience r + length (src.rest r)"
        using some src.advancedD(3) [OF some(2)] by simp
      then obtain x r'' where x: "fill_buf bm rd ?b r' = Some (x, r'')" "filled ?b r' x r''"
        using less.hyps by blast
      moreover have "fill_buf bm rd b r = Some (x, r'')"
        using x(1) some ch False by (simp add: unfold)
      ultimately show ?thesis
        using filled_more [OF some(2) _ _ b] some(4) by fastforce
    qed
  qed
qed

lemma fill_new_cases:
  obtains (failed) e r' where "fill_buf bm rd (bm_new bm m) r = Some (Err (BodyIo e), r')"
      "source_fails e"
  | (filled) b n r' where "fill_buf bm rd (bm_new bm m) r = Some (Ok b, r')"
      "bm_bytes bm b = take n (src.rest r)" "length (bm_bytes bm b) = n" "src.rest r' = drop n (src.rest r)"
      "n \<le> length (src.rest r)" "n = 0 \<Longrightarrow> src.rest r = []"
      "roomy (length (src.rest r)) \<Longrightarrow> n = length (src.rest r)"
proof -
  obtain x r' where x: "fill_buf bm rd (bm_new bm m) r = Some (x, r')" "filled (bm_new bm m) r x r'"
    using fill_buf_cases by blast
  show ?thesis
  proof (cases x)
    case (Inl f)
    then show ?thesis using x failed by (auto simp: filled_def)
  next
    case (Inr b)
    then obtain n where n: "src.advanced r n r'" "n \<le> length (src.rest r)"
      "bm_bytes bm b = take n (src.rest r)" "n = 0 \<longrightarrow> src.rest r = []"
      "roomy (length (src.rest r)) \<longrightarrow> n = length (src.rest r)"
      using x(2) by (auto simp: filled_def)
    have "length (bm_bytes bm b) = n" using n(2,3) by simp
    from filled [OF _ n(3) this src.advancedD(4) [OF n(1)] n(2)] show ?thesis
      using x(1) Inr n(4,5) by blast
  qed
qed

text \<open>
  The outcome of collecting \<open>rest r\<close> after \<open>pre\<close>: an image of exactly these bytes, in RAM only
  up to \<open>ram\<close>; or too long a body; or an I/O error of the source or the file system.
\<close>

definition collects ::
  "tunables \<Rightarrow> nat \<Rightarrow> nat \<Rightarrow> bytes \<Rightarrow> io_script \<Rightarrow> (body_error, 's body_image) result \<Rightarrow> bool" where
  "collects tune lim ram bs w x \<longleftrightarrow>
     (case x of
        Inr b \<Rightarrow> image_holds b bs \<and> length bs \<le> lim \<and> (image_is_ram b \<longleftrightarrow> length bs \<le> ram)
      | Inl f \<Rightarrow>
          (\<exists>n. f = Fail (BodyTooLong n) \<and> max_body tune < n \<and> n \<le> length bs) \<or>
          (\<exists>e. f = Fail (BodyIo e) \<and> (source_fails e \<or> \<not> quiet w)))"

lemma not_quiet: "\<not> calm w \<Longrightarrow> \<not> quiet w"
  by (simp add: quiet_def)

lemma quiet_calm: "quiet w \<Longrightarrow> calm w' \<Longrightarrow> quiet w'"
  by (simp add: quiet_def)

lemma prepare_collected:
  assumes "sink_ok body" and "length (sink_bytes body) \<le> lim"
    and "sink_is_ram body \<or> sink_bytes body = [] \<longleftrightarrow> length (sink_bytes body) \<le> ram"
  obtains x :: "(body_error, 's body_image) result" and w' where "prepare body w = (x, w')"
    "collects tune lim ram (sink_bytes body) w x" "\<forall>n. x \<noteq> Err (BodyTooLong n)"
  using prepare_holds [OF assms(1), of w, where 's = 's] assms(2,3) not_quiet
  by (auto simp: collects_def split: prod.splits sum.splits)

lemma write_all_step:
  assumes "sink_ok body"
  obtains (ok) body' w' where "sink_write_all body bs w = (Ok (), (body', w'))" "sink_ok body'"
      "sink_bytes body' = sink_bytes body @ bs" "sink_is_ram body' = sink_is_ram body"
      "quiet w \<longrightarrow> quiet w'"
  | (fail) e body' w' where "sink_write_all body bs w = (Err e, (body', w'))" "\<not> quiet w"
      "\<not> sink_is_ram body"
proof (cases "sink_write_all body bs w")
  case (fields x body' w')
  show ?thesis
  proof (cases x)
    case (Inr u)
    have "quiet w'" if "quiet w"
      using that fields sink_push_calm [of w body bs]
      by (auto simp: sink_write_all_eq_push quiet_def)
    then show ?thesis
      using fields Inr ok [of body' w'] sink_push_cases [OF assms, of bs w]
      by (auto simp: sink_write_all_eq_push)
  next
    case (Inl f)
    have "\<not> quiet w"
      using fields Inl sink_push_calm [of w body bs]
      by (auto simp: sink_write_all_eq_push quiet_def)
    then show ?thesis
      using fields Inl fail [of _ body' w'] sink_push_cases [OF assms, of bs w]
      by (auto simp: sink_write_all_eq_push)
  qed
qed

lemma read_fs_loop_cases:
  "bm_bytes bm b = [] \<Longrightarrow> sink_ok body \<Longrightarrow> \<not> sink_is_ram body \<Longrightarrow>
   sz \<le> length (sink_bytes body) \<Longrightarrow>
   sz \<le> max_body tune \<Longrightarrow>
     \<exists>(x :: (body_error, 's body_image) result) r' w'. read_fs_loop bm rd tune sz b body r w = Some (x, (r', w')) \<and>
       collects tune (length (sink_bytes body) - sz + max_body tune) 0
         (sink_bytes body @ src.rest r) w x \<and>
       (\<forall>n. x = Err (BodyTooLong n) \<longrightarrow> n \<le> sz + length (src.rest r))"
proof (induction "patience r + length (src.rest r)" arbitrary: sz b body r w rule: less_induct)
  case less
  obtain k b1 where ch: "bm_chunk bm b = (k, b1)" "0 < k" "bm_bytes bm b1 = bm_bytes bm b"
    by (rule buf.chunk_cases)
  note unfold = read_fs_loop.simps [of bm rd tune sz b body r w]
  show ?case
  proof (cases rule: src.source_cases [of r k])
    case (interrupted r')
    then show ?thesis
      using less.hyps [of r' b1 body sz w] less.prems ch by (auto simp: unfold)
  next
    case (failed e r')
    then have "source_fails e" by (auto simp: source_fails_def)
    then show ?thesis using failed ch by (simp add: unfold collects_def)
  next
    case (eof r')
    obtain x :: "(body_error, 's body_image) result" and w' where "prepare body w = (x, w')"
      "collects tune (length (sink_bytes body) - sz + max_body tune) 0 (sink_bytes body) w x"
      "\<forall>n. x \<noteq> Err (BodyTooLong n)"
      by (rule prepare_collected [OF less.prems(2), of "length (sink_bytes body) - sz + max_body tune" 0 w tune])
        (use less.prems(3-5) in auto)
    then show ?thesis
      using eof ch by (simp add: unfold)
  next
    case (some c cs r')
    let ?bs = "c # cs" and ?b = "bm_advance bm b1 (c # cs)"
    have b: "bm_bytes bm ?b = ?bs" using ch less.prems by simp
    show ?thesis
    proof (cases "max_body tune < sz + length ?bs")
      case True
      then show ?thesis
        using some ch less.prems by (auto simp: unfold collects_def)
    next
      case False
      from less.prems(2) show ?thesis
      proof (cases rule: write_all_step [of body ?bs w])
        case (fail e body' w')
        then show ?thesis
          using some ch False b by (simp add: unfold collects_def)
      next
        case (ok body' w')
        have "patience r' + length (src.rest r') < patience r + length (src.rest r)"
          using some src.advancedD(3) [OF some(2)] by simp
        then obtain x :: "(body_error, 's body_image) result" and r'' w'' where x:
          "read_fs_loop bm rd tune (sz + length ?bs) (bm_clear bm ?b) body' r' w' = Some (x, (r'', w''))"
          "collects tune (length (sink_bytes body') - (sz + length ?bs) + max_body tune) 0
             (sink_bytes body' @ src.rest r') w' x"
          "\<forall>n. x = Err (BodyTooLong n) \<longrightarrow> n \<le> sz + length ?bs + length (src.rest r')"
          using less.hyps [of r' "bm_clear bm ?b" body' "sz + length ?bs" w'] ok less.prems False
          by auto
        have "read_fs_loop bm rd tune sz b body r w = Some (x, (r'', w''))"
          using x(1) some ch False b ok(1) by (simp add: unfold)
        moreover have "collects tune (length (sink_bytes body) - sz + max_body tune) 0
             (sink_bytes body @ src.rest r) w x"
          using x(2) ok less.prems some(4)
          by (auto simp: collects_def split: sum.splits)
        ultimately show ?thesis
          using x(3) some(4) by (intro exI [of _ x] exI [of _ r''] exI [of _ w'']) auto
      qed
    qed
  qed
qed

lemma collects_weaken:
  assumes "collects tune lim ram bs w x" and "length bs \<le> lim'"
    and "length bs \<le> ram' \<longleftrightarrow> length bs \<le> ram" and "quiet w' \<longrightarrow> quiet w"
  shows "collects tune lim' ram' bs w' x"
  using assms by (auto simp: collects_def split: sum.splits)

lemma with_fs_step:
  obtains (ok) body w' where "sink_with_fs tmp d w = (Ok body, w')" "sink_ok body"
      "sink_bytes body = []" "\<not> sink_is_ram body" "quiet w \<longrightarrow> quiet w'"
  | (fail) e w' where "sink_with_fs tmp d w = (Err (BodyIo e), w')" "\<not> quiet w"
proof (cases "sink_with_fs tmp d w")
  case (Pair x w')
  have q: "\<exists>f. tmp d w = (Inr f, w') \<and> quiet w'" if "quiet w"
  proof -
    obtain f w1 where "tmp d w = (Inr f, w1)" "calm w1"
      using \<open>quiet w\<close> unfolding quiet_def by blast
    then show ?thesis
      using Pair quiet_calm [OF \<open>quiet w\<close>] by (simp add: sink_with_fs_def)
  qed
  show ?thesis
  proof (cases x)
    case (Inl f)
    have "\<not> quiet w" using q Pair Inl by (auto simp: sink_with_fs_def)
    then show ?thesis using fail Pair Inl dir.with_fs_cases [of d w] by auto
  next
    case (Inr body)
    then show ?thesis using ok Pair dir.with_fs_cases [of d w] q by auto
  qed
qed

lemma write_back_step:
  assumes "sink_ok body" and "sink_is_ram body"
  obtains (ok) body' w' where "sink_write_back tmp d body w = (Ok (), (body', w'))" "sink_ok body'"
      "sink_bytes body' = sink_bytes body" "\<not> sink_is_ram body'" "quiet w \<longrightarrow> quiet w'"
  | (fail) e body' w' where "sink_write_back tmp d body w = (Err (BodyIo e), (body', w'))"
      "\<not> quiet w"
proof -
  obtain v where v: "bs_state body = SinkRam v"
    using assms(2) by (auto simp: sink_is_ram_def split: sink_state.splits)
  have q: "\<exists>body' w'. sink_write_back tmp d body w = (Ok (), (body', w')) \<and> quiet w'"
    if "quiet w"
  proof -
    obtain f w' where f: "tmp d w = (Inr f, w')" "calm w'"
      using \<open>quiet w\<close> unfolding quiet_def by blast
    then show ?thesis
      using v \<open>quiet w\<close> write_buffers_calm [of "(f, w')" v]
      by (auto simp: sink_write_back_def quiet_def Let_def split: prod.splits)
  qed
  show ?thesis
  proof (cases "sink_write_back tmp d body w")
    case (fields x body' w')
    then show ?thesis
    proof (cases x)
      case (Inl f)
      then show ?thesis
        using fields fail q dir.write_back_cases [OF assms(1), of d w] by fastforce
    next
      case (Inr u)
      then show ?thesis
        using fields ok [of body' w'] q dir.write_back_cases [OF assms(1), of d w] by auto
    qed
  qed
qed

lemma read_to_body_fs_cases:
  assumes "sink_ok body" and "\<not> sink_is_ram body"
  obtains x :: "(body_error, 's body_image) result" and r' w'
    where "read_to_body_fs bm rd tune body r w = Some (x, (r', w'))"
    "collects tune (length (sink_bytes body) + max_body tune) 0 (sink_bytes body @ src.rest r) w x"
  using read_fs_loop_cases [of "bm_new bm (buffer_size_fs tune)" body 0 tune r w] assms
  by (auto simp: read_to_body_fs_def)

text \<open>What an image of \<open>m\<close> bytes can reach by the RAM route.\<close>

definition ram_limit :: "tunables \<Rightarrow> nat \<Rightarrow> nat" where
  "ram_limit tune m = (if roomy m then max_body tune else 2 * max_body tune)"

lemma roomy_less: "roomy m \<Longrightarrow> n \<le> m \<Longrightarrow> roomy n"
  by (auto simp: roomy_def)

text \<open>A body that outgrows the RAM: it is written back with the last buffer, then read on.\<close>

lemma outgrown_cases:
  assumes "sink_ok body" and "sink_is_ram body"
    and n: "bs = take n (src.rest r)" "src.rest r' = drop n (src.rest r)" "n \<le> length (src.rest r)"
      "roomy (length (src.rest r)) \<Longrightarrow> n = length (src.rest r)"
    and "max_body_ram tune < length (sink_bytes body) + n" and "length (sink_bytes body) + n \<le> max_body tune"
  defines "all \<equiv> sink_bytes body @ src.rest r"
  obtains (no_file) f body' w' where "sink_write_back tmp (temp_dir tune) body w = (Inl f, (body', w'))"
      "collects tune (ram_limit tune (length all)) (max_body_ram tune) all w
         (Inl f :: (body_error, 's body_image) result)"
  | (no_write) e body1 w1 body2 w2 where "sink_write_back tmp (temp_dir tune) body w = (Ok (), (body1, w1))"
      "sink_write_all body1 bs w1 = (Err e, (body2, w2))"
      "collects tune (ram_limit tune (length all)) (max_body_ram tune) all w
         (Err (BodyIo e) :: (body_error, 's body_image) result)"
  | (read_on) body1 w1 body2 w2 x r'' w'' where
      "sink_write_back tmp (temp_dir tune) body w = (Ok (), (body1, w1))"
      "sink_write_all body1 bs w1 = (Ok (), (body2, w2))"
      "read_to_body_fs bm rd tune body2 r' w2 = Some (x :: (body_error, 's body_image) result, (r'', w''))"
      "collects tune (ram_limit tune (length all)) (max_body_ram tune) all w x"
  using assms(1,2)
proof (cases rule: write_back_step [of body "temp_dir tune" w])
  case (fail e body' w')
  then show ?thesis using no_file by (simp add: collects_def)
next
  case wb: (ok body1 w1)
  from wb(2) show ?thesis
  proof (cases rule: write_all_step [of body1 bs w1])
    case (fail e body' w')
    then show ?thesis using no_write wb by (auto simp: collects_def)
  next
    case wa: (ok body2 w2)
    have b2: "sink_bytes body2 = sink_bytes body @ take n (src.rest r)"
      using wb wa n(1) by simp
    then have bytes: "sink_bytes body2 @ src.rest r' = all" by (simp add: n(2) all_def)
    obtain x :: "(body_error, 's body_image) result" and r'' w''
      where x: "read_to_body_fs bm rd tune body2 r' w2 = Some (x, (r'', w''))"
      "collects tune (length (sink_bytes body2) + max_body tune) 0 all w2 x"
      using read_to_body_fs_cases [of body2 tune r' w2] wb wa unfolding bytes by auto
    have "collects tune (ram_limit tune (length all)) (max_body_ram tune) all w x"
    proof (cases x)
      case (Inr i)
      have "length all \<le> length (sink_bytes body) + n + max_body tune"
        using x(2) Inr b2 n(3) by (simp add: collects_def)
      moreover have "n = length (src.rest r)" if "roomy (length all)"
        using n(4) roomy_less [OF that] by (simp add: all_def)
      ultimately have "length all \<le> ram_limit tune (length all)"
        using assms(8) by (auto simp: ram_limit_def all_def)
      then show ?thesis
        using n(3) assms(7) wb(5) wa(5) by (intro collects_weaken [OF x(2)]) (auto simp: all_def)
    qed (use x(2) wb(5) wa(5) in \<open>auto simp: collects_def\<close>)
    then show ?thesis using read_on wb(1) wa(1) x(1) by blast
  qed
qed

lemma read_ram_loop_cases:
  "sink_ok body \<Longrightarrow> sink_is_ram body \<Longrightarrow> sz = length (sink_bytes body) \<Longrightarrow>
   sz \<le> max_body_ram tune \<Longrightarrow> sz \<le> max_body tune \<Longrightarrow>
     \<exists>(x :: (body_error, 's body_image) result) r' w'. read_ram_loop bm rd tmp tune sz body r w = Some (x, (r', w')) \<and>
       collects tune (ram_limit tune (length (sink_bytes body @ src.rest r))) (max_body_ram tune)
         (sink_bytes body @ src.rest r) w x"
proof (induction "length (src.rest r)" arbitrary: sz body r w rule: less_induct)
  case less
  let ?all = "sink_bytes body @ src.rest r"
  let ?lim = "ram_limit tune (length ?all)"
  note unfold = read_ram_loop.simps [of bm rd tmp tune sz body r w]
  show ?case
  proof (cases rule: fill_new_cases [of "buffer_size_ram tune" r])
    case (failed e r')
    then show ?thesis by (auto simp: unfold collects_def)
  next
    case fill: (filled b n r')
    consider (eof) "n = 0" | (long) "n \<noteq> 0" "max_body tune < sz + n"
      | (big) "n \<noteq> 0" "sz + n \<le> max_body tune" "max_body_ram tune < sz + n"
      | (small) "n \<noteq> 0" "sz + n \<le> max_body tune" "sz + n \<le> max_body_ram tune"
      by linarith
    then show ?thesis
    proof cases
      case eof
      have "length (sink_bytes body) \<le> ?lim" using less.prems by (simp add: ram_limit_def)
      then obtain x :: "(body_error, 's body_image) result" and w' where "prepare body w = (x, w')"
        "collects tune ?lim (max_body_ram tune) (sink_bytes body) w x"
        by (rule prepare_collected [OF less.prems(1), of ?lim "max_body_ram tune" w tune])
          (use less.prems in auto)
      then show ?thesis
        using fill(1,3) eof fill(6) [OF eof] by (simp add: unfold)
    next
      case long
      then have "collects tune ?lim (max_body_ram tune) ?all w
          (Err (BodyTooLong (sz + n)) :: (body_error, 's body_image) result)"
        using fill(5) less.prems(3) by (simp add: collects_def)
      then show ?thesis
        using long fill(1,3) by (simp add: unfold)
    next
      case big
      have "max_body_ram tune < length (sink_bytes body) + n" "length (sink_bytes body) + n \<le> max_body tune"
        using big less.prems(3) by simp_all
      from less.prems(1,2) fill(2,4,5,7) this show ?thesis
        by (cases rule: outgrown_cases [of body "bm_bytes bm b" n r r' tune w, where 's = 's])
          (use big fill(1,3) in \<open>simp_all add: unfold\<close>)
    next
      case small
      obtain body1 where p: "sink_push body (bm_bytes bm b) w = (Ok (), (body1, w))"
        "sink_ok body1" "sink_is_ram body1" "sink_bytes body1 = sink_bytes body @ take n (src.rest r)"
        using sink_push_cases [OF less.prems(1), of "bm_bytes bm b" w] less.prems(2) fill(2)
        by (auto split: prod.splits sum.splits)
      have all: "sink_bytes body1 @ src.rest r' = ?all" using p(4) by (simp add: fill(4))
      have "length (src.rest r') < length (src.rest r)"
        using small(1) fill(5) by (simp add: fill(4))
      then obtain x :: "(body_error, 's body_image) result" and r'' w'' where
        "read_ram_loop bm rd tmp tune (sz + n) body1 r' w = Some (x, (r'', w''))"
        "collects tune ?lim (max_body_ram tune) ?all w x"
        using less.hyps [of r' body1 "sz + n" w] p less.prems(3) fill(5) small
        unfolding all by auto
      then show ?thesis
        using fill(1,3) small p(1) by (simp add: unfold)
    qed
  qed
qed

lemma read_from_cases:
  obtains x :: "(body_error, 's body_image) result" and r' w'
    where "read_from bm rd tmp tune est r w = Some (x, (r', w'))"
    "if max_body_ram tune < est
     then collects tune (max_body tune) 0 (src.rest r) w x
     else collects tune (ram_limit tune (length (src.rest r))) (max_body_ram tune) (src.rest r) w x"
proof (cases "max_body_ram tune < est")
  case True
  show ?thesis
  proof (cases rule: with_fs_step [of "temp_dir tune" w])
    case (fail e w')
    then show ?thesis
      using True that [of "Err (BodyIo e)" r w'] by (simp add: read_from_def collects_def)
  next
    case (ok body w')
    obtain x :: "(body_error, 's body_image) result" and r'' w''
      where x: "read_to_body_fs bm rd tune body r w' = Some (x, (r'', w''))"
      "collects tune (max_body tune) 0 (src.rest r) w' x"
      using read_to_body_fs_cases [OF ok(2,4), of tune r w'] ok(3) by auto
    then have "collects tune (max_body tune) 0 (src.rest r) w x"
      using ok(5) by (auto simp: collects_def split: sum.splits)
    moreover have "read_from bm rd tmp tune est r w = Some (x, (r'', w''))"
      using True ok(1) x(1) by (simp add: read_from_def)
    ultimately show ?thesis
      using that [of x r'' w''] True by simp
  qed
next
  case False
  then show ?thesis
    using read_ram_loop_cases [of "sink_with_ram est" 0 tune r w] that
    by (auto simp: read_from_def)
qed

lemma read_from_image:
  "\<exists>(x :: (body_error, 's body_image) result) r' w'.
     read_from bm rd tmp tune est r w = Some (x, (r', w')) \<and>
     (case x of Inr b \<Rightarrow> image_holds b (src.rest r) | Inl f \<Rightarrow> \<exists>e. f = Fail e)"
proof -
  obtain x :: "(body_error, 's body_image) result" and r' w'
    where x: "read_from bm rd tmp tune est r w = Some (x, (r', w'))"
    "if max_body_ram tune < est
     then collects tune (max_body tune) 0 (src.rest r) w x
     else collects tune (ram_limit tune (length (src.rest r))) (max_body_ram tune) (src.rest r) w x"
    by (rule read_from_cases)
  then have "case x of Inr b \<Rightarrow> image_holds b (src.rest r) | Inl f \<Rightarrow> \<exists>e. f = Fail e"
    by (cases x) (auto simp: collects_def split: if_splits)
  with x(1) show ?thesis by blast
qed

end

interpretation collecting_cursor:
  collecting cursor_read cur_bytes cur_pos "\<lambda>_. 0" grow_buf scripted_tempfile
  by (intro collecting.intro std_cursor.read_source_axioms growing.bytes_buf_axioms
      scripted_tmp.temp_files_axioms)

section \<open>Properties of reading a body\<close>

text \<open>
  C8: \<^verbatim>\<open>read_from\<close> returns on every source that ends, failures of the source and of the
  file system included, and never panics. An image it returns holds exactly what was left in
  the source; it is in RAM if and only if the estimate and the length are within
  \<^verbatim>\<open>max_body_ram\<close> (an empty body always is); its length is within \<^verbatim>\<open>max_body\<close> when it was
  written to a file from the start, and within twice that otherwise. \<^verbatim>\<open>BodyTooLong(n)\<close> is
  returned only when \<open>n\<close>, which exceeds \<^verbatim>\<open>max_body\<close>, bytes were there.
\<close>
theorem read_from_result:
  assumes "read_source rd stream off patience" and "bytes_buf bm" and "temp_files tmp"
  shows "\<exists>(x :: (body_error, 's body_image) result) r' w'.
    read_from bm rd tmp tune est r w = Some (x, (r', w')) \<and>
    (case x of
       Inr b \<Rightarrow>
         image_holds b (drop (off r) (stream r)) \<and>
         bi_len b \<le> (if max_body_ram tune < est then max_body tune else 2 * max_body tune) \<and>
         (image_is_ram b \<longleftrightarrow> bi_len b \<le> (if max_body_ram tune < est then 0 else max_body_ram tune))
     | Inl (Fail (BodyTooLong n)) \<Rightarrow>
         max_body tune < n \<and> n \<le> length (drop (off r) (stream r))
     | Inl (Fail (BodyIo e)) \<Rightarrow> True
     | Inl f \<Rightarrow> False)"
proof -
  have col: "collecting rd stream off patience bm tmp"
    using assms by (intro collecting.intro)
  have rest: "read_source.rest stream off r = drop (off r) (stream r)"
    by (simp add: read_source.rest_def [OF assms(1)])
  obtain x :: "(body_error, 's body_image) result" and r' w'
    where x: "read_from bm rd tmp tune est r w = Some (x, (r', w'))"
    "if max_body_ram tune < est
     then collecting.collects rd tmp tune (max_body tune) 0 (drop (off r) (stream r)) w x
     else collecting.collects rd tmp tune
       (collecting.ram_limit bm tune (length (drop (off r) (stream r)))) (max_body_ram tune)
       (drop (off r) (stream r)) w x"
    using collecting.read_from_cases [OF col, of tune est r w] unfolding rest by blast
  have lim: "collecting.ram_limit bm tune m \<le> 2 * max_body tune" for m
    by (simp add: collecting.ram_limit_def [OF col])
  have "case x of
       Inr b \<Rightarrow>
         image_holds b (drop (off r) (stream r)) \<and>
         bi_len b \<le> (if max_body_ram tune < est then max_body tune else 2 * max_body tune) \<and>
         (image_is_ram b \<longleftrightarrow> bi_len b \<le> (if max_body_ram tune < est then 0 else max_body_ram tune))
     | Inl (Fail (BodyTooLong n)) \<Rightarrow>
         max_body tune < n \<and> n \<le> length (drop (off r) (stream r))
     | Inl (Fail (BodyIo e)) \<Rightarrow> True
     | Inl f \<Rightarrow> False"
  proof (cases x)
    case (Inl f)
    then show ?thesis
      using x(2) by (auto simp: collecting.collects_def [OF col] split: if_splits)
  next
    case (Inr b)
    then have "image_holds b (drop (off r) (stream r))"
      using x(2) by (simp add: collecting.collects_def [OF col] split: if_splits)
    with image_holdsD(3) [OF this] show ?thesis
      using x(2) Inr order_trans [OF _ lim]
      by (auto simp: collecting.collects_def [OF col])
  qed
  then show ?thesis
    using x(1) by blast
qed


definition sample_tune :: tunables where
  "sample_tune = (tunables_new ''/tmp'')\<lparr>max_body_ram := 3, max_body := 10\<rparr>"

theorem read_from_result_witness:
  "\<exists>(x :: (body_error, unit body_image) result) r' w'.
     read_from grow_buf cursor_read scripted_tempfile (sample_tune\<lparr>max_body := 4\<rparr>) 9
       (cursor_new ''abcdef'') [Some (0, OtherIo 13)] = Some (x, (r', w')) \<and> (\<forall>b. x \<noteq> Ok b)"
proof -
  note h = read_from_result [OF std_cursor.read_source_axioms growing.bytes_buf_axioms
      scripted_tmp.temp_files_axioms, of "sample_tune\<lparr>max_body := 4\<rparr>" 9 "cursor_new ''abcdef''"
      "[Some (0, OtherIo 13)]", where 's = unit]
  obtain x :: "(body_error, unit body_image) result" and r' w' where x:
    "read_from grow_buf cursor_read scripted_tempfile (sample_tune\<lparr>max_body := 4\<rparr>) 9
       (cursor_new ''abcdef'') [Some (0, OtherIo 13)] = Some (x, (r', w'))"
    using h by blast
  have "x \<noteq> Ok b" for b
  proof
    assume "x = Ok b"
    with h x have "image_holds b ''abcdef''" and "bi_len b \<le> 4"
      by (simp_all add: sample_tune_def cursor_new_def)
    then show False by (auto dest: image_holdsD(3))
  qed
  with x show ?thesis by blast
qed

text \<open>
  On a source that does not fail, with a file system that does not fail and a buffer
  whose \<^verbatim>\<open>remaining_mut\<close> counts what it can still grow to, as in the version of the crate
  used here, \<^verbatim>\<open>read_from\<close> on an estimate within \<^verbatim>\<open>max_body_ram\<close> succeeds if and only if
  the source holds at most \<^verbatim>\<open>max_body\<close> bytes; the image is then in RAM if and only if they
  are at most \<^verbatim>\<open>max_body_ram\<close>.
\<close>
theorem read_from_exact:
  assumes "steady_source rd stream off patience" and "bytes_buf bm" and "temp_files tmp"
    and "calm w" and "\<forall>d w. calm w \<longrightarrow> (\<exists>f w'. tmp d w = (Inr f, w') \<and> calm w')"
    and "est \<le> max_body_ram tune"
    and "bs = drop (off r) (stream r)"
    and "\<forall>b. length (bm_bytes bm b) \<le> length bs \<longrightarrow> 1024 \<le> bm_remaining bm b"
  shows "if length bs \<le> max_body tune
    then \<exists>(b :: 's body_image) r' w'. read_from bm rd tmp tune est r w = Some (Ok b, (r', w')) \<and>
      image_holds b bs \<and> (image_is_ram b \<longleftrightarrow> length bs \<le> max_body_ram tune)
    else \<exists>n r' w'.
      read_from bm rd tmp tune est r w =
        Some (Err (BodyTooLong n) :: (body_error, 's body_image) result, (r', w')) \<and>
      max_body tune < n \<and> n \<le> length bs"
proof -
  have src: "read_source rd stream off patience"
    using assms(1) by (simp add: steady_source_def)
  have col: "collecting rd stream off patience bm tmp"
    using assms(2,3) src by (intro collecting.intro)
  have rest: "read_source.rest stream off r = bs"
    by (simp add: read_source.rest_def [OF src] assms(7))
  have lim: "collecting.ram_limit bm tune (length bs) = max_body tune"
    using assms(8) by (simp add: collecting.ram_limit_def [OF col] collecting.roomy_def [OF col])
  have fails: "\<not> collecting.source_fails rd e" and quiet: "collecting.quiet tmp w" for e
    using steady_source.no_fail [OF assms(1)] assms(4,5)
    by (auto simp: collecting.source_fails_def [OF col] collecting.quiet_def [OF col])
  obtain x :: "(body_error, 's body_image) result" and r' w'
    where x: "read_from bm rd tmp tune est r w = Some (x, (r', w'))"
    "collecting.collects rd tmp tune (max_body tune) (max_body_ram tune) bs w x"
    using collecting.read_from_cases [OF col, of tune est r w] assms(6)
    unfolding rest lim by (auto simp: not_less [symmetric] split: if_splits)
  then show ?thesis
    using fails quiet
    by (cases x) (auto simp: collecting.collects_def [OF col])
qed

theorem read_from_exact_witness:
  "\<exists>(b :: unit body_image) r' w'. read_from grow_buf cursor_read scripted_tempfile sample_tune 2
      (cursor_new ''abcdef'') [] = Some (Ok b, (r', w')) \<and>
    bi_len b = 6 \<and> \<not> image_is_ram b"
proof -
  have "\<forall>d w. calm w \<longrightarrow> (\<exists>f w'. scripted_tempfile d w = (Inr f, w') \<and> calm w')"
    by (auto simp: scripted_tempfile_def split: list.splits)
  moreover have "\<forall>b. length (bm_bytes grow_buf b) \<le> length ''abcdef'' \<longrightarrow> 1024 \<le> bm_remaining grow_buf b"
    by auto
  ultimately have "if length ''abcdef'' \<le> max_body sample_tune
    then \<exists>(b :: unit body_image) r' w'. read_from grow_buf cursor_read scripted_tempfile sample_tune 2
        (cursor_new ''abcdef'') [] = Some (Ok b, (r', w')) \<and>
      image_holds b ''abcdef'' \<and> (image_is_ram b \<longleftrightarrow> length ''abcdef'' \<le> max_body_ram sample_tune)
    else \<exists>n r' w'. read_from grow_buf cursor_read scripted_tempfile sample_tune 2
        (cursor_new ''abcdef'') [] =
          Some (Err (BodyTooLong n) :: (body_error, unit body_image) result, (r', w')) \<and>
      max_body sample_tune < n \<and> n \<le> length ''abcdef''"
    by (intro read_from_exact [OF std_cursor.steady_source_axioms growing.bytes_buf_axioms
        scripted_tmp.temp_files_axioms]) (simp_all add: sample_tune_def cursor_new_def)
  then obtain b :: "unit body_image" and r' w' where
    "read_from grow_buf cursor_read scripted_tempfile sample_tune 2 (cursor_new ''abcdef'') [] =
       Some (Ok b, (r', w'))" "image_holds b ''abcdef''" "\<not> image_is_ram b"
    by (auto simp: sample_tune_def)
  with image_holdsD(3) [of b "''abcdef''"] show ?thesis
    by (intro exI [of _ b] exI [of _ r'] exI [of _ w']) simp
qed

text \<open>
  C18: The \<^verbatim>\<open>'fill\<close> loop of \<^verbatim>\<open>read_from\<close> tests \<^verbatim>\<open>remaining_mut\<close>, which in the version
  of the crate used here counts what the buffer can still grow to: one turn of the loop takes
  everything that the source still holds into one RAM buffer, whatever the buffer size and
  whatever \<^verbatim>\<open>max_body_ram\<close> and \<^verbatim>\<open>max_body\<close> allow, which are compared only afterwards.
\<close>
theorem fill_buf_takes_all:
  assumes "steady_source rd stream off patience" and "bytes_buf bm"
    and "bs = drop (off r) (stream r)"
    and "\<forall>b. length (bm_bytes bm b) \<le> length bs \<longrightarrow> 1024 \<le> bm_remaining bm b"
  shows "\<exists>b r'. fill_buf bm rd (bm_new bm (buffer_size_ram tune)) r = Some (Ok b, r') \<and>
    bm_bytes bm b = bs"
proof -
  have src: "read_source rd stream off patience"
    using assms(1) by (simp add: steady_source_def)
  have col: "collecting rd stream off patience bm scripted_tempfile"
    using assms(2) src scripted_tmp.temp_files_axioms by (intro collecting.intro)
  have rest: "read_source.rest stream off r = bs"
    by (simp add: read_source.rest_def [OF src] assms(3))
  have roomy: "collecting.roomy bm (length bs)"
    using assms(4) by (simp add: collecting.roomy_def [OF col])
  have fails: "\<not> collecting.source_fails rd e" for e
    using steady_source.no_fail [OF assms(1)] by (auto simp: collecting.source_fails_def [OF col])
  show ?thesis
    by (rule collecting.fill_new_cases [OF col, of "buffer_size_ram tune" r])
      (use fails roomy rest in auto)
qed

theorem fill_buf_takes_all_witness:
  "\<exists>b r'. fill_buf grow_buf cursor_read (bm_new grow_buf (buffer_size_ram sample_tune))
      (cursor_new (replicate 100000 CR)) = Some (Ok b, r') \<and> length (bm_bytes grow_buf b) = 100000"
proof -
  have "\<forall>b. length (bm_bytes grow_buf b) \<le> length (replicate 100000 CR) \<longrightarrow>
      1024 \<le> bm_remaining grow_buf b"
    by auto
  from fill_buf_takes_all [OF std_cursor.steady_source_axioms growing.bytes_buf_axioms _ this,
      of "cursor_new (replicate 100000 CR)" sample_tune]
  show ?thesis
    by (auto simp: cursor_new_def)
qed

end
