(* ===== verification/Http.thy ===== *)
theory Http
  imports BI_Prelude Errors "HOL-Library.Multiset"
begin

text \<open>
  The interface of the crates \<^emph>\<open>http\<close>, \<^emph>\<open>httparse\<close> and \<^emph>\<open>mime\<close>, which are not part of
  the repository: a record of the operations that the source calls, passed as an argument \<open>H\<close>,
  and the locale \<open>http_headers\<close> with what their documentation states.

  A \<^verbatim>\<open>HeaderName\<close> and a \<^verbatim>\<open>HeaderValue\<close> are represented by their bytes; a
  \<^verbatim>\<open>HeaderMap\<close> is a value of the type \<open>'h\<close>. \<open>assoc_http\<close> is a concrete instance, with
  association lists as header maps and a parser for header blocks.
\<close>

section \<open>The interface\<close>

datatype ht_status = HtComplete nat "(bytes \<times> bytes) list" | HtPartial | HtError flaw

record 'h http =
  hm_new :: 'h
  hm_append :: "'h \<Rightarrow> bytes \<Rightarrow> bytes \<Rightarrow> 'h"
  hm_iter :: "'h \<Rightarrow> (bytes \<times> bytes) list"
  hm_get :: "'h \<Rightarrow> bytes \<Rightarrow> bytes option"
  ht_parse :: "nat \<Rightarrow> bytes \<Rightarrow> ht_status"
  ht_too_many :: flaw
  hn_parse :: "bytes \<Rightarrow> flaw + bytes"
  hv_from_bytes :: "bytes \<Rightarrow> flaw + bytes"
  hv_to_str :: "bytes \<Rightarrow> bytes option"
  mime_parse :: "bytes \<Rightarrow> (bytes \<times> bytes) option"

text \<open>The values of a name, in the order of the map.\<close>

definition values_of :: "(bytes \<times> bytes) list \<Rightarrow> bytes \<Rightarrow> bytes list" where
  "values_of kvs n = map snd (filter (\<lambda>kv. fst kv = n) kvs)"

text \<open>The lines of a header block, and the block with the empty line that ends it.\<close>

definition header_lines :: "(bytes \<times> bytes) list \<Rightarrow> bytes" where
  "header_lines kvs = concat (map (\<lambda>(k, v). k @ '': '' @ v @ [CR, LF]) kvs)"

text \<open>A value whose first and last byte are not blank, so that no parser trims it.\<close>

definition blank :: "byte \<Rightarrow> bool" where
  "blank c \<longleftrightarrow> c = CHR '' '' \<or> c = CHR 0x09"

definition untrimmed :: "bytes \<Rightarrow> bool" where
  "untrimmed v \<longleftrightarrow> v = [] \<or> \<not> blank (hd v) \<and> \<not> blank (last v)"

definition same_headers :: "'h http \<Rightarrow> 'h \<Rightarrow> 'h \<Rightarrow> bool" where
  "same_headers H h h' \<longleftrightarrow> (\<forall>n. values_of (hm_iter H h) n = values_of (hm_iter H h') n)"

lemma values_of_simps [simp]:
  "values_of [] n = []"
  "values_of ((k, v) # kvs) n = (if k = n then v # values_of kvs n else values_of kvs n)"
  "values_of (xs @ ys) n = values_of xs n @ values_of ys n"
  by (simp_all add: values_of_def)

lemma header_lines_simps [simp]:
  "header_lines [] = []"
  "header_lines ((k, v) # kvs) = k @ '': '' @ v @ [CR, LF] @ header_lines kvs"
  by (simp_all add: header_lines_def)

lemma header_lines_eq_Nil [simp]: "header_lines kvs = [] \<longleftrightarrow> kvs = []"
  by (cases kvs) auto

lemma length_header_lines: "kvs \<noteq> [] \<Longrightarrow> 4 \<le> length (header_lines kvs)"
  by (cases kvs) auto

text \<open>Maps with the same values have the same fields, in some order.\<close>

lemma count_values_of: "count (mset kvs) (k, v) = count (mset (values_of kvs k)) v"
  by (induction kvs) (auto split: if_splits)

lemma same_headers_mset:
  assumes "same_headers H h' h"
  shows "mset (hm_iter H h') = mset (hm_iter H h)"
proof (rule multiset_eqI)
  fix kv :: "bytes \<times> bytes"
  obtain k v where "kv = (k, v)" by (rule prod.exhaust)
  then show "count (mset (hm_iter H h')) kv = count (mset (hm_iter H h)) kv"
    using assms by (simp add: count_values_of same_headers_def)
qed

lemma length_header_lines_mset:
  "length (header_lines kvs) = sum_mset (image_mset (\<lambda>(k, v). length k + length v + 4) (mset kvs))"
  by (induction kvs) auto

lemma same_headers_lines:
  assumes "same_headers H h' h"
  shows "length (header_lines (hm_iter H h')) = length (header_lines (hm_iter H h)) \<and>
     set (hm_iter H h') = set (hm_iter H h) \<and> length (hm_iter H h') = length (hm_iter H h)"
proof (intro conjI)
  note m = same_headers_mset [OF assms]
  show "length (header_lines (hm_iter H h')) = length (header_lines (hm_iter H h))"
    unfolding length_header_lines_mset m ..
  show "set (hm_iter H h') = set (hm_iter H h)" by (rule mset_eq_setD [OF m])
  show "length (hm_iter H h') = length (hm_iter H h)" by (rule mset_eq_length [OF m])
qed

locale http_headers =
  fixes H :: "'h http"
  assumes new_iter [simp]: "hm_iter H (hm_new H) = []"
    and append_values: "hn_parse H k = Inr k \<Longrightarrow> hv_from_bytes H v = Inr v \<Longrightarrow>
      values_of (hm_iter H (hm_append H h k v)) n =
        values_of (hm_iter H h) n @ (if k = n then [v] else [])"
    and name_stable: "hn_parse H s = Inr k \<Longrightarrow> hn_parse H k = Inr k"
    and value_stable: "hv_from_bytes H s = Inr v \<Longrightarrow> hv_from_bytes H v = Inr v"
    and get_values: "hm_get H h n =
      (case values_of (hm_iter H h) n of [] \<Rightarrow> None | v # vs \<Rightarrow> Some v)"
    and iter_valid: "(k, v) \<in> set (hm_iter H h) \<Longrightarrow>
      hn_parse H k = Inr k \<and> hv_from_bytes H v = Inr v"
    and parse_block: "length kvs \<le> m \<Longrightarrow>
      (\<And>k v. (k, v) \<in> set kvs \<Longrightarrow> hn_parse H k = Inr k \<and> hv_from_bytes H v = Inr v \<and> untrimmed v) \<Longrightarrow>
      ht_parse H m (header_lines kvs @ [CR, LF]) =
        HtComplete (length (header_lines kvs) + 2) kvs"

section \<open>An instance with association lists\<close>

definition name_char :: "byte \<Rightarrow> bool" where
  "name_char c \<longleftrightarrow> c \<in> set ''abcdefghijklmnopqrstuvwxyz0123456789-''"

definition value_char :: "byte \<Rightarrow> bool" where
  "value_char c \<longleftrightarrow> c \<noteq> CR \<and> c \<noteq> LF \<and> c \<noteq> CHR 0x00 \<and> c \<noteq> CHR 0x7F"

definition assoc_name :: "bytes \<Rightarrow> flaw + bytes" where
  "assoc_name n = (if n \<noteq> [] \<and> list_all name_char n then Inr n else Inl (Flaw ''name''))"

definition assoc_value :: "bytes \<Rightarrow> flaw + bytes" where
  "assoc_value v = (if list_all value_char v then Inr v else Inl (Flaw ''value''))"

text \<open>The text up to the first CR, and what follows the CRLF.\<close>

definition split_line :: "bytes \<Rightarrow> (bytes \<times> bytes) option" where
  "split_line bs =
     (case dropWhile (\<lambda>c. c \<noteq> CR) bs of
        c # d # r \<Rightarrow> (if d = LF then Some (takeWhile (\<lambda>c. c \<noteq> CR) bs, r) else None)
      | _ \<Rightarrow> None)"

definition split_field :: "bytes \<Rightarrow> bytes \<times> bytes" where
  "split_field l =
     (takeWhile (\<lambda>c. c \<noteq> CHR '':'') l, dropWhile blank (drop 1 (dropWhile (\<lambda>c. c \<noteq> CHR '':'') l)))"

fun assoc_lines :: "nat \<Rightarrow> bytes \<Rightarrow> ((bytes \<times> bytes) list \<times> bytes) option" where
  "assoc_lines 0 bs =
     (case split_line bs of Some ([], r) \<Rightarrow> Some ([], r) | _ \<Rightarrow> None)"
| "assoc_lines (Suc m) bs =
     (case split_line bs of
        None \<Rightarrow> None
      | Some (l, r) \<Rightarrow>
          (if l = [] then Some ([], r)
           else map_option (\<lambda>(kvs, r). (split_field l # kvs, r)) (assoc_lines m r)))"

definition assoc_parse :: "nat \<Rightarrow> bytes \<Rightarrow> ht_status" where
  "assoc_parse m bs =
     (case assoc_lines m bs of
        None \<Rightarrow> HtError (Flaw ''block'')
      | Some (kvs, r) \<Rightarrow> HtComplete (length bs - length r) kvs)"

definition assoc_str :: "bytes \<Rightarrow> bytes option" where
  "assoc_str v =
     (if list_all (\<lambda>c. 32 \<le> (of_char c :: nat) \<and> of_char c < (127 :: nat) \<or> c = CHR 0x09) v
      then Some v else None)"

definition assoc_mime :: "bytes \<Rightarrow> (bytes \<times> bytes) option" where
  "assoc_mime s =
     (let t = takeWhile (\<lambda>c. c \<noteq> CHR ''/'') s;
          r = drop 1 (dropWhile (\<lambda>c. c \<noteq> CHR ''/'') s)
      in if t = [] \<or> r = [] then None else Some (t, takeWhile (\<lambda>c. c \<noteq> CHR '';'' \<and> c \<noteq> CHR ''+'') r))"

typedef assoc_map = "{kvs :: (bytes \<times> bytes) list.
    \<forall>(k, v) \<in> set kvs. assoc_name k = Inr k \<and> assoc_value v = Inr v}"
  by (rule exI [of _ "[]"]) simp

setup_lifting type_definition_assoc_map

lift_definition assoc_iter :: "assoc_map \<Rightarrow> (bytes \<times> bytes) list" is "\<lambda>kvs. kvs" .

lift_definition assoc_empty :: assoc_map is "[]" by simp

text \<open>A name or value that is not valid does not exist as a value of its type in Rust.\<close>

lift_definition assoc_append :: "assoc_map \<Rightarrow> bytes \<Rightarrow> bytes \<Rightarrow> assoc_map" is
  "\<lambda>kvs k v. if assoc_name k = Inr k \<and> assoc_value v = Inr v then kvs @ [(k, v)] else kvs"
  by (auto split: if_splits)

definition assoc_http :: "assoc_map http" where
  "assoc_http =
     \<lparr>hm_new = assoc_empty,
      hm_append = assoc_append,
      hm_iter = assoc_iter,
      hm_get = (\<lambda>h n. case values_of (assoc_iter h) n of [] \<Rightarrow> None | v # vs \<Rightarrow> Some v),
      ht_parse = assoc_parse,
      ht_too_many = Flaw ''too many headers'',
      hn_parse = assoc_name,
      hv_from_bytes = assoc_value,
      hv_to_str = assoc_str,
      mime_parse = assoc_mime\<rparr>"

lemma assoc_http_sel [simp]:
  "hm_new assoc_http = assoc_empty" "hm_append assoc_http = assoc_append"
  "hm_iter assoc_http = assoc_iter" "ht_parse assoc_http = assoc_parse"
  "hm_get assoc_http h n =
     (case values_of (assoc_iter h) n of [] \<Rightarrow> None | v # vs \<Rightarrow> Some v)"
  "ht_too_many assoc_http = Flaw ''too many headers''"
  "hn_parse assoc_http = assoc_name" "hv_from_bytes assoc_http = assoc_value"
  "hv_to_str assoc_http = assoc_str" "mime_parse assoc_http = assoc_mime"
  by (simp_all add: assoc_http_def)

lemma assoc_iter_simps [simp]:
  "assoc_iter assoc_empty = []"
  "assoc_iter (assoc_append h k v) =
     (if assoc_name k = Inr k \<and> assoc_value v = Inr v then assoc_iter h @ [(k, v)]
      else assoc_iter h)"
  by (transfer, simp)+

lemma name_char_excludes: "name_char c \<Longrightarrow> c \<noteq> CR \<and> c \<noteq> CHR '':'' \<and> \<not> blank c"
  by (auto simp: name_char_def blank_def)

lemma assoc_name_Inr: "assoc_name n = Inr k \<longleftrightarrow> k = n \<and> n \<noteq> [] \<and> list_all name_char n"
  by (auto simp: assoc_name_def)

lemma assoc_value_Inr: "assoc_value n = Inr v \<longleftrightarrow> v = n \<and> list_all value_char n"
  by (auto simp: assoc_value_def)

lemma split_line_ok:
  assumes "\<forall>c \<in> set l. c \<noteq> CR"
  shows "split_line (l @ CR # LF # r) = Some (l, r)"
  using assms by (simp add: split_line_def takeWhile_append2 dropWhile_append2)

lemma split_field_ok:
  assumes "list_all name_char k" and "untrimmed v"
  shows "split_field (k @ CHR '':'' # CHR '' '' # v) = (k, v)"
proof -
  have "\<forall>c \<in> set k. c \<noteq> CHR '':''"
    using assms(1) name_char_excludes by (auto simp: list_all_iff)
  moreover have "dropWhile blank v = v"
    using assms(2) by (cases v) (auto simp: untrimmed_def)
  ultimately show ?thesis
    by (simp add: split_field_def takeWhile_append2 dropWhile_append2 blank_def [of "CHR '' ''"])
qed

lemma assoc_lines_block:
  "length kvs \<le> m \<Longrightarrow>
   (\<And>k v. (k, v) \<in> set kvs \<Longrightarrow> assoc_name k = Inr k \<and> assoc_value v = Inr v \<and> untrimmed v) \<Longrightarrow>
     assoc_lines m (header_lines kvs @ [CR, LF]) = Some (kvs, [])"
proof (induction kvs arbitrary: m)
  case Nil
  then show ?case using split_line_ok [of "[]" "[]"] by (cases m) simp_all
next
  case (Cons kv kvs)
  obtain k v where kv: "kv = (k, v)" by (rule prod.exhaust)
  obtain m' where m: "m = Suc m'" using Cons.prems(1) by (cases m) auto
  have ok: "k \<noteq> []" "list_all name_char k" "list_all value_char v" "untrimmed v"
    using Cons.prems(2) [of k v] kv by (auto simp: assoc_name_Inr assoc_value_Inr)
  let ?l = "k @ CHR '':'' # CHR '' '' # v" and ?r = "header_lines kvs @ [CR, LF]"
  have "\<forall>c \<in> set ?l. c \<noteq> CR"
    using ok name_char_excludes by (auto simp: list_all_iff value_char_def)
  then have "split_line (?l @ CR # LF # ?r) = Some (?l, ?r)" by (rule split_line_ok)
  moreover have "assoc_lines m' ?r = Some (kvs, [])"
    using Cons.prems m by (intro Cons.IH) auto
  ultimately show ?case
    using ok split_field_ok [OF ok(2,4)] by (simp add: kv m)
qed

interpretation assoc: http_headers assoc_http
proof
  fix k v h
  assume "(k, v) \<in> set (hm_iter assoc_http h)"
  then show "hn_parse assoc_http k = Inr k \<and> hv_from_bytes assoc_http v = Inr v"
    by simp (transfer, auto)
next
  fix kvs m
  assume "length kvs \<le> m" and "\<And>k v. (k, v) \<in> set kvs \<Longrightarrow>
    hn_parse assoc_http k = Inr k \<and> hv_from_bytes assoc_http v = Inr v \<and> untrimmed v"
  then show "ht_parse assoc_http m (header_lines kvs @ [CR, LF]) =
      HtComplete (length (header_lines kvs) + 2) kvs"
    using assoc_lines_block [of kvs m] by (simp add: assoc_parse_def)
qed (auto simp: assoc_name_Inr assoc_value_Inr)

end
