(* ===== verification/Barc_Head.thy ===== *)
theory Barc_Head
  imports Errors
begin

unbundle bit_operations_syntax

text \<open>
  The record head of the BARC format (\<^verbatim>\<open>barc/src/lib.rs\<close>): the constants, the record type and compression flags, the
  formatting and parsing of the 54-byte head, and the routines that write and read it.

  The lemmas show that a head within the format's bounds is written as exactly 54 bytes and is
  read back as the same head however the source splits its reads, and what each malformed head
  is reported as.
\<close>

section \<open>Constants and flags\<close>

definition V2_HEAD_SIZE :: nat where "V2_HEAD_SIZE = 54"
definition V2_MAX_RECORD :: nat where "V2_MAX_RECORD = 0xffffffffffff"
definition V2_MAX_HBLOCK :: nat where "V2_MAX_HBLOCK = 0xfffff"
definition V2_MAX_REQ_BODY :: nat where "V2_MAX_REQ_BODY = 0xffffffffff"

lemmas v2_defs = V2_HEAD_SIZE_def V2_MAX_RECORD_def V2_MAX_HBLOCK_def V2_MAX_REQ_BODY_def

definition CRLF :: bytes where "CRLF = [CR, LF]"

datatype record_type = Reserved | DialogRecord

fun record_type_flag :: "record_type \<Rightarrow> byte" where
  "record_type_flag Reserved = CHR ''R''"
| "record_type_flag DialogRecord = CHR ''D''"

definition record_type_from_byte :: "byte \<Rightarrow> (barc_error, record_type) result" where
  "record_type_from_byte f =
     (if f = CHR ''R'' then Ok Reserved
      else if f = CHR ''D'' then Ok DialogRecord
      else Err (UnknownRecordType f))"

fun compression_flag :: "compression \<Rightarrow> byte" where
  "compression_flag Plain = CHR ''P''"
| "compression_flag Gzip = CHR ''Z''"
| "compression_flag Brotli = CHR ''B''"

definition compression_from_byte :: "byte \<Rightarrow> (barc_error, compression) result" where
  "compression_from_byte f =
     (if f = CHR ''P'' then Ok Plain
      else if f = CHR ''Z'' then Ok Gzip
      else if f = CHR ''B'' then Ok Brotli
      else Err (UnknownCompression f))"

lemma record_type_flag_from_byte [simp]:
  "record_type_from_byte (record_type_flag t) = Ok t"
  by (cases t) (simp_all add: record_type_from_byte_def)

lemma compression_flag_from_byte [simp]:
  "compression_from_byte (compression_flag c) = Ok c"
  by (cases c) (simp_all add: compression_from_byte_def)

lemma record_type_from_byte_Inr:
  "record_type_from_byte f = Inr t \<Longrightarrow> f = record_type_flag t"
  by (auto simp: record_type_from_byte_def split: if_splits)

lemma compression_from_byte_Inr:
  "compression_from_byte f = Inr c \<Longrightarrow> f = compression_flag c"
  by (auto simp: compression_from_byte_def split: if_splits)

record record_head =
  h_len :: nat
  h_rec_type :: record_type
  h_compress :: compression
  h_meta :: nat
  h_req_h :: nat
  h_req_b :: nat
  h_res_h :: nat

definition V2_RESERVE_HEAD :: record_head where
  "V2_RESERVE_HEAD = \<lparr>h_len = 0, h_rec_type = Reserved, h_compress = Plain,
     h_meta = 0, h_req_h = 0, h_req_b = 0, h_res_h = 0\<rparr>"

section \<open>Hexadecimal fields\<close>

text \<open>
  \<^verbatim>\<open>{:x}\<close> and \<^verbatim>\<open>{:0wx}\<close> of \<^verbatim>\<open>format!\<close>: lower-case digits, zero padded to a minimum
  width.
\<close>

definition hex_digit :: "nat \<Rightarrow> byte" where
  "hex_digit d = (if d < 10 then char_of (48 + d) else char_of (87 + d))"

fun hex_digits :: "nat \<Rightarrow> bytes" where
  "hex_digits n = (if n < 16 then [hex_digit n] else hex_digits (n div 16) @ [hex_digit (n mod 16)])"

declare hex_digits.simps [simp del]

definition fmt_hex :: "nat \<Rightarrow> nat \<Rightarrow> bytes" where
  "fmt_hex w n = replicate (w - length (hex_digits n)) (CHR ''0'') @ hex_digits n"

text \<open>
  \<^verbatim>\<open>parse_hex::<T>\<close> with \<^verbatim>\<open>T\<close> a 64-bit type, \<^verbatim>\<open>u64\<close> or \<^verbatim>\<open>usize\<close>: the accumulator is
  shifted left by a nibble, which drops its high bits, and the digit is added.
\<close>

fun parse_hex_from :: "64 word \<Rightarrow> bytes \<Rightarrow> (barc_error, 64 word) result" where
  "parse_hex_from v [] = Ok v"
| "parse_hex_from v (d # ds) =
     (let v' = push_bit 4 v; b = (of_char d :: nat)
      in if 48 \<le> b \<and> b \<le> 57 then parse_hex_from (v' + word_of_nat (b - 48)) ds
         else if 97 \<le> b \<and> b \<le> 102 then parse_hex_from (v' + word_of_nat (10 + (b - 97))) ds
         else Err (ReadInvalidRecHeadHex d))"

definition parse_hex :: "bytes \<Rightarrow> (barc_error, nat) result" where
  "parse_hex buf = bindR (parse_hex_from 0 buf) (\<lambda>v. Ok (unat v))"

text \<open>The value of a digit, and of a string of them, as the specification of the two.\<close>

definition hex_value :: "byte \<Rightarrow> nat option" where
  "hex_value d =
     (let b = (of_char d :: nat)
      in if 48 \<le> b \<and> b \<le> 57 then Some (b - 48)
         else if 97 \<le> b \<and> b \<le> 102 then Some (b - 87)
         else None)"

fun hex_number :: "nat \<Rightarrow> bytes \<Rightarrow> nat option" where
  "hex_number v [] = Some v"
| "hex_number v (d # ds) =
     (case hex_value d of None \<Rightarrow> None | Some x \<Rightarrow> hex_number (16 * v + x) ds)"

lemma hex_value_less: "hex_value d = Some x \<Longrightarrow> x < 16"
  by (auto simp: hex_value_def Let_def split: if_splits)

lemma parse_hex_from_Cons:
  "parse_hex_from v (d # ds) =
     (case hex_value d of None \<Rightarrow> Err (ReadInvalidRecHeadHex d)
      | Some x \<Rightarrow> parse_hex_from (push_bit 4 v + word_of_nat x) ds)"
  by (simp add: hex_value_def Let_def)

lemma unat_shift_add:
  fixes v :: "64 word"
  assumes "unat v < 2 ^ k" and "k + 4 \<le> 64" and "x < 16"
  shows "unat (push_bit 4 v + word_of_nat x) = 16 * unat v + x"
proof -
  have "unat v * 16 + x < 2 ^ (k + 4)"
    using assms(1,3) by (simp add: power_add)
  also have "\<dots> \<le> (2 :: nat) ^ 64"
    using assms(2) by (intro power_increasing) auto
  finally have lt: "16 * unat v + x < 2 ^ 64" by simp
  have "push_bit 4 v + word_of_nat x = word_of_nat (16 * unat v + x)"
    by (simp add: push_bit_eq_mult mult.commute)
  then show ?thesis
    using lt by (simp only: unat_of_nat) simp
qed

lemma parse_hex_from_ok:
  "unat v < 2 ^ k \<Longrightarrow> k + 4 * length ds \<le> 64 \<Longrightarrow> hex_number (unat v) ds = Some n \<Longrightarrow>
     \<exists>w. parse_hex_from v ds = Ok w \<and> unat w = n"
proof (induction ds arbitrary: v k)
  case Nil
  then show ?case by simp
next
  case (Cons d ds)
  then obtain x where x: "hex_value d = Some x"
    by (auto split: option.splits)
  then have x16: "x < 16" by (rule hex_value_less)
  let ?v = "push_bit 4 v + word_of_nat x :: 64 word"
  have u: "unat ?v = 16 * unat v + x"
    using Cons.prems x16 by (intro unat_shift_add [where k = k]) auto
  have "unat ?v < 2 ^ (k + 4)"
    using Cons.prems(1) x16 by (simp add: u power_add)
  then have "\<exists>w. parse_hex_from ?v ds = Ok w \<and> unat w = n"
    using Cons.prems x u by (intro Cons.IH [where k = "k + 4"]) auto
  with x show ?case by (simp only: parse_hex_from_Cons) simp
qed

lemma parse_hex_ok:
  "length ds \<le> 16 \<Longrightarrow> hex_number 0 ds = Some n \<Longrightarrow> parse_hex ds = Ok n"
  using parse_hex_from_ok [of 0 0 ds n] by (auto simp: parse_hex_def)

lemma parse_hex_from_bad:
  "parse_hex_from v ds = Err (ReadInvalidRecHeadHex d) \<longleftrightarrow>
     find (\<lambda>c. hex_value c = None) ds = Some d"
proof (induction ds arbitrary: v)
  case Nil
  then show ?case by simp
next
  case (Cons c ds)
  then show ?case
    by (simp only: parse_hex_from_Cons) (auto split: option.splits)
qed

lemma hex_number_None: "hex_number v ds = None \<longleftrightarrow> (\<exists>d. find (\<lambda>c. hex_value c = None) ds = Some d)"
  by (induction ds arbitrary: v) (auto split: option.splits)

lemma parse_hex_cases:
  assumes "length ds \<le> 16"
  obtains (ok) n where "hex_number 0 ds = Some n" "parse_hex ds = Ok n"
  | (bad) d where "hex_number 0 ds = None" "find (\<lambda>c. hex_value c = None) ds = Some d"
      "parse_hex ds = Err (ReadInvalidRecHeadHex d)"
proof (cases "hex_number 0 ds")
  case None
  then obtain d where d: "find (\<lambda>c. hex_value c = None) ds = Some d"
    by (auto simp: hex_number_None)
  then have "parse_hex ds = Err (ReadInvalidRecHeadHex d)"
    by (simp add: parse_hex_def parse_hex_from_bad [THEN iffD2])
  then show ?thesis using None d bad by blast
next
  case (Some n)
  then show ?thesis using ok parse_hex_ok [OF assms] by blast
qed

lemma hex_value_hex_digit [simp]: "d < 16 \<Longrightarrow> hex_value (hex_digit d) = Some d"
  by (auto simp: hex_value_def hex_digit_def Let_def)

lemma hex_value_digit_inverse: "hex_value d = Some x \<Longrightarrow> d = hex_digit x"
proof -
  assume h: "hex_value d = Some x"
  have "d = char_of (of_char d :: nat)" by simp
  with h show ?thesis
    by (auto simp: hex_value_def hex_digit_def Let_def split: if_splits)
qed

lemma hex_number_append:
  "hex_number v (xs @ ys) =
     (case hex_number v xs of None \<Rightarrow> None | Some u \<Rightarrow> hex_number u ys)"
  by (induction xs arbitrary: v) (auto split: option.splits)

lemma hex_number_hex_digits:
  "hex_number v (hex_digits n) = Some (v * 16 ^ length (hex_digits n) + n)"
proof (induction n arbitrary: v rule: hex_digits.induct)
  case (1 n)
  show ?case
  proof (cases "n < 16")
    case True
    then show ?thesis by (simp add: hex_digits.simps [of n])
  next
    case False
    have "hex_number v (hex_digits (n div 16)) =
        Some (v * 16 ^ length (hex_digits (n div 16)) + n div 16)"
      by (rule 1) (rule False)
    with False show ?thesis
      by (simp add: hex_digits.simps [of n] hex_number_append algebra_simps)
  qed
qed

lemma hex_number_zeros [simp]: "hex_number 0 (replicate k (CHR ''0'') @ ds) = hex_number 0 ds"
  by (induction k) (simp_all add: hex_value_def)

lemma hex_number_fmt_hex [fmt_simps]: "hex_number 0 (fmt_hex w n) = Some n"
  by (simp add: fmt_hex_def hex_number_hex_digits)

lemma length_hex_digits: "n < 16 ^ w \<Longrightarrow> 0 < w \<Longrightarrow> length (hex_digits n) \<le> w"
proof (induction n arbitrary: w rule: hex_digits.induct)
  case (1 n)
  show ?case
  proof (cases "n < 16")
    case True
    with "1.prems" show ?thesis by (simp add: hex_digits.simps [of n])
  next
    case False
    with "1.prems" obtain u where w: "w = Suc u" "0 < u"
      by (cases w; cases "w - 1") auto
    then have "n div 16 < 16 ^ u"
      using "1.prems"(1) by (simp add: less_mult_imp_div_less mult.commute)
    then have "length (hex_digits (n div 16)) \<le> u"
      using "1.IH" False w(2) by blast
    with False w show ?thesis by (simp add: hex_digits.simps [of n])
  qed
qed

lemma length_fmt_hex: "n < 16 ^ w \<Longrightarrow> 0 < w \<Longrightarrow> length (fmt_hex w n) = w"
  using length_hex_digits [of n w] by (simp add: fmt_hex_def)

lemma hex_number_bound: "hex_number v ds = Some n \<Longrightarrow> n < (v + 1) * 16 ^ length ds"
proof (induction ds arbitrary: v)
  case Nil
  then show ?case by simp
next
  case (Cons d ds)
  then obtain x where x: "hex_value d = Some x" and n: "hex_number (16 * v + x) ds = Some n"
    by (auto split: option.splits)
  have "n < (16 * v + x + 1) * 16 ^ length ds"
    using Cons.IH [OF n] .
  also have "\<dots> \<le> (16 * (v + 1)) * 16 ^ length ds"
    using hex_value_less [OF x] by (intro mult_right_mono) auto
  finally show ?case by (simp add: algebra_simps)
qed

lemma hex_number_snoc:
  "hex_number v (xs @ [x]) = Some n \<longleftrightarrow>
     (\<exists>u a. hex_number v xs = Some u \<and> hex_value x = Some a \<and> n = 16 * u + a)"
  by (auto simp: hex_number_append split: option.splits)

text \<open>A field of fixed width determines its digits: the formatting inverts the parsing.\<close>

lemma hex_number_inj:
  "length xs = length ys \<Longrightarrow> hex_number v xs = Some n \<Longrightarrow> hex_number v ys = Some n \<Longrightarrow> xs = ys"
proof (induction xs arbitrary: ys n rule: rev_induct)
  case Nil
  then show ?case by simp
next
  case (snoc x xs)
  then obtain y ys' where ys: "ys = ys' @ [y]"
    by (cases ys rule: rev_cases) auto
  obtain u a where x: "hex_number v xs = Some u" "hex_value x = Some a" "n = 16 * u + a"
    using snoc.prems(2) hex_number_snoc by blast
  obtain u' a' where y: "hex_number v ys' = Some u'" "hex_value y = Some a'" "n = 16 * u' + a'"
    using snoc.prems(3) ys hex_number_snoc by blast
  have "a < 16" "a' < 16" using x y hex_value_less by blast+
  then have "a = n mod 16" "a' = n mod 16" "u = n div 16" "u' = n div 16"
    by (simp add: x(3), simp add: y(3), simp add: x(3), simp add: y(3))
  then have "a = a'" and "u = u'" by simp_all
  moreover have "xs = ys'"
    using snoc.IH [of ys' u] snoc.prems(1) x(1) y(1) ys \<open>u = u'\<close> by simp
  ultimately show ?case
    using ys hex_value_digit_inverse x(2) y(2) by auto
qed

lemma hex_number_fmt_inverse:
  assumes "hex_number 0 ds = Some n" and "ds \<noteq> []"
  shows "ds = fmt_hex (length ds) n"
proof -
  have "n < 16 ^ length ds" using hex_number_bound [OF assms(1)] by simp
  then have "length (fmt_hex (length ds) n) = length ds"
    using assms(2) by (intro length_fmt_hex) auto
  then show ?thesis
    using hex_number_inj [of ds "fmt_hex (length ds) n" 0 n] assms(1) hex_number_fmt_hex by auto
qed

section \<open>Writing a record head\<close>

text \<open>\<^verbatim>\<open>write_all_len\<close>: \<^verbatim>\<open>write_all\<close>, returning the length of the slice.\<close>

definition write_all_len :: "'w writer \<Rightarrow> 'w \<Rightarrow> bytes \<Rightarrow> (barc_error, nat) result \<times> 'w" where
  "write_all_len wr out bs =
     (case wr out bs of
        (Inr u, out') \<Rightarrow> (Ok (length bs), out')
      | (Inl e, out') \<Rightarrow> (Err (Io e), out'))"

text \<open>The \<^verbatim>\<open>format!\<close> of a head.\<close>

definition head_bytes :: "record_head \<Rightarrow> bytes" where
  "head_bytes h =
     ''BARC2 '' @ fmt_hex 12 (h_len h) @ '' '' @
     [record_type_flag (h_rec_type h), compression_flag (h_compress h)] @ '' '' @
     fmt_hex 5 (h_meta h) @ '' '' @ fmt_hex 5 (h_req_h h) @ '' '' @
     fmt_hex 10 (h_req_b h) @ '' '' @ fmt_hex 5 (h_res_h h) @ CRLF @ CRLF"

definition write_record_head ::
  "'w writer \<Rightarrow> 'w \<Rightarrow> record_head \<Rightarrow> (barc_error, unit) result \<times> 'w" where
  "write_record_head wr out h =
     (if \<not> h_len h \<le> V2_MAX_RECORD then (panic ''len exceeded'', out)
      else if \<not> h_meta h \<le> V2_MAX_HBLOCK then (panic ''meta exceeded'', out)
      else if \<not> h_req_h h \<le> V2_MAX_HBLOCK then (panic ''req_h exceeded'', out)
      else if \<not> h_req_b h \<le> V2_MAX_REQ_BODY then (panic ''req_b exceeded'', out)
      else if \<not> h_res_h h \<le> V2_MAX_HBLOCK then (panic ''res_h exceeded'', out)
      else bindT (write_all_len wr out (head_bytes h)) (\<lambda>size out.
        if size \<noteq> V2_HEAD_SIZE then (panic ''wrong record head size'', out)
        else (Ok (), out)))"

text \<open>The bounds that the writer asserts.\<close>

definition head_in_range :: "record_head \<Rightarrow> bool" where
  "head_in_range h \<longleftrightarrow>
     h_len h \<le> V2_MAX_RECORD \<and> h_meta h \<le> V2_MAX_HBLOCK \<and> h_req_h h \<le> V2_MAX_HBLOCK \<and>
     h_req_b h \<le> V2_MAX_REQ_BODY \<and> h_res_h h \<le> V2_MAX_HBLOCK"

lemma head_in_range_widths:
  assumes "head_in_range h"
  shows "length (fmt_hex 12 (h_len h)) = 12" and "length (fmt_hex 5 (h_meta h)) = 5"
    and "length (fmt_hex 5 (h_req_h h)) = 5" and "length (fmt_hex 10 (h_req_b h)) = 10"
    and "length (fmt_hex 5 (h_res_h h)) = 5"
  using assms by (auto simp: head_in_range_def v2_defs intro!: length_fmt_hex)

lemma length_head_bytes: "head_in_range h \<Longrightarrow> length (head_bytes h) = V2_HEAD_SIZE"
  by (simp add: head_bytes_def head_in_range_widths V2_HEAD_SIZE_def CRLF_def)

lemma write_record_head_in_range:
  "head_in_range h \<Longrightarrow>
     write_record_head wr out h = bindT (write_all_len wr out (head_bytes h)) (\<lambda>_ out. (Ok (), out))"
  using length_head_bytes [of h]
  by (auto simp: write_record_head_def head_in_range_def write_all_len_def
      split: prod.splits sum.splits)

lemma reserve_head_in_range [simp]: "head_in_range V2_RESERVE_HEAD"
  by (simp add: head_in_range_def V2_RESERVE_HEAD_def)

lemma write_record_head_out_of_range:
  "\<not> head_in_range h \<Longrightarrow> \<exists>m. write_record_head wr out h = (panic m, out)"
  by (auto simp: write_record_head_def head_in_range_def)

section \<open>Reading a record head\<close>

text \<open>
  \<^verbatim>\<open>read_record_head_buf\<close>: fills the 54-byte buffer as far as the source goes. \<open>acc\<close> is
  the filled part; each read is given the rest of the buffer.
\<close>

partial_function (option) read_record_head_buf ::
  "'r reader \<Rightarrow> bytes \<Rightarrow> 'r \<Rightarrow> (barc_error, bytes, 'r) outcome" where
  "read_record_head_buf rd acc r =
     (case rd r (V2_HEAD_SIZE - length acc) of
        (Inr bs, r') \<Rightarrow>
          if bs = [] then Some (Ok acc, r')
          else if V2_HEAD_SIZE \<le> length (acc @ bs) then Some (Ok (acc @ bs), r')
          else read_record_head_buf rd (acc @ bs) r'
      | (Inl e, r') \<Rightarrow>
          if e = Interrupted then read_record_head_buf rd acc r'
          else Some (Err (Io e), r'))"

definition subslice :: "nat \<Rightarrow> nat \<Rightarrow> bytes \<Rightarrow> bytes" where
  "subslice i j bs = take (j - i) (drop i bs)"

text \<open>What \<^verbatim>\<open>read_record_head\<close> makes of the \<open>size\<close> bytes in its buffer.\<close>

definition parse_record_head :: "bytes \<Rightarrow> (barc_error, record_head option) result" where
  "parse_record_head buf =
     (if length buf = 0 then Ok None
      else if length buf \<noteq> V2_HEAD_SIZE then Err (ReadIncompleteRecHead (length buf))
      else if subslice 0 6 buf \<noteq> ''BARC2 '' then Err ReadInvalidRecHead
      else
        bindR (parse_hex (subslice 6 18 buf)) (\<lambda>len.
        bindR (record_type_from_byte (buf ! 19)) (\<lambda>rec_type.
        bindR (compression_from_byte (buf ! 20)) (\<lambda>compress.
        bindR (parse_hex (subslice 22 27 buf)) (\<lambda>meta.
        bindR (parse_hex (subslice 28 33 buf)) (\<lambda>req_h.
        bindR (parse_hex (subslice 34 44 buf)) (\<lambda>req_b.
        bindR (parse_hex (subslice 45 50 buf)) (\<lambda>res_h.
        Ok (Some \<lparr>h_len = len, h_rec_type = rec_type, h_compress = compress,
          h_meta = meta, h_req_h = req_h, h_req_b = req_b, h_res_h = res_h\<rparr>)))))))))"

definition read_record_head ::
  "'r reader \<Rightarrow> 'r \<Rightarrow> (barc_error, record_head option, 'r) outcome" where
  "read_record_head rd r =
     bindO (read_record_head_buf rd [] r) (\<lambda>buf r. Some (parse_record_head buf, r))"

lemma parse_hex_fmt_hex [simp]:
  "n < 16 ^ w \<Longrightarrow> 0 < w \<Longrightarrow> w \<le> 16 \<Longrightarrow> parse_hex (fmt_hex w n) = Ok n"
  by (simp add: parse_hex_ok length_fmt_hex hex_number_fmt_hex)

text \<open>The fields of a head stand at the offsets the parser uses.\<close>

lemma head_bytes_slices:
  assumes "head_in_range h"
  shows "subslice 0 6 (head_bytes h) = ''BARC2 ''"
    and "subslice 6 18 (head_bytes h) = fmt_hex 12 (h_len h)"
    and "head_bytes h ! 19 = record_type_flag (h_rec_type h)"
    and "head_bytes h ! 20 = compression_flag (h_compress h)"
    and "subslice 22 27 (head_bytes h) = fmt_hex 5 (h_meta h)"
    and "subslice 28 33 (head_bytes h) = fmt_hex 5 (h_req_h h)"
    and "subslice 34 44 (head_bytes h) = fmt_hex 10 (h_req_b h)"
    and "subslice 45 50 (head_bytes h) = fmt_hex 5 (h_res_h h)"
  by (simp_all add: subslice_def head_bytes_def head_in_range_widths [OF assms] nth_append)

lemma parse_head_bytes:
  assumes "head_in_range h"
  shows "parse_record_head (head_bytes h) = Ok (Some h)"
  using assms head_in_range_widths [OF assms]
  by (simp add: parse_record_head_def length_head_bytes head_bytes_slices V2_HEAD_SIZE_def
      head_in_range_def V2_MAX_RECORD_def V2_MAX_HBLOCK_def V2_MAX_REQ_BODY_def)

context steady_source
begin

text \<open>However the source splits its reads, the buffer receives what comes next.\<close>

lemma read_record_head_buf_fills:
  "length acc < V2_HEAD_SIZE \<Longrightarrow>
     \<exists>r'. read_record_head_buf rd acc r =
            Some (Ok (acc @ take (V2_HEAD_SIZE - length acc) (rest r)), r') \<and>
          advanced r (min (V2_HEAD_SIZE - length acc) (length (rest r))) r'"
proof (induction "patience r + (V2_HEAD_SIZE - length acc)" arbitrary: acc r rule: less_induct)
  case less
  let ?k = "V2_HEAD_SIZE - length acc"
  note unfold = read_record_head_buf.simps [of rd acc r]
  show ?case
  proof (cases rule: read_cases [of r ?k])
    case (interrupted r')
    then have "patience r' + ?k < patience r + ?k" by simp
    then obtain r'' where "read_record_head_buf rd acc r' = Some (Ok (acc @ take ?k (rest r)), r'')"
      "advanced r' (min ?k (length (rest r))) r''"
      using less.hyps [of r' acc] less.prems interrupted(4) by auto
    then show ?thesis
      using interrupted advanced_trans [of r 0 r'] by (auto simp: unfold)
  next
    case (eof r')
    then show ?thesis using less.prems by (auto simp: unfold)
  next
    case (some b bs r')
    let ?acc = "acc @ b # bs"
    show ?thesis
    proof (cases "V2_HEAD_SIZE \<le> length ?acc")
      case True
      then have "?k = length (b # bs)" using some(3) by simp
      then show ?thesis using some True by (auto simp: unfold)
    next
      case False
      have "patience r' + (V2_HEAD_SIZE - length ?acc) < patience r + ?k"
        using advancedD(3) [OF some(2)] less.prems by simp
      then obtain r'' where
        "read_record_head_buf rd ?acc r' =
           Some (Ok (?acc @ take (V2_HEAD_SIZE - length ?acc) (rest r')), r'')"
        "advanced r' (min (V2_HEAD_SIZE - length ?acc) (length (rest r'))) r''"
        using less.hyps [of r' ?acc] False by auto
      moreover have "take ?k (rest r) = (b # bs) @ take (V2_HEAD_SIZE - length ?acc) (rest r')"
        using some(4) False by (simp add: take_Cons')
      moreover have "min ?k (length (rest r)) =
          length (b # bs) + min (V2_HEAD_SIZE - length ?acc) (length (rest r'))"
        using some(4) False by simp
      ultimately show ?thesis
        using some False advanced_trans [OF some(2), of _ r''] by (simp add: unfold)
    qed
  qed
qed

lemma read_record_head_eq:
  "\<exists>r'. read_record_head rd r = Some (parse_record_head (take V2_HEAD_SIZE (rest r)), r') \<and>
        advanced r (min V2_HEAD_SIZE (length (rest r))) r'"
  using read_record_head_buf_fills [of "[]" r]
  by (auto simp: read_record_head_def V2_HEAD_SIZE_def)

lemma read_record_head_some:
  assumes "rest r = head_bytes h @ tail" and "head_in_range h"
  obtains r' where "read_record_head rd r = Some (Ok (Some h), r')" "advanced r V2_HEAD_SIZE r'"
  using read_record_head_eq [of r] assms by (auto simp: length_head_bytes parse_head_bytes)

lemma head_any_split:
  "\<exists>r'. read_record_head rd r =
      Some (parse_record_head (take V2_HEAD_SIZE (drop (off r) (stream r))), r') \<and>
    stream r' = stream r \<and>
    off r' = off r + min V2_HEAD_SIZE (length (stream r) - off r)"
  using read_record_head_eq [of r] by (auto simp: rest_def advanced_def)

lemma head_read_back:
  assumes "drop (off r) (stream r) = head_bytes h @ tail" and "head_in_range h"
  shows "\<exists>r'. read_record_head rd r = Some (Ok (Some h), r') \<and>
    stream r' = stream r \<and> off r' = off r + V2_HEAD_SIZE"
  using read_record_head_some [of r h tail] assms by (auto simp: rest_def advanced_def)

end

section \<open>Properties of the record head\<close>

lemma subslice_nth: "i < j - a \<Longrightarrow> j \<le> length xs \<Longrightarrow> subslice a j xs ! i = xs ! (a + i)"
  by (simp add: subslice_def)

lemma length_subslice [simp]: "j \<le> length xs \<Longrightarrow> length (subslice i j xs) = j - i"
  by (simp add: subslice_def)

lemma subslice_eq_iff:
  assumes "j \<le> length xs" and "j \<le> length ys"
  shows "subslice a j xs = subslice a j ys \<longleftrightarrow> (\<forall>i. a \<le> i \<and> i < j \<longrightarrow> xs ! i = ys ! i)"
proof -
  have "subslice a j xs = subslice a j ys \<longleftrightarrow> (\<forall>k < j - a. xs ! (a + k) = ys ! (a + k))"
    using assms by (auto simp: list_eq_iff_nth_eq subslice_nth)
  also have "\<dots> \<longleftrightarrow> (\<forall>i. a \<le> i \<and> i < j \<longrightarrow> xs ! i = ys ! i)"
    by (metis add_diff_inverse_nat le_add1 less_diff_conv add.commute not_le)
  finally show ?thesis .
qed

text \<open>The bytes of a head that the parser never looks at: the separators and the terminator.\<close>

definition ignored_positions :: "nat list" where
  "ignored_positions = [18, 21, 27, 33, 44, 50, 51, 52, 53]"

lemma parse_hex_subslice_iff:
  assumes "j \<le> length buf" and "i < j" and "j - i \<le> 16"
  shows "parse_hex (subslice i j buf) = Ok n \<longleftrightarrow>
     subslice i j buf = fmt_hex (j - i) n \<and> n < 16 ^ (j - i)"
proof
  have len: "length (subslice i j buf) = j - i" using assms by simp
  assume ok: "parse_hex (subslice i j buf) = Ok n"
  have "length (subslice i j buf) \<le> 16" using len assms by simp
  then have "hex_number 0 (subslice i j buf) = Some n"
    by (cases rule: parse_hex_cases) (use ok in auto)
  then show "subslice i j buf = fmt_hex (j - i) n \<and> n < 16 ^ (j - i)"
    using hex_number_fmt_inverse [of "subslice i j buf" n] hex_number_bound [of 0 _ n] len assms
    by (metis (no_types, lifting) add_0 length_0_conv mult_1 not_less_iff_gr_or_eq zero_less_diff)
next
  assume "subslice i j buf = fmt_hex (j - i) n \<and> n < 16 ^ (j - i)"
  then show "parse_hex (subslice i j buf) = Ok n" using assms by simp
qed

text \<open>
  A head that is being overwritten: the first \<open>n\<close> bytes of a new head over the reserved one.
\<close>

definition torn_head :: "nat \<Rightarrow> record_head \<Rightarrow> bytes" where
  "torn_head n h = take n (head_bytes h) @ drop n (head_bytes V2_RESERVE_HEAD)"

lemma parse_hex_digits:
  assumes "\<forall>c \<in> set ds. hex_value c \<noteq> None" and "length ds \<le> 16"
  obtains n where "parse_hex ds = Ok n"
  using assms(2)
proof (cases rule: parse_hex_cases)
  case (bad d)
  then obtain i where "i < length ds" "hex_value (ds ! i) = None"
    by (auto simp: find_Some_iff)
  then show ?thesis using assms(1) nth_mem by blast
qed (use that in blast)

lemma hex_number_digits: "hex_number v ds = Some n \<Longrightarrow> c \<in> set ds \<Longrightarrow> hex_value c \<noteq> None"
  by (induction ds arbitrary: v) (auto split: option.splits)

lemma fmt_hex_digits: "c \<in> set (fmt_hex w n) \<Longrightarrow> hex_value c \<noteq> None"
  by (rule hex_number_digits [OF hex_number_fmt_hex])

lemma length_torn_head:
  "head_in_range h \<Longrightarrow> n \<le> V2_HEAD_SIZE \<Longrightarrow> length (torn_head n h) = V2_HEAD_SIZE"
  by (simp add: torn_head_def length_head_bytes)

lemma nth_torn_head:
  assumes "head_in_range h" and "n \<le> V2_HEAD_SIZE" and "i < V2_HEAD_SIZE"
  shows "torn_head n h ! i = (if i < n then head_bytes h else head_bytes V2_RESERVE_HEAD) ! i"
  using assms by (simp add: torn_head_def nth_append length_head_bytes)

lemma subslice_torn_head:
  assumes "head_in_range h" and "n \<le> V2_HEAD_SIZE" and "j \<le> V2_HEAD_SIZE"
  shows "j \<le> n \<Longrightarrow> subslice i j (torn_head n h) = subslice i j (head_bytes h)"
    and "n \<le> i \<Longrightarrow> subslice i j (torn_head n h) = subslice i j (head_bytes V2_RESERVE_HEAD)"
  using assms
  by (simp_all add: subslice_eq_iff length_torn_head length_head_bytes nth_torn_head)

lemma set_subslice: "set (subslice i j xs) \<subseteq> {xs ! k | k. i \<le> k \<and> k < j \<and> k < length xs}"
  by (auto simp: subslice_def in_set_conv_nth) (metis add.commute le_add1 less_diff_conv)

text \<open>As long as the record type is not overwritten the head is still a reserved one.\<close>

lemma torn_head_reserved:
  assumes h: "head_in_range h" and n: "n \<le> 19"
  obtains h' where "parse_record_head (torn_head n h) = Ok (Some h')" "h_rec_type h' = Reserved"
proof -
  let ?R = "V2_RESERVE_HEAD"
  have n54: "n \<le> V2_HEAD_SIZE" using n by (simp add: V2_HEAD_SIZE_def)
  note sub = subslice_torn_head [OF h n54] and nth = nth_torn_head [OF h n54]
  note R = head_bytes_slices [OF reserve_head_in_range] and H = head_bytes_slices [OF h]
  have len: "length (torn_head n h) = V2_HEAD_SIZE" by (rule length_torn_head [OF h n54])
  have magic: "subslice 0 6 (torn_head n h) = ''BARC2 ''"
  proof -
    have "subslice 0 6 (head_bytes h) = subslice 0 6 (head_bytes ?R)" by (simp add: R H)
    then have "\<forall>i. i < 6 \<longrightarrow> head_bytes h ! i = head_bytes ?R ! i"
      by (subst (asm) subslice_eq_iff) (simp_all add: length_head_bytes h V2_HEAD_SIZE_def)
    then have "subslice 0 6 (torn_head n h) = subslice 0 6 (head_bytes ?R)"
      by (subst subslice_eq_iff)
        (simp_all add: len length_head_bytes V2_HEAD_SIZE_def nth [unfolded V2_HEAD_SIZE_def])
    then show ?thesis by (simp add: R)
  qed
  have "\<forall>c \<in> set (subslice 6 18 (torn_head n h)). hex_value c \<noteq> None"
  proof
    fix c assume "c \<in> set (subslice 6 18 (torn_head n h))"
    then obtain k where k: "6 \<le> k" "k < 18" "c = torn_head n h ! k"
      using set_subslice by blast
    have dig: "head_bytes g ! k \<in> set (fmt_hex 12 (h_len g))" if "head_in_range g" for g
    proof -
      have "subslice 6 18 (head_bytes g) ! (k - 6) = head_bytes g ! k"
        using k(1,2) that by (subst subslice_nth) (simp_all add: length_head_bytes V2_HEAD_SIZE_def)
      moreover have "subslice 6 18 (head_bytes g) ! (k - 6) \<in> set (subslice 6 18 (head_bytes g))"
        using k(1,2) that by (intro nth_mem) (simp add: length_head_bytes V2_HEAD_SIZE_def)
      ultimately show ?thesis by (simp add: head_bytes_slices(2) [OF that])
    qed
    have "c \<in> set (fmt_hex 12 (h_len h)) \<union> set (fmt_hex 12 (h_len ?R))"
      using k nth [of k] dig [OF h] dig [OF reserve_head_in_range] by (auto simp: V2_HEAD_SIZE_def)
    then show "hex_value c \<noteq> None" using fmt_hex_digits by blast
  qed
  then obtain l where l: "parse_hex (subslice 6 18 (torn_head n h)) = Ok l"
    by (rule parse_hex_digits) (simp add: len V2_HEAD_SIZE_def)
  have flags: "torn_head n h ! 19 = record_type_flag Reserved"
    "torn_head n h ! 20 = compression_flag Plain"
    using n nth [of 19] nth [of 20] R(3,4) by (simp_all add: V2_HEAD_SIZE_def V2_RESERVE_HEAD_def)
  have zeros: "h_meta ?R = 0" "h_req_h ?R = 0" "h_req_b ?R = 0" "h_res_h ?R = 0"
    by (simp_all add: V2_RESERVE_HEAD_def)
  have "n \<le> 22" "n \<le> 28" "n \<le> 34" "n \<le> 45" using n by simp_all
  then have fields: "subslice 22 27 (torn_head n h) = fmt_hex 5 0"
    "subslice 28 33 (torn_head n h) = fmt_hex 5 0"
    "subslice 34 44 (torn_head n h) = fmt_hex 10 0"
    "subslice 45 50 (torn_head n h) = fmt_hex 5 0"
    using sub(2) R zeros by (simp_all add: V2_HEAD_SIZE_def)
  have "parse_record_head (torn_head n h) = Ok (Some (?R\<lparr>h_len := l\<rparr>))"
    using len magic l flags fields
    by (simp add: parse_record_head_def V2_HEAD_SIZE_def)
      (simp add: V2_RESERVE_HEAD_def record_type_from_byte_def compression_from_byte_def)
  then show ?thesis
    using that by (simp add: V2_RESERVE_HEAD_def)
qed

text \<open>Once both flags are, the head is a record's, with block lengths still zero.\<close>

lemma torn_head_visible:
  assumes h: "head_in_range h" and n: "21 \<le> n" "n \<le> 22"
  shows "parse_record_head (torn_head n h) =
    Ok (Some (h\<lparr>h_meta := 0, h_req_h := 0, h_req_b := 0, h_res_h := 0\<rparr>))"
proof -
  have n54: "n \<le> V2_HEAD_SIZE" using n by (simp add: V2_HEAD_SIZE_def)
  note sub = subslice_torn_head [OF h n54] and nth = nth_torn_head [OF h n54]
  note R = head_bytes_slices [OF reserve_head_in_range] and H = head_bytes_slices [OF h]
  have len: "length (torn_head n h) = V2_HEAD_SIZE" by (rule length_torn_head [OF h n54])
  show ?thesis
    using n len sub nth [of 19] nth [of 20] R H h
    by (simp add: parse_record_head_def V2_HEAD_SIZE_def V2_RESERVE_HEAD_def head_in_range_def
        V2_MAX_RECORD_def)
qed

text \<open>
  C7: A head within the format's bounds that is written with \<^verbatim>\<open>write_record_head\<close> and then
  read back with \<^verbatim>\<open>read_record_head\<close> is the same head, whatever follows it in the source
  and however the source splits or interrupts its reads; the reader then stands 54 bytes further.
\<close>
theorem record_head_roundtrip:
  assumes "steady_source rd stream off patience"
    and "head_in_range h"
    and "drop (off r) (stream r) = snd (write_record_head vec_write_all [] h) @ tail"
  shows "\<exists>r'. read_record_head rd r = Some (Ok (Some h), r') \<and>
    stream r' = stream r \<and> off r' = off r + V2_HEAD_SIZE"
proof -
  have "snd (write_record_head vec_write_all [] h) = head_bytes h"
    using assms(2) by (simp add: write_record_head_in_range write_all_len_def vec_write_all_def)
  then show ?thesis
    using steady_source.head_read_back [OF assms(1)] assms(2,3) by simp
qed

definition sample_head :: record_head where
  "sample_head = \<lparr>h_len = 0x78e, h_rec_type = DialogRecord, h_compress = Plain,
     h_meta = 0x77, h_req_h = 0xe7, h_req_b = 0, h_res_h = 0x138\<rparr>"

text \<open>The head line of \<^verbatim>\<open>barc/sample/example.barc\<close>.\<close>

lemma sample_head_bytes:
  "head_bytes sample_head =
     ''BARC2 00000000078e DP 00077 000e7 0000000000 00138'' @ [CR, LF, CR, LF]"
  by code_simp

lemma sample_head_in_range: "head_in_range sample_head"
  by (simp add: head_in_range_def sample_head_def v2_defs)

theorem record_head_roundtrip_witness:
  "\<exists>r'. read_record_head cursor_read (cursor_new (head_bytes sample_head @ ''url'')) =
     Some (Ok (Some sample_head), r') \<and> cur_pos r' = 54"
proof -
  have "drop (cur_pos (cursor_new (head_bytes sample_head @ ''url'')))
      (cur_bytes (cursor_new (head_bytes sample_head @ ''url''))) =
      snd (write_record_head vec_write_all [] sample_head) @ ''url''"
    by (simp add: cursor_new_def sample_head_in_range write_record_head_in_range
        write_all_len_def vec_write_all_def)
  then show ?thesis
    using record_head_roundtrip [OF std_cursor.steady_source_axioms sample_head_in_range,
        where r = "cursor_new (head_bytes sample_head @ ''url'')" and tail = "''url''"]
    by (auto simp: cursor_new_def V2_HEAD_SIZE_def)
qed

text \<open>
  C15: On every source whose only errors are interruptions, \<^verbatim>\<open>read_record_head\<close> returns, and
  its result depends on the next 54 bytes of the source alone, not on how the source splits its
  reads: nothing left is the end of the file, fewer than 54 bytes an incomplete head.
\<close>
theorem read_record_head_any_split:
  assumes "steady_source rd stream off patience"
  shows "\<exists>r'. read_record_head rd r =
      Some (parse_record_head (take V2_HEAD_SIZE (drop (off r) (stream r))), r') \<and>
    stream r' = stream r \<and>
    off r' = off r + min V2_HEAD_SIZE (length (stream r) - off r)"
  by (rule steady_source.head_any_split [OF assms])

theorem read_record_head_any_split_witness:
  "\<exists>r'. read_record_head cursor_read (cursor_new ''BARC2'') =
     Some (Err (ReadIncompleteRecHead 5), r') \<and> cur_pos r' = 5"
  using read_record_head_any_split [OF std_cursor.steady_source_axioms, of "cursor_new ''BARC2''"]
  by (auto simp: cursor_new_def parse_record_head_def V2_HEAD_SIZE_def)

lemma head_positions:
  assumes "length xs = V2_HEAD_SIZE" and "length ys = V2_HEAD_SIZE"
  shows "(\<forall>i < V2_HEAD_SIZE. i \<notin> set ignored_positions \<longrightarrow> xs ! i = ys ! i) \<longleftrightarrow>
     subslice 0 6 xs = subslice 0 6 ys \<and> subslice 6 18 xs = subslice 6 18 ys \<and>
     xs ! 19 = ys ! 19 \<and> xs ! 20 = ys ! 20 \<and>
     subslice 22 27 xs = subslice 22 27 ys \<and> subslice 28 33 xs = subslice 28 33 ys \<and>
     subslice 34 44 xs = subslice 34 44 ys \<and> subslice 45 50 xs = subslice 45 50 ys"
    (is "?l \<longleftrightarrow> ?r")
proof -
  define field where "field = (\<lambda>i. i < 6 \<or> 6 \<le> i \<and> i < 18 \<or> i = 19 \<or> i = 20 \<or>
      22 \<le> i \<and> i < 27 \<or> 28 \<le> i \<and> i < 33 \<or> 34 \<le> i \<and> i < 44 \<or> 45 \<le> i \<and> i < (50 :: nat))"
  have "list_all (\<lambda>i. field i \<longleftrightarrow> i \<notin> set ignored_positions) [0..<54]"
    unfolding field_def by code_simp
  moreover have "i < 54" if "field i" for i
    using that by (auto simp: field_def)
  ultimately have "i < 54 \<and> i \<notin> set ignored_positions \<longleftrightarrow> field i" for i
    by (auto simp: list_all_iff)
  then have "?l \<longleftrightarrow> (\<forall>i. field i \<longrightarrow> xs ! i = ys ! i)"
    unfolding V2_HEAD_SIZE_def by blast
  also have "\<dots> \<longleftrightarrow> ?r"
    using assms by (simp add: field_def subslice_eq_iff V2_HEAD_SIZE_def imp_disjL all_conj_distrib)
  finally show ?thesis .
qed

lemma parse_record_head_fields:
  assumes "length buf = V2_HEAD_SIZE"
  shows "parse_record_head buf = Ok (Some h) \<longleftrightarrow>
     subslice 0 6 buf = ''BARC2 '' \<and> parse_hex (subslice 6 18 buf) = Ok (h_len h) \<and>
     record_type_from_byte (buf ! 19) = Ok (h_rec_type h) \<and>
     compression_from_byte (buf ! 20) = Ok (h_compress h) \<and>
     parse_hex (subslice 22 27 buf) = Ok (h_meta h) \<and>
     parse_hex (subslice 28 33 buf) = Ok (h_req_h h) \<and>
     parse_hex (subslice 34 44 buf) = Ok (h_req_b h) \<and>
     parse_hex (subslice 45 50 buf) = Ok (h_res_h h)"
  using assms by (cases h) (auto simp: parse_record_head_def V2_HEAD_SIZE_def)

lemma flag_inverses:
  "record_type_from_byte f = Ok t \<longleftrightarrow> f = record_type_flag t"
  "compression_from_byte f = Ok c \<longleftrightarrow> f = compression_flag c"
  using record_type_from_byte_Inr compression_from_byte_Inr by auto

text \<open>
  C9: Exactly which 54 bytes are accepted as a head: those that agree with the written form of
  some head within the bounds at every position but the separators and the terminator, which
  the parser never looks at. So every accepted head is within the bounds the writer asserts,
  and its fields are lower-case hexadecimal.
\<close>
theorem parse_record_head_accepts:
  "parse_record_head buf = Ok (Some h) \<longleftrightarrow>
     length buf = V2_HEAD_SIZE \<and> head_in_range h \<and>
     (\<forall>i < V2_HEAD_SIZE. i \<notin> set ignored_positions \<longrightarrow> buf ! i = head_bytes h ! i)"
proof (cases "length buf = V2_HEAD_SIZE")
  case False
  then show ?thesis by (auto simp: parse_record_head_def)
next
  case len: True
  note fields = parse_record_head_fields [OF len, of h] flag_inverses
    parse_hex_subslice_iff [of _ buf, unfolded len V2_HEAD_SIZE_def]
  show ?thesis
  proof (cases "head_in_range h")
    case True
    then show ?thesis
      using head_positions [OF len length_head_bytes [OF True]]
      by (auto simp: fields len head_bytes_slices head_in_range_def v2_defs)
  next
    case False
    then show ?thesis
      by (auto simp: fields head_in_range_def v2_defs)
  qed
qed

theorem parse_record_head_accepts_witness:
  "parse_record_head (map (\<lambda>i. if i \<in> set ignored_positions then CHR ''x''
       else head_bytes sample_head ! i) [0..<54]) = Ok (Some sample_head)"
  unfolding parse_record_head_accepts
  using sample_head_in_range by (simp add: V2_HEAD_SIZE_def)

text \<open>
  \<^verbatim>\<open>write_record_head\<close> writes nothing and panics when a field exceeds its bound, and
  otherwise performs exactly one write, of the 54 bytes of the head, passing on the writer's
  error.
\<close>
theorem write_record_head_bounds:
  "if head_in_range h
   then length (head_bytes h) = V2_HEAD_SIZE \<and>
     write_record_head wr out h =
       (case wr out (head_bytes h) of
          (Inr u, out') \<Rightarrow> (Ok (), out')
        | (Inl e, out') \<Rightarrow> (Err (Io e), out'))
   else \<exists>m. write_record_head wr out h = (panic m, out)"
  by (auto simp: length_head_bytes write_record_head_in_range write_all_len_def
      write_record_head_def head_in_range_def split: prod.splits sum.splits)

end
