(* ===== verification/Compress.thy ===== *)
theory Compress
  imports Http Body_Image Barc_Head
begin

text \<open>
  Record compression (\<^verbatim>\<open>barc/src/compress.rs\<close>) and the record it looks at: the three
  strategies, the decision whether a record is worth compressing, and the wrappers around the
  encoders of the \<^emph>\<open>flate2\<close> and \<^emph>\<open>brotli\<close> crates, which are parameters.

  The lemmas show that the staged decision of \<^verbatim>\<open>is_compressible\<close>, which stops at the first
  sufficient count, is one comparison of totals, and that a wrapper only ever appends to the
  file.
\<close>

section \<open>The record\<close>

record ('h, 's) barc_record =
  r_type :: record_type
  r_meta :: 'h
  r_req_headers :: 'h
  r_req_body :: "'s body_image"
  r_res_headers :: 'h
  r_res_body :: "'s body_image"

section \<open>Strategies\<close>

text \<open>The fields of \<^verbatim>\<open>GzipCompressStrategy\<close> and of \<^verbatim>\<open>BrotliCompressStrategy\<close>.\<close>

record level_strategy =
  st_min_len :: nat
  st_level :: nat
  st_check_identity :: bool

datatype strategy = NoCompress | GzipStrategy level_strategy | BrotliStrategy level_strategy

definition gzip_default :: level_strategy where
  "gzip_default = \<lparr>st_min_len = 4 * 1024, st_level = 6, st_check_identity = True\<rparr>"

definition brotli_default :: level_strategy where
  "brotli_default = \<lparr>st_min_len = 1024, st_level = 6, st_check_identity = True\<rparr>"

definition set_min_len :: "nat \<Rightarrow> level_strategy \<Rightarrow> level_strategy" where
  "set_min_len n st = st\<lparr>st_min_len := n\<rparr>"

definition set_compression_level :: "nat \<Rightarrow> level_strategy \<Rightarrow> level_strategy" where
  "set_compression_level n st = st\<lparr>st_level := n\<rparr>"

definition set_check_identity :: "bool \<Rightarrow> level_strategy \<Rightarrow> level_strategy" where
  "set_check_identity c st = st\<lparr>st_check_identity := c\<rparr>"

fun min_len :: "strategy \<Rightarrow> nat" where
  "min_len NoCompress = 0"
| "min_len (GzipStrategy st) = st_min_len st"
| "min_len (BrotliStrategy st) = st_min_len st"

fun check_identity :: "strategy \<Rightarrow> bool" where
  "check_identity NoCompress = False"
| "check_identity (GzipStrategy st) = st_check_identity st"
| "check_identity (BrotliStrategy st) = st_check_identity st"

section \<open>What is compressible\<close>

definition is_identity :: "bytes option \<Rightarrow> bool" where
  "is_identity decoded =
     (let idy = ''identity''
      in case decoded of
           None \<Rightarrow> False
         | Some hvb \<Rightarrow>
             length idy \<le> length hvb \<and> drop (length hvb - length idy) hvb = idy)"

definition is_compressible_type_str :: "'h http \<Rightarrow> bytes \<Rightarrow> bool" where
  "is_compressible_type_str H s =
     (case mime_parse H (trim s) of
        None \<Rightarrow> False
      | Some (t, st) \<Rightarrow>
          t = ''text'' \<or>
          t = ''application'' \<and> st \<in> set [''html'', ''javascript'', ''json'', ''xml''] \<or>
          t = ''application'' \<and>
            st \<in> set [''atom'', ''rss'', ''x-font-opentype'', ''x-font-truetype'', ''x-font-ttf'',
              ''xhtml'', ''xml''] \<or>
          t = ''image'' \<and> st = ''svg'' \<or>
          t = ''font'' \<and> st \<in> set [''opentype'', ''otf'', ''ttf''])"

definition is_compressible_type :: "'h http \<Rightarrow> bytes option \<Rightarrow> bool" where
  "is_compressible_type H ctype =
     (case ctype of
        None \<Rightarrow> False
      | Some v \<Rightarrow>
          (case hv_to_str H v of None \<Rightarrow> False | Some s \<Rightarrow> is_compressible_type_str H s))"

fun headers_len :: "nat \<Rightarrow> (bytes \<times> bytes) list \<Rightarrow> nat" where
  "headers_len sz [] = sz"
| "headers_len sz ((k, v) # kvs) = headers_len (sz + length k + length v + 4) kvs"

definition len_of_headers :: "'h http \<Rightarrow> 'h \<Rightarrow> nat" where
  "len_of_headers H h = headers_len 0 (hm_iter H h)"

text \<open>
  \<^verbatim>\<open>(len as f64 * 0.5) as u64\<close>: a \<^verbatim>\<open>u64\<close> is rounded to the nearest multiple of the unit
  in the last of 53 bits, to even on a tie; halving is exact and the cast truncates.
\<close>

fun ulp :: "nat \<Rightarrow> nat" where
  "ulp n = (if n < 2 ^ 53 then 1 else 2 * ulp (n div 2))"

declare ulp.simps [simp del]

definition as_f64 :: "nat \<Rightarrow> nat" where
  "as_f64 n =
     (let u = ulp n; q = n div u; r = n mod u
      in if 2 * r < u \<or> 2 * r = u \<and> even q then q * u else (q + 1) * u)"

definition half_f64 :: "nat \<Rightarrow> nat" where
  "half_f64 n = as_f64 n div 2"

text \<open>One body: the compressible bytes and the minimum that they have to reach.\<close>

definition count_body :: "bool \<Rightarrow> nat \<Rightarrow> nat \<times> nat \<Rightarrow> nat \<times> nat" where
  "count_body compressible len cm =
     (if 0 < len
      then if compressible then (fst cm + len, snd cm)
           else (fst cm, u64_saturating_add (snd cm) (half_f64 len))
      else cm)"

text \<open>
  The counts of both bodies: the first part of \<^verbatim>\<open>is_compressible\<close>, up to its first
  comparison.
\<close>

definition count_bodies :: "'h http \<Rightarrow> strategy \<Rightarrow> ('h, 's) barc_record \<Rightarrow> nat \<times> nat" where
  "count_bodies H st rec =
     (let ct = ''content-type'';
          res = (\<not> check_identity st \<or>
              is_identity (hm_get H (r_meta rec) ''response-decoded'')) \<and>
            is_compressible_type H (hm_get H (r_res_headers rec) ct);
          cm = count_body res (bi_len (r_res_body rec)) (0, min_len st)
      in count_body (is_compressible_type H (hm_get H (r_req_headers rec) ct))
           (bi_len (r_req_body rec)) cm)"

definition is_compressible :: "'h http \<Rightarrow> strategy \<Rightarrow> ('h, 's) barc_record \<Rightarrow> bool" where
  "is_compressible H st rec =
     (case count_bodies H st rec of (clen, need) \<Rightarrow>
        if need \<le> clen then True
        else let clen = clen + len_of_headers H (r_res_headers rec)
             in if need \<le> clen then True
                else let clen = clen + len_of_headers H (r_req_headers rec)
                     in if need \<le> clen then True
                        else need \<le> clen + len_of_headers H (r_meta rec))"

section \<open>Encoders\<close>

text \<open>
  The operations used of \<^verbatim>\<open>GzEncoder\<close> and \<^verbatim>\<open>brotli::CompressorWriter\<close> over a file: writing
  a slice in full, finishing, flushing, and what dropping does.
\<close>

type_synonym file_world = "fsfile \<times> io_script"

record 'z encoder_ops =
  en_new :: "nat \<Rightarrow> 'z"
  en_write :: "('z \<times> file_world) writer"
  en_finish :: "'z \<times> file_world \<Rightarrow> (io_error + unit) \<times> file_world"
  en_flush :: "'z \<times> file_world \<Rightarrow> (io_error + unit) \<times> ('z \<times> file_world)"
  en_drop :: "'z \<times> file_world \<Rightarrow> file_world"

datatype 'z encode_wrapper = EncPlain | EncGzip 'z | EncBrotli 'z

record 'z codecs =
  gz :: "'z encoder_ops"
  br :: "'z encoder_ops"

definition encode_plain :: "'z encode_wrapper" where
  "encode_plain = EncPlain"

definition encode_gzip :: "'z codecs \<Rightarrow> nat \<Rightarrow> 'z encode_wrapper" where
  "encode_gzip cs level = EncGzip (en_new (gz cs) level)"

definition encode_brotli :: "'z codecs \<Rightarrow> nat \<Rightarrow> 'z encode_wrapper" where
  "encode_brotli cs level = EncBrotli (en_new (br cs) level)"

text \<open>\<^verbatim>\<open>CompressStrategy::wrap_encoder\<close>, of each strategy.\<close>

definition plain_wrap_encoder :: "('h, 's) barc_record \<Rightarrow> 'z encode_wrapper" where
  "plain_wrap_encoder rec = encode_plain"

definition gzip_wrap_encoder ::
  "'h http \<Rightarrow> 'z codecs \<Rightarrow> level_strategy \<Rightarrow> ('h, 's) barc_record \<Rightarrow> 'z encode_wrapper" where
  "gzip_wrap_encoder H cs l rec =
     (if is_compressible H (GzipStrategy l) rec then encode_gzip cs (st_level l) else encode_plain)"

definition brotli_wrap_encoder ::
  "'h http \<Rightarrow> 'z codecs \<Rightarrow> level_strategy \<Rightarrow> ('h, 's) barc_record \<Rightarrow> 'z encode_wrapper" where
  "brotli_wrap_encoder H cs l rec =
     (if is_compressible H (BrotliStrategy l) rec then encode_brotli cs (st_level l) else encode_plain)"

fun wrap_encoder ::
  "'h http \<Rightarrow> 'z codecs \<Rightarrow> strategy \<Rightarrow> ('h, 's) barc_record \<Rightarrow> 'z encode_wrapper" where
  "wrap_encoder H cs NoCompress rec = plain_wrap_encoder rec"
| "wrap_encoder H cs (GzipStrategy l) rec = gzip_wrap_encoder H cs l rec"
| "wrap_encoder H cs (BrotliStrategy l) rec = brotli_wrap_encoder H cs l rec"

fun encode_mode :: "'z encode_wrapper \<Rightarrow> compression" where
  "encode_mode EncPlain = Plain"
| "encode_mode (EncGzip z) = Gzip"
| "encode_mode (EncBrotli z) = Brotli"

text \<open>\<^verbatim>\<open>write_all\<close> on the wrapper, through the \<^verbatim>\<open>write\<close> of the encoder in it.\<close>

fun encode_write :: "'z codecs \<Rightarrow> ('z encode_wrapper \<times> file_world) writer" where
  "encode_write cs (EncPlain, fw) bs =
     (case file_write_all fw bs of (v, fw') \<Rightarrow> (v, (EncPlain, fw')))"
| "encode_write cs (EncGzip z, fw) bs =
     (case en_write (gz cs) (z, fw) bs of (v, (z', fw')) \<Rightarrow> (v, (EncGzip z', fw')))"
| "encode_write cs (EncBrotli z, fw) bs =
     (case en_write (br cs) (z, fw) bs of (v, (z', fw')) \<Rightarrow> (v, (EncBrotli z', fw')))"

text \<open>
  \<^verbatim>\<open>finish\<close> consumes the wrapper: a gzip encoder is finished, a Brotli one flushed and then
  dropped. A flush of the \<^verbatim>\<open>File\<close> does nothing.
\<close>

fun encode_finish ::
  "'z codecs \<Rightarrow> 'z encode_wrapper \<times> file_world \<Rightarrow> (io_error + unit) \<times> file_world" where
  "encode_finish cs (EncPlain, fw) = (Inr (), fw)"
| "encode_finish cs (EncGzip z, fw) = en_finish (gz cs) (z, fw)"
| "encode_finish cs (EncBrotli z, fw) =
     (case en_flush (br cs) (z, fw) of (v, zfw) \<Rightarrow> (v, en_drop (br cs) zfw))"

text \<open>Dropping a wrapper that was not finished, on an error.\<close>

fun encode_drop :: "'z codecs \<Rightarrow> 'z encode_wrapper \<times> file_world \<Rightarrow> file_world" where
  "encode_drop cs (EncPlain, fw) = fw"
| "encode_drop cs (EncGzip z, fw) = en_drop (gz cs) (z, fw)"
| "encode_drop cs (EncBrotli z, fw) = en_drop (br cs) (z, fw)"

section \<open>Lemmas\<close>

lemmas wrap_encoder_defs = plain_wrap_encoder_def gzip_wrap_encoder_def brotli_wrap_encoder_def
  encode_plain_def encode_gzip_def encode_brotli_def

lemma wrap_encoder_cases:
  "wrap_encoder H cs st rec =
     (case st of
        NoCompress \<Rightarrow> EncPlain
      | GzipStrategy l \<Rightarrow>
          if is_compressible H st rec then EncGzip (en_new (gz cs) (st_level l)) else EncPlain
      | BrotliStrategy l \<Rightarrow>
          if is_compressible H st rec then EncBrotli (en_new (br cs) (st_level l)) else EncPlain)"
  by (cases st) (simp_all add: wrap_encoder_defs)

declare wrap_encoder.simps [simp del]

lemma headers_len_eq: "headers_len sz kvs = sz + length (header_lines kvs)"
  by (induction sz kvs rule: headers_len.induct) simp_all

lemma len_of_headers_eq: "len_of_headers H h = length (header_lines (hm_iter H h))"
  by (simp add: len_of_headers_def headers_len_eq)

lemma ulp_pos: "0 < ulp n"
  by (induction n rule: ulp.induct) (simp add: ulp.simps)

lemma half_f64_small: "n < 2 ^ 53 \<Longrightarrow> half_f64 n = n div 2"
  by (simp add: half_f64_def as_f64_def ulp.simps [of n])

text \<open>What an encoder that is given a file standing at its end may do to it: append.\<close>

definition extends :: "file_world \<Rightarrow> file_world \<Rightarrow> bool" where
  "extends fw fw' \<longleftrightarrow>
     (at_end fw \<longrightarrow> at_end fw' \<and> (\<exists>junk. content (fst fw') = content (fst fw) @ junk))"

lemma extends_refl [simp, intro]: "extends fw fw"
  by (simp add: extends_def)

lemma extends_trans: "extends fw fw' \<Longrightarrow> extends fw' fw'' \<Longrightarrow> extends fw fw''"
  by (auto simp: extends_def)

lemma file_write_extends: "file_write_all fw bs = (v, fw') \<Longrightarrow> extends fw fw'"
  using file_write_all_end [of fw bs] by (auto simp: extends_def split: sum.splits)

lemma file_write_extends_snd: "extends fw (snd (file_write_all fw bs))"
  by (cases "file_write_all fw bs") (auto intro: file_write_extends)

locale appending_encoder =
  fixes en :: "'z encoder_ops"
  assumes write_extends: "en_write en (z, fw) bs = (v, (z', fw')) \<Longrightarrow> extends fw fw'"
    and finish_extends: "en_finish en (z, fw) = (v, fw') \<Longrightarrow> extends fw fw'"
    and flush_extends: "en_flush en (z, fw) = (v, (z', fw')) \<Longrightarrow> extends fw fw'"
    and drop_extends: "extends fw (en_drop en (z, fw))"

locale appending_codecs =
  gz: appending_encoder "gz cs" + br: appending_encoder "br cs"
  for cs :: "'z codecs"
begin

lemma encode_write_extends:
  "encode_write cs (e, fw) bs = (v, (e', fw')) \<Longrightarrow> extends fw fw'"
  by (cases e)
    (auto intro: file_write_extends gz.write_extends br.write_extends split: prod.splits)

lemma encode_finish_extends: "encode_finish cs (e, fw) = (v, fw') \<Longrightarrow> extends fw fw'"
  by (cases e)
    (auto intro: gz.finish_extends br.flush_extends br.drop_extends extends_trans split: prod.splits)

lemma encode_drop_extends: "extends fw (encode_drop cs (e, fw))"
  by (cases e) (auto intro: gz.drop_extends br.drop_extends)

end

text \<open>An instance: an encoder that buffers its input and writes it, unchanged, when finished.\<close>

definition buffering_encoder :: "bytes encoder_ops" where
  "buffering_encoder =
     \<lparr>en_new = (\<lambda>level. []),
      en_write = (\<lambda>(z, fw) bs. (Inr (), (z @ bs, fw))),
      en_finish = (\<lambda>(z, fw). file_write_all fw z),
      en_flush = (\<lambda>(z, fw). case file_write_all fw z of (v, fw') \<Rightarrow> (v, ([], fw'))),
      en_drop = (\<lambda>(z, fw). snd (file_write_all fw z))\<rparr>"

definition buffering_codecs :: "bytes codecs" where
  "buffering_codecs = \<lparr>gz = buffering_encoder, br = buffering_encoder\<rparr>"

lemma buffering_sel [simp]:
  "gz buffering_codecs = buffering_encoder" "br buffering_codecs = buffering_encoder"
  "en_new buffering_encoder n = []"
  "en_write buffering_encoder (z, fw) bs = (Inr (), (z @ bs, fw))"
  "en_finish buffering_encoder (z, fw) = file_write_all fw z"
  "en_flush buffering_encoder (z, fw) = (case file_write_all fw z of (v, fw') \<Rightarrow> (v, ([], fw')))"
  "en_drop buffering_encoder (z, fw) = snd (file_write_all fw z)"
  by (simp_all add: buffering_codecs_def buffering_encoder_def)

interpretation buffering: appending_codecs buffering_codecs
  by unfold_locales
    (auto split: prod.splits intro: file_write_extends file_write_extends_snd)

section \<open>Properties of compression\<close>

lemma is_compressible_sum:
  "is_compressible H st rec \<longleftrightarrow>
     snd (count_bodies H st rec) \<le> fst (count_bodies H st rec) +
       length (header_lines (hm_iter H (r_res_headers rec))) +
       length (header_lines (hm_iter H (r_req_headers rec))) +
       length (header_lines (hm_iter H (r_meta rec)))"
  by (auto simp: is_compressible_def len_of_headers_eq Let_def split: prod.splits)

lemma is_identity_eq: "is_identity d \<longleftrightarrow> (\<exists>v. d = Some (v @ ''identity''))"
proof
  assume "is_identity d"
  then obtain v where v: "d = Some v" "drop (length v - 8) v = ''identity''"
    by (auto simp: is_identity_def Let_def numeral_eq_Suc split: option.splits)
  then have "v = take (length v - 8) v @ ''identity''" by (metis append_take_drop_id)
  then show "\<exists>v. d = Some (v @ ''identity'')" using v(1) by blast
qed (auto simp: is_identity_def)

text \<open>The media types that count: all of \<^verbatim>\<open>text\<close>, and these.\<close>

definition text_types :: "(bytes \<times> bytes) set" where
  "text_types =
     {''application''} \<times> {''html'', ''javascript'', ''json'', ''xml'', ''atom'', ''rss'', ''xhtml'',
        ''x-font-opentype'', ''x-font-truetype'', ''x-font-ttf''} \<union>
     {(''image'', ''svg'')} \<union> {''font''} \<times> {''opentype'', ''otf'', ''ttf''}"

definition text_like :: "'h http \<Rightarrow> bytes option \<Rightarrow> bool" where
  "text_like H ctype \<longleftrightarrow>
     (\<exists>v s t st. ctype = Some v \<and> hv_to_str H v = Some s \<and> mime_parse H (trim s) = Some (t, st) \<and>
        (t = ''text'' \<or> (t, st) \<in> text_types))"

lemma is_compressible_type_eq: "is_compressible_type H ctype \<longleftrightarrow> text_like H ctype"
  unfolding is_compressible_type_def is_compressible_type_str_def text_like_def text_types_def
  by (auto split: option.splits)

lemma count_bodies_eq:
  assumes "bi_len (r_res_body rec) < 2 ^ 53" and "bi_len (r_req_body rec) < 2 ^ 53"
    and "min_len st \<le> 2 ^ 63"
    and "res \<longleftrightarrow>
      (check_identity st \<longrightarrow> (\<exists>v. hm_get H (r_meta rec) ''response-decoded'' = Some (v @ ''identity''))) \<and>
      text_like H (hm_get H (r_res_headers rec) ''content-type'')"
    and "req \<longleftrightarrow> text_like H (hm_get H (r_req_headers rec) ''content-type'')"
  shows "count_bodies H st rec =
    ((if res then bi_len (r_res_body rec) else 0) + (if req then bi_len (r_req_body rec) else 0),
     min_len st + (if res then 0 else bi_len (r_res_body rec) div 2) +
       (if req then 0 else bi_len (r_req_body rec) div 2))"
proof -
  have body: "count_body c n (k, m) = (k + (if c then n else 0), m + (if c then 0 else n div 2))"
    if "n < 2 ^ 53" "m \<le> 2 ^ 63 + 2 ^ 53" for c n k m
    using that by (simp add: count_body_def half_f64_small u64_saturating_add_def)
  have need: "min_len st + (if res then 0 else bi_len (r_res_body rec) div 2) \<le> 2 ^ 63 + 2 ^ 53"
    using assms(1,3) div_le_dividend [of "bi_len (r_res_body rec)" 2] by (cases res) auto
  have least: "min_len st \<le> 2 ^ 63 + 2 ^ 53" using assms(3) by simp
  have counts: "((\<not> check_identity st \<or> is_identity (hm_get H (r_meta rec) ''response-decoded'')) \<and>
      is_compressible_type H (hm_get H (r_res_headers rec) ''content-type'')) = res"
    "is_compressible_type H (hm_get H (r_req_headers rec) ''content-type'') = req"
    by (simp_all only: is_identity_eq is_compressible_type_eq assms(4,5) imp_conv_disj)
  show ?thesis
    unfolding count_bodies_def Let_def counts body [OF assms(1) least] body [OF assms(2) need] by simp
qed

text \<open>
  C13: The staged decision of \<^verbatim>\<open>is_compressible\<close>, which stops counting as soon as the bodies or
  some of the header blocks suffice, and halves lengths as floating point numbers, is one comparison
  of sums, for bodies of less than \<open>2\<^sup>5\<^sup>3\<close> bytes and minima up to \<open>2\<^sup>6\<^sup>3\<close>: the minimum and
  half of the bodies that do not count, against the bodies that do and the serialized lengths of all
  three header blocks. A body counts if the type in its \<^verbatim>\<open>content-type\<close> is one of the listed ones,
  and the response's only if its recorded encodings end with \<^verbatim>\<open>identity\<close>, if that is checked.
\<close>
theorem is_compressible_total:
  assumes "bi_len (r_res_body rec) < 2 ^ 53" and "bi_len (r_req_body rec) < 2 ^ 53"
    and "min_len st \<le> 2 ^ 63"
    and "res \<longleftrightarrow>
      (check_identity st \<longrightarrow> (\<exists>v. hm_get H (r_meta rec) ''response-decoded'' = Some (v @ ''identity''))) \<and>
      text_like H (hm_get H (r_res_headers rec) ''content-type'')"
    and "req \<longleftrightarrow> text_like H (hm_get H (r_req_headers rec) ''content-type'')"
  shows "is_compressible H st rec \<longleftrightarrow>
    min_len st + (if res then 0 else bi_len (r_res_body rec) div 2) +
        (if req then 0 else bi_len (r_req_body rec) div 2) \<le>
      (if res then bi_len (r_res_body rec) else 0) + (if req then bi_len (r_req_body rec) else 0) +
        length (header_lines (hm_iter H (r_res_headers rec))) +
        length (header_lines (hm_iter H (r_req_headers rec))) +
        length (header_lines (hm_iter H (r_meta rec)))"
  by (simp add: is_compressible_sum count_bodies_eq [OF assms])

text \<open>A decoded response of 20 bytes of text and a request of 9 other bytes: 70 is the largest minimum.\<close>

definition counted_record :: "(assoc_map, unit) barc_record" where
  "counted_record =
     \<lparr>r_type = DialogRecord, r_meta = assoc_append assoc_empty ''response-decoded'' ''identity'',
      r_req_headers = assoc_empty, r_req_body = \<lparr>bi_state = Ram [''123456789''], bi_len = 9\<rparr>,
      r_res_headers = assoc_append assoc_empty ''content-type'' ''text/plain'',
      r_res_body = \<lparr>bi_state = Ram [''twenty bytes of text''], bi_len = 20\<rparr>\<rparr>"

lemma counted_record_headers:
  "hm_iter assoc_http (r_meta counted_record) = [(''response-decoded'', ''identity'')]"
  "hm_iter assoc_http (r_res_headers counted_record) = [(''content-type'', ''text/plain'')]"
  "hm_iter assoc_http (r_req_headers counted_record) = []"
  "bi_len (r_req_body counted_record) = 9" "bi_len (r_res_body counted_record) = 20"
  by (simp_all add: counted_record_def assoc_name_Inr assoc_value_Inr name_char_def value_char_def)

theorem is_compressible_total_witness:
  "is_compressible assoc_http (GzipStrategy \<lparr>st_min_len = 70, st_level = 6, st_check_identity = True\<rparr>)
     counted_record \<and>
   \<not> is_compressible assoc_http (GzipStrategy \<lparr>st_min_len = 71, st_level = 6, st_check_identity = True\<rparr>)
     counted_record"
proof -
  have get: "hm_get assoc_http (r_meta counted_record) ''response-decoded'' = Some ([] @ ''identity'')"
    "hm_get assoc_http (r_res_headers counted_record) ''content-type'' = Some ''text/plain''"
    "hm_get assoc_http (r_req_headers counted_record) ''content-type'' = None"
    using counted_record_headers by (simp_all add: values_of_def)
  have "trim ''text/plain'' = ''text/plain''" by (rule trim_idem) (simp add: is_space_def)
  then have types: "text_like assoc_http (Some ''text/plain'')" "\<not> text_like assoc_http None"
    by (simp_all add: text_like_def assoc_str_def assoc_mime_def Let_def)
  have total: "is_compressible assoc_http (GzipStrategy \<lparr>st_min_len = n, st_level = 6, st_check_identity = True\<rparr>)
      counted_record \<longleftrightarrow> n \<le> 70" if "n < 100" for n
    using is_compressible_total [of counted_record "GzipStrategy \<lparr>st_min_len = n, st_level = 6, st_check_identity = True\<rparr>"
        True assoc_http False] that get types counted_record_headers
    by (simp add: header_lines_def)
  show ?thesis by (simp add: total)
qed

end
