(* ===== verification/Barc_Write.thy ===== *)
theory Barc_Write
  imports Compress
begin

text \<open>
  Writing records (\<^verbatim>\<open>barc/src/lib.rs\<close>): header blocks and bodies, the parts of a record, and
  \<^verbatim>\<open>BarcWriter::write\<close>, which reserves a head at the end of the file, writes the record and
  then goes back to write the head.

  The lemmas give the exact bytes of each part, on a success and on a failure of the writer.
  For the whole of \<^verbatim>\<open>write\<close> they say, for every script of failures, what the file can look
  like when it stops, which is also what a concurrent reader can find.
\<close>

section \<open>Headers and bodies\<close>

fun write_lines ::
  "'w writer \<Rightarrow> (bytes \<times> bytes) list \<Rightarrow> nat \<Rightarrow> 'w \<Rightarrow> (barc_error, nat) result \<times> 'w" where
  "write_lines wr [] sz out = (Ok sz, out)"
| "write_lines wr ((key, val) # kvs) sz out =
     bindT (write_all_len wr out key) (\<lambda>a out.
     bindT (write_all_len wr out '': '') (\<lambda>b out.
     bindT (write_all_len wr out val) (\<lambda>c out.
     bindT (write_all_len wr out CRLF) (\<lambda>d out.
     write_lines wr kvs (sz + a + b + c + d) out))))"

text \<open>The CR+LF padding after a part of \<open>sz\<close> bytes.\<close>

definition write_crlf :: "'w writer \<Rightarrow> bool \<Rightarrow> nat \<Rightarrow> 'w \<Rightarrow> (barc_error, nat) result \<times> 'w" where
  "write_crlf wr with_crlf sz out =
     (if with_crlf \<and> 0 < sz
      then bindT (write_all_len wr out CRLF) (\<lambda>a out. (Ok (sz + a), out))
      else (Ok sz, out))"

definition write_headers ::
  "'h http \<Rightarrow> 'w writer \<Rightarrow> 'w \<Rightarrow> bool \<Rightarrow> 'h \<Rightarrow> (barc_error, nat) result \<times> 'w" where
  "write_headers H wr out with_crlf headers =
     bindT (write_lines wr (hm_iter H headers) 0 out) (\<lambda>sz out.
     bindT (write_crlf wr with_crlf sz out) (\<lambda>sz out.
       if \<not> sz \<le> V2_MAX_HBLOCK then (panic ''assertion failed: size <= V2_MAX_HBLOCK'', out)
       else (Ok sz, out)))"

definition write_body ::
  "('p, 's, 'g) olio \<Rightarrow> 'w writer \<Rightarrow> 'w \<Rightarrow> bool \<Rightarrow> 's body_image \<Rightarrow> (barc_error, nat, 'w) outcome" where
  "write_body fs wr out with_crlf body =
     bindO (map_errO Body (write_to fs wr body out)) (\<lambda>sz out.
       Some (write_crlf wr with_crlf sz out))"

section \<open>The record\<close>

text \<open>What \<^verbatim>\<open>write_record\<close> writes through its encoder, up to \<^verbatim>\<open>finish\<close>.\<close>

definition write_parts ::
  "'h http \<Rightarrow> ('p, 's, 'g) olio \<Rightarrow> 'w writer \<Rightarrow> compression \<Rightarrow> ('h, 's) barc_record \<Rightarrow> 'w
     \<Rightarrow> (barc_error, record_head, 'w) outcome" where
  "write_parts H fs wr compress rec out =
     (let with_crlf = (compress = Plain) in
      bindO (Some (write_headers H wr out with_crlf (r_meta rec))) (\<lambda>meta out.
      bindO (Some (write_headers H wr out with_crlf (r_req_headers rec))) (\<lambda>req_h out.
      bindO (write_body fs wr out with_crlf (r_req_body rec)) (\<lambda>req_b out.
      bindO (Some (write_headers H wr out with_crlf (r_res_headers rec))) (\<lambda>res_h out.
        let len = meta + req_h + res_h + req_b in
        if \<not> len + bi_len (r_res_body rec) + 2 \<le> V2_MAX_RECORD
        then Some (panic ''body exceeds size limit'', out)
        else bindO (write_body fs wr out with_crlf (r_res_body rec)) (\<lambda>res_b out.
          Some (Ok \<lparr>h_len = len + res_b, h_rec_type = r_type rec, h_compress = compress,
            h_meta = meta, h_req_h = req_h, h_req_b = req_b, h_res_h = res_h\<rparr>, out)))))))"

definition write_record ::
  "'h http \<Rightarrow> ('p, 's, 'g) olio \<Rightarrow> 'z codecs \<Rightarrow> strategy \<Rightarrow> ('h, 's) barc_record \<Rightarrow> file_world
     \<Rightarrow> (barc_error, record_head, file_world) outcome" where
  "write_record H fs cs st rec fw =
     (let encoder = wrap_encoder H cs st rec
      in case write_parts H fs (encode_write cs) (encode_mode encoder) rec (encoder, fw) of
           None \<Rightarrow> None
         | Some (Inl x, efw) \<Rightarrow> Some (Inl x, encode_drop cs efw)
         | Some (Inr head, efw) \<Rightarrow>
             (case encode_finish cs efw of
                (Inr u, fw') \<Rightarrow> Some (Ok head, fw')
              | (Inl e, fw') \<Rightarrow> Some (Err (Io e), fw')))"

definition seek_file :: "seek_from \<Rightarrow> file_world \<Rightarrow> (barc_error, nat) result \<times> file_world" where
  "seek_file sf fw =
     (case file_seek sf fw of
        (Inr n, fw') \<Rightarrow> (Ok n, fw')
      | (Inl e, fw') \<Rightarrow> (Err (Io e), fw'))"

text \<open>The end of \<^verbatim>\<open>write\<close>: seek back, write the final head, seek to the end.\<close>

definition commit_head ::
  "nat \<Rightarrow> record_head \<Rightarrow> file_world \<Rightarrow> (barc_error, nat, file_world) outcome" where
  "commit_head start head fw =
     bindO (Some (seek_file (SeekStart start) fw)) (\<lambda>_ fw.
     bindO (Some (write_record_head file_write_all fw head)) (\<lambda>_ fw.
     bindO (Some (seek_file (SeekEnd 0) fw)) (\<lambda>_ fw.
       Some (Ok start, fw))))"

text \<open>What \<^verbatim>\<open>write\<close> does once the record is written: the new offset gives its length.\<close>

definition complete_write ::
  "nat \<Rightarrow> record_head \<Rightarrow> file_world \<Rightarrow> (barc_error, nat, file_world) outcome" where
  "complete_write start head fw =
     bindO (Some (seek_file (SeekCurrent 0) fw)) (\<lambda>fin fw.
       let orig_len = h_len head;
           len = fin - start - V2_HEAD_SIZE;
           head = head\<lparr>h_len := len\<rparr>
       in if \<not> start + V2_HEAD_SIZE \<le> fin
          then Some (panic ''assertion failed: end >= (start + (V2_HEAD_SIZE as u64))'', fw)
          else if h_compress head = Plain \<and> orig_len \<noteq> len
          then Some (panic ''assertion failed: orig_len == head.len'', fw)
          else commit_head start head fw)"

definition barc_write ::
  "'h http \<Rightarrow> ('p, 's, 'g) olio \<Rightarrow> 'z codecs \<Rightarrow> strategy \<Rightarrow> ('h, 's) barc_record \<Rightarrow> file_world
     \<Rightarrow> (barc_error, nat, file_world) outcome" where
  "barc_write H fs cs st rec fw =
     bindO (Some (seek_file (SeekEnd 0) fw)) (\<lambda>start fw.
     bindO (Some (write_record_head file_write_all fw V2_RESERVE_HEAD)) (\<lambda>_ fw.
     bindO (write_record H fs cs st rec fw) (\<lambda>head fw.
       complete_write start head fw)))"

section \<open>The bytes of the parts\<close>

definition headers_out :: "bool \<Rightarrow> (bytes \<times> bytes) list \<Rightarrow> bytes" where
  "headers_out with_crlf kvs =
     header_lines kvs @ (if with_crlf \<and> kvs \<noteq> [] then CRLF else [])"

definition body_out :: "bool \<Rightarrow> bytes \<Rightarrow> bytes" where
  "body_out with_crlf bs = bs @ (if with_crlf \<and> bs \<noteq> [] then CRLF else [])"

lemma length_headers_out: "length (headers_out c kvs) =
    length (header_lines kvs) + (if c \<and> kvs \<noteq> [] then 2 else 0)"
  by (simp add: headers_out_def CRLF_def)

lemma write_all_len_emits:
  assumes "write_sink wr good written" and "good out"
  shows "emitsO good written out bs (\<lambda>n. n = length bs) (Some (write_all_len wr out bs))"
  using write_sink.wr_emits [OF assms, of bs]
  by (auto simp: emitsO_Some write_all_len_def intro: emits_conv split: prod.splits sum.splits)

lemma write_lines_emits:
  assumes ws: "write_sink wr good written"
  shows "good out \<Longrightarrow>
     emitsO good written out (header_lines kvs) (\<lambda>n. n = sz + length (header_lines kvs))
       (Some (write_lines wr kvs sz out))"
proof (induction kvs arbitrary: sz out)
  case Nil
  then show ?case by (simp add: emitsO_return)
next
  case (Cons kv kvs)
  obtain k v where kv: "kv = (k, v)" by (rule prod.exhaust)
  have "emitsO good written out (k @ '': '' @ v @ CRLF @ header_lines kvs)
      (\<lambda>n. n = sz + length (header_lines (kv # kvs))) (Some (write_lines wr (kv # kvs) sz out))"
    unfolding kv write_lines.simps
    by (rule emitsO_bindT, rule write_all_len_emits [OF ws], rule Cons.prems)+
      (rule emitsO_bindT, rule write_all_len_emits [OF ws], assumption,
       rule emitsO_bindT, rule write_all_len_emits [OF ws], assumption,
       rule emitsO_bindT, rule write_all_len_emits [OF ws], assumption,
       rule emitsO_mono, rule Cons.IH, assumption, simp add: CRLF_def)
  then show ?case by (simp add: kv CRLF_def)
qed

lemma write_crlf_emits:
  assumes ws: "write_sink wr good written" and good: "good out"
  shows "emitsO good written out (if c \<and> 0 < sz then CRLF else [])
    (\<lambda>n. n = sz + (if c \<and> 0 < sz then 2 else 0)) (Some (write_crlf wr c sz out))"
proof (cases "c \<and> 0 < sz")
  case True
  have "emitsO good written out (CRLF @ []) (\<lambda>n. n = sz + 2)
      (Some (bindT (write_all_len wr out CRLF) (\<lambda>a out. (Ok (sz + a), out))))"
    by (rule emitsO_bindT, rule write_all_len_emits [OF ws good], rule emitsO_return)
      (simp_all add: CRLF_def)
  with True show ?thesis by (simp add: write_crlf_def)
qed (auto simp: write_crlf_def good intro: emitsO_return)

lemma write_headers_emits:
  assumes ws: "write_sink wr good written" and good: "good out"
  shows "emitsO good written out (headers_out c (hm_iter H h))
    (\<lambda>n. n = length (headers_out c (hm_iter H h)) \<and> n \<le> V2_MAX_HBLOCK)
    (Some (write_headers H wr out c h))"
  unfolding write_headers_def headers_out_def
proof (rule emitsO_bindT, rule write_lines_emits [OF ws good])
  fix a o1
  assume a: "a = 0 + length (header_lines (hm_iter H h))" and o1: "good o1"
  have c: "(if c \<and> hm_iter H h \<noteq> [] then CRLF else []) = (if c \<and> 0 < a then CRLF else []) @ []"
    by (simp add: a)
  show "emitsO good written o1 (if c \<and> hm_iter H h \<noteq> [] then CRLF else [])
      (\<lambda>n. n = length (header_lines (hm_iter H h) @ (if c \<and> hm_iter H h \<noteq> [] then CRLF else [])) \<and>
         n \<le> V2_MAX_HBLOCK)
      (Some (bindT (write_crlf wr c a o1) (\<lambda>sz out.
        if \<not> sz \<le> V2_MAX_HBLOCK then (panic ''assertion failed: size <= V2_MAX_HBLOCK'', out)
        else (Ok sz, out))))"
    unfolding c
    by (rule emitsO_bindT, rule write_crlf_emits [OF ws o1])
      (auto simp: a CRLF_def emitsO_fail emitsO_return)
qed

definition record_payload :: "'h http \<Rightarrow> ('s \<Rightarrow> bytes) \<Rightarrow> bool \<Rightarrow> ('h, 's) barc_record \<Rightarrow> bytes" where
  "record_payload H sb c rec =
     headers_out c (hm_iter H (r_meta rec)) @
     headers_out c (hm_iter H (r_req_headers rec)) @
     body_out c (image_bytes sb (r_req_body rec)) @
     headers_out c (hm_iter H (r_res_headers rec)) @
     body_out c (image_bytes sb (r_res_body rec))"

definition payload_head ::
  "'h http \<Rightarrow> ('s \<Rightarrow> bytes) \<Rightarrow> compression \<Rightarrow> ('h, 's) barc_record \<Rightarrow> record_head" where
  "payload_head H sb compress rec =
     (let c = (compress = Plain) in
      \<lparr>h_len = length (record_payload H sb c rec), h_rec_type = r_type rec, h_compress = compress,
       h_meta = length (headers_out c (hm_iter H (r_meta rec))),
       h_req_h = length (headers_out c (hm_iter H (r_req_headers rec))),
       h_req_b = length (body_out c (image_bytes sb (r_req_body rec))),
       h_res_h = length (headers_out c (hm_iter H (r_res_headers rec)))\<rparr>)"

context olio_files
begin

lemma write_body_emits:
  assumes ws: "write_sink wr good written" and good: "good out" and ok: "im_ok b"
  shows "emitsO good written out (body_out c (im_bytes b)) (\<lambda>n. n = length (body_out c (im_bytes b)))
    (write_body fs wr out c b)"
  unfolding write_body_def body_out_def
proof (rule emitsO_bind)
  show "emitsO good written out (im_bytes b) (\<lambda>n. n = length (im_bytes b))
      (map_errO Body (write_to fs wr b out))"
    using write_to_emits [OF ws good ok] ok
    by (intro emitsO_map_err) (force simp: emitsO_def image_ok_def)
next
  fix n o1
  assume "n = length (im_bytes b)" and "good o1"
  then show "emitsO good written o1 (if c \<and> im_bytes b \<noteq> [] then CRLF else [])
      (\<lambda>n. n = length (im_bytes b @ (if c \<and> im_bytes b \<noteq> [] then CRLF else [])))
      (Some (write_crlf wr c n o1))"
    using write_crlf_emits [OF ws, of o1 c n]
    by (auto simp: CRLF_def elim: emitsO_mono)
qed

lemma write_parts_emits:
  assumes ws: "write_sink wr good written" and good: "good out"
    and ok: "im_ok (r_req_body rec)" "im_ok (r_res_body rec)"
  shows "emitsO good written out (record_payload H s_bytes (compress = Plain) rec)
    (\<lambda>h. h = payload_head H s_bytes compress rec \<and> h_len h \<le> V2_MAX_RECORD)
    (write_parts H fs wr compress rec out)"
proof -
  let ?c = "compress = Plain"
  let ?m = "headers_out ?c (hm_iter H (r_meta rec))"
  let ?q = "headers_out ?c (hm_iter H (r_req_headers rec))"
  let ?qb = "body_out ?c (im_bytes (r_req_body rec))"
  let ?s = "headers_out ?c (hm_iter H (r_res_headers rec))"
  let ?sb = "body_out ?c (im_bytes (r_res_body rec))"
  let ?len = "length ?m + length ?q + length ?s + length ?qb"
  have body: "bi_len (r_res_body rec) = length (im_bytes (r_res_body rec))"
    using ok(2) by (simp add: image_ok_def)
  have sb: "length ?sb \<le> length (im_bytes (r_res_body rec)) + 2"
    by (simp add: body_out_def CRLF_def)
  show ?thesis
    unfolding write_parts_def record_payload_def Let_def
  proof (rule emitsO_bind, rule write_headers_emits [OF ws good], elim conjE,
      rule emitsO_bind, rule write_headers_emits [OF ws], assumption, elim conjE,
      rule emitsO_bind, rule write_body_emits [OF ws _ ok(1)], assumption,
      rule emitsO_bind, rule write_headers_emits [OF ws], assumption, elim conjE)
    fix meta o1 req_h o2 req_b o3 res_h o4
    assume lens: "meta = length ?m" "req_h = length ?q" "req_b = length ?qb" "res_h = length ?s"
      and good: "good o4"
    let ?t = "if \<not> meta + req_h + res_h + req_b + bi_len (r_res_body rec) + 2 \<le> V2_MAX_RECORD
        then Some (panic ''body exceeds size limit'', o4)
        else bindO (write_body fs wr o4 ?c (r_res_body rec)) (\<lambda>res_b out.
          Some (Ok \<lparr>h_len = meta + req_h + res_h + req_b + res_b, h_rec_type = r_type rec,
            h_compress = compress, h_meta = meta, h_req_h = req_h, h_req_b = req_b,
            h_res_h = res_h\<rparr>, out))"
    show "emitsO good written o4 ?sb
        (\<lambda>h. h = payload_head H s_bytes compress rec \<and> h_len h \<le> V2_MAX_RECORD) ?t"
    proof (cases "?len + bi_len (r_res_body rec) + 2 \<le> V2_MAX_RECORD")
      case True
      have "?len + length ?sb \<le> V2_MAX_RECORD" using True sb body by linarith
      then have "emitsO good written o4 ?sb
          (\<lambda>h. h = payload_head H s_bytes compress rec \<and> h_len h \<le> V2_MAX_RECORD)
          (bindO (write_body fs wr o4 ?c (r_res_body rec)) (\<lambda>res_b out.
            Some (Ok \<lparr>h_len = meta + req_h + res_h + req_b + res_b, h_rec_type = r_type rec,
              h_compress = compress, h_meta = meta, h_req_h = req_h, h_req_b = req_b,
              h_res_h = res_h\<rparr>, out)))"
        by (intro emitsO_bind_nil [OF write_body_emits [OF ws good ok(2)]] emitsO_return)
          (simp_all add: payload_head_def record_payload_def lens Let_def)
      then show ?thesis
        using True by (simp add: lens ac_simps)
    next
      case False
      have "emits good written o4 ([] @ ?sb) (panic ''body exceeds size limit'' :: _, o4)"
        by (rule emits_stop [OF emits_nil]) (rule good)
      then show ?thesis
        using False by (simp add: lens emitsO_Some ac_simps)
    qed
  qed
qed

end

text \<open>A sink that never refuses takes every part that is within the format's bounds.\<close>

lemma write_all_len_okO:
  assumes "\<And>e. \<not> refuses wr good e" and "good out"
  shows "okO (Some (write_all_len wr out bs))"
proof -
  have "fst (wr out bs) \<noteq> Inl e" for e
    using assms unfolding refuses_def by blast
  then show ?thesis
    by (cases "wr out bs"; cases "fst (wr out bs)") (auto simp: write_all_len_def)
qed

lemma write_lines_okO:
  assumes ws: "write_sink wr good written" and sure: "\<And>e. \<not> refuses wr good e"
  shows "good out \<Longrightarrow> okO (Some (write_lines wr kvs sz out))"
proof (induction kvs arbitrary: sz out)
  case (Cons kv kvs)
  obtain k v where kv: "kv = (k, v)" by (rule prod.exhaust)
  show ?case
    unfolding kv write_lines.simps
    by (intro okO_bindT [OF write_all_len_okO [OF sure] write_all_len_emits [OF ws]] Cons)
      assumption+
qed simp

lemma write_crlf_okO:
  assumes ws: "write_sink wr good written" and sure: "\<And>e. \<not> refuses wr good e" and "good out"
  shows "okO (Some (write_crlf wr c sz out))"
proof (cases "c \<and> 0 < sz")
  case True
  have "okO (Some (bindT (write_all_len wr out CRLF) (\<lambda>a out. (Ok (sz + a), out))))"
    by (rule okO_bindT [OF write_all_len_okO [OF sure assms(3)] write_all_len_emits [OF ws assms(3)]])
      simp
  then show ?thesis using True by (simp add: write_crlf_def)
qed (auto simp: write_crlf_def)

lemma write_headers_okO:
  assumes ws: "write_sink wr good written" and sure: "\<And>e. \<not> refuses wr good e" and good: "good out"
    and "length (headers_out c (hm_iter H h)) \<le> V2_MAX_HBLOCK"
  shows "okO (Some (write_headers H wr out c h))"
  unfolding write_headers_def
proof (rule okO_bindT [OF write_lines_okO [OF ws sure good] write_lines_emits [OF ws good]])
  fix a o1
  assume a: "a = 0 + length (header_lines (hm_iter H h))" and o1: "good o1"
  show "okO (Some (bindT (write_crlf wr c a o1) (\<lambda>sz out.
      if \<not> sz \<le> V2_MAX_HBLOCK then (panic ''assertion failed: size <= V2_MAX_HBLOCK'', out)
      else (Ok sz, out))))"
    by (rule okO_bindT [OF write_crlf_okO [OF ws sure o1] write_crlf_emits [OF ws o1]])
      (use assms(4) a in \<open>auto simp: length_headers_out split: if_splits\<close>)
qed

context olio_files
begin

lemma write_body_okO:
  assumes ws: "write_sink wr good written" and sure: "\<And>e. \<not> refuses wr good e" and good: "good out"
    and ok: "im_ok b" and adv: "\<And>m a. mh_advise fs m a = None"
  shows "okO (write_body fs wr out c b)"
proof -
  obtain x o1 where x: "write_to fs wr b out = Some (x, o1)"
    "emits good written out (im_bytes b) (x, o1)"
    "case x of Inr n \<Rightarrow> n = bi_len b
     | Inl f \<Rightarrow> \<exists>e. f = Fail (BodyIo e) \<and> (refuses wr good e \<or> (\<exists>m a. mh_advise fs m a = Some e))"
    using write_to_emits [OF ws good ok] by blast
  then obtain n where "x = Inr n" using sure adv by (cases x) auto
  then show ?thesis
    using x write_crlf_okO [OF ws sure, of o1 c n] by (simp add: write_body_def)
qed

lemma write_parts_okO:
  assumes ws: "write_sink wr good written" and sure: "\<And>e. \<not> refuses wr good e" and good: "good out"
    and ok: "im_ok (r_req_body rec)" "im_ok (r_res_body rec)"
    and adv: "\<And>m a. mh_advise fs m a = None"
    and range: "head_in_range (payload_head H s_bytes compress rec)"
    and len: "h_len (payload_head H s_bytes compress rec) + 2 \<le> V2_MAX_RECORD"
  shows "okO (write_parts H fs wr compress rec out)"
proof -
  let ?c = "compress = Plain"
  have blocks: "length (headers_out ?c (hm_iter H (r_meta rec))) \<le> V2_MAX_HBLOCK"
    "length (headers_out ?c (hm_iter H (r_req_headers rec))) \<le> V2_MAX_HBLOCK"
    "length (headers_out ?c (hm_iter H (r_res_headers rec))) \<le> V2_MAX_HBLOCK"
    using range by (simp_all add: payload_head_def head_in_range_def Let_def)
  show ?thesis
    unfolding write_parts_def Let_def
  proof (rule okO_bind [OF write_headers_okO [OF ws sure good blocks(1)] write_headers_emits [OF ws good]],
      elim conjE,
      rule okO_bind [OF write_headers_okO [OF ws sure _ blocks(2)] write_headers_emits [OF ws]],
      assumption, assumption, elim conjE,
      rule okO_bind [OF write_body_okO [OF ws sure _ ok(1) adv] write_body_emits [OF ws _ ok(1)]],
      assumption, assumption,
      rule okO_bind [OF write_headers_okO [OF ws sure _ blocks(3)] write_headers_emits [OF ws]],
      assumption, assumption, elim conjE)
    fix meta o1 req_h o2 req_b o3 res_h o4
    assume lens: "meta = length (headers_out ?c (hm_iter H (r_meta rec)))"
      "req_h = length (headers_out ?c (hm_iter H (r_req_headers rec)))"
      "req_b = length (body_out ?c (im_bytes (r_req_body rec)))"
      "res_h = length (headers_out ?c (hm_iter H (r_res_headers rec)))" and good: "good o4"
    have "bi_len (r_res_body rec) \<le> length (body_out ?c (im_bytes (r_res_body rec)))"
      using ok(2) by (simp add: image_ok_def body_out_def)
    then have "meta + req_h + res_h + req_b + bi_len (r_res_body rec) + 2 \<le> V2_MAX_RECORD"
      using len by (simp add: payload_head_def record_payload_def lens Let_def)
    then show "okO (if \<not> meta + req_h + res_h + req_b + bi_len (r_res_body rec) + 2 \<le> V2_MAX_RECORD
        then Some (panic ''body exceeds size limit'', o4)
        else bindO (write_body fs wr o4 ?c (r_res_body rec)) (\<lambda>res_b out.
          Some (Ok \<lparr>h_len = meta + req_h + res_h + req_b + res_b, h_rec_type = r_type rec,
            h_compress = compress, h_meta = meta, h_req_h = req_h, h_req_b = req_b,
            h_res_h = res_h\<rparr>, out)))"
      by (simp del: okO_simps)
        (rule okO_bind [OF write_body_okO [OF ws sure good ok(2) adv] write_body_emits [OF ws good ok(2)]],
         simp)
  qed
qed

end

text \<open>An invariant of the sink that every write keeps is kept by the parts.\<close>

lemma write_all_len_keeps:
  "preserves P wr \<Longrightarrow> P out \<Longrightarrow> keepsO P (Some (write_all_len wr out bs))"
  using preservesD [of P wr out bs]
  by (auto simp: write_all_len_def split: prod.splits sum.splits)

lemma keepsO_bindT:
  "keepsO P (Some m) \<Longrightarrow> (\<And>a o1. P o1 \<Longrightarrow> keepsO P (Some (f a o1))) \<Longrightarrow> keepsO P (Some (bindT m f))"
  unfolding Some_bindT by (rule keepsO_bind)

lemma write_lines_keeps:
  assumes wr: "preserves P wr"
  shows "P out \<Longrightarrow> keepsO P (Some (write_lines wr kvs sz out))"
proof (induction kvs arbitrary: sz out)
  case (Cons kv kvs)
  obtain k v where kv: "kv = (k, v)" by (rule prod.exhaust)
  show ?case
    unfolding kv write_lines.simps
    by (intro keepsO_bindT write_all_len_keeps [OF wr] Cons) assumption+
qed simp

lemma write_crlf_keeps:
  assumes wr: "preserves P wr" and "P out"
  shows "keepsO P (Some (write_crlf wr c sz out))"
proof (cases "c \<and> 0 < sz")
  case True
  have "keepsO P (Some (bindT (write_all_len wr out CRLF) (\<lambda>a out. (Ok (sz + a), out))))"
    by (rule keepsO_bindT [OF write_all_len_keeps [OF wr assms(2)]]) simp_all
  then show ?thesis using True by (simp add: write_crlf_def)
qed (use assms in \<open>auto simp: write_crlf_def\<close>)

lemma write_headers_keeps:
  assumes wr: "preserves P wr" and "P out"
  shows "keepsO P (Some (write_headers H wr out c h))"
  unfolding write_headers_def
  by (rule keepsO_bindT [OF write_lines_keeps [OF wr assms(2)]],
      rule keepsO_bindT [OF write_crlf_keeps [OF wr]]) simp_all

lemma write_each_keeps:
  assumes wr: "preserves P wr"
  shows "P out \<Longrightarrow> P (snd (write_each wr out bs))"
proof (induction bs arbitrary: out)
  case (Cons b bs)
  obtain v o1 where v: "wr out b = (v, o1)" by (rule prod.exhaust)
  then have "P o1" using preservesD [OF wr Cons.prems, of b] by simp
  then show ?case using Cons.IH v by (cases v) auto
qed simp

context olio_files
begin

lemma write_to_keeps:
  assumes wr: "preserves P wr" and out: "P out"
  shows "keepsO P (write_to fs wr b out)"
proof (cases "bi_state b")
  case (Ram v)
  then show ?thesis
    using write_each_keeps [of P wr out v] assms
    by (auto simp: write_to_def keepsO_def split: prod.splits sum.splits)
next
  case (MemMap m)
  then show ?thesis
    using preservesD [OF wr out, of m] out
    by (cases "wr out m"; cases "fst (wr out m)")
      (auto simp: write_to_def tmp_advise_def split: option.splits)
next
  case (FsRead f)
  then show ?thesis
    using pos.io_copy_keeps [of P wr out 0 "rp_new fs f (bi_len b)"] assms
    by (auto simp: write_to_def after_copy_def)
next
  case (FsReadSlice s)
  then show ?thesis
    using slc.io_copy_keeps [of P wr out 0 "rs_clone fs s"] assms
    by (auto simp: write_to_def after_copy_def)
qed

lemma write_body_keeps:
  assumes wr: "preserves P wr" and "P out"
  shows "keepsO P (write_body fs wr out c b)"
  unfolding write_body_def
  by (rule keepsO_bind, rule keepsO_map_err [THEN iffD2], rule write_to_keeps [OF wr assms(2)],
      rule write_crlf_keeps [OF wr])

lemma write_parts_keeps:
  assumes wr: "preserves P wr" and "P out"
  shows "keepsO P (write_parts H fs wr compress rec out)"
  unfolding write_parts_def Let_def
  by (rule keepsO_bind, rule write_headers_keeps [OF wr assms(2)],
      rule keepsO_bind, rule write_headers_keeps [OF wr], assumption,
      rule keepsO_bind, rule write_body_keeps [OF wr], assumption,
      rule keepsO_bind, rule write_headers_keeps [OF wr], assumption)
    (auto intro!: keepsO_bind write_body_keeps wr)

end

lemma seek_file_cases:
  obtains (ok) n w' where "seek_file sf (f, w) = (Ok n, (f\<lparr>fpos := n\<rparr>, w'))" "int n = seek_target f sf"
      "calm w \<longrightarrow> calm w'"
  | (fail) e w' where "seek_file sf (f, w) = (Err (Io e), (f, w'))"
      "\<not> calm w \<or> seek_target f sf < 0"
proof -
  show ?thesis
  proof (cases w)
    case Nil
    then show ?thesis
      using ok [of "nat (seek_target f sf)" "[]"] fail [of InvalidInput "[]"]
      by (cases "seek_target f sf < 0") (auto simp: seek_file_def Let_def)
  next
    case (Cons s w')
    then show ?thesis
      using ok [of "nat (seek_target f sf)" w'] fail [of InvalidInput w'] fail [of _ w']
      by (cases s; cases "seek_target f sf < 0") (auto simp: seek_file_def Let_def)
  qed
qed

text \<open>The states of the file's tail during a write.\<close>

definition write_state :: "bytes \<Rightarrow> bool" where
  "write_state tail \<longleftrightarrow>
     (\<exists>n. tail = take n (head_bytes V2_RESERVE_HEAD)) \<or>
     (\<exists>junk. tail = head_bytes V2_RESERVE_HEAD @ junk) \<or>
     (\<exists>h n junk. head_in_range h \<and> h_len h = length junk \<and> n \<le> V2_HEAD_SIZE \<and>
        tail = take n (head_bytes h) @ drop n (head_bytes V2_RESERVE_HEAD) @ junk)"

lemma length_reserve: "length (head_bytes V2_RESERVE_HEAD) = V2_HEAD_SIZE"
  by (rule length_head_bytes) simp

lemma commit_head_cases:
  assumes c: "content f = c @ head_bytes V2_RESERVE_HEAD @ junk"
  shows "\<exists>x f' w' n. commit_head (length c) h (f, w) = Some (x, (f', w')) \<and> n \<le> V2_HEAD_SIZE \<and>
    (head_in_range h \<or> n = 0) \<and>
    content f' = c @ take n (head_bytes h) @ drop n (head_bytes V2_RESERVE_HEAD) @ junk \<and>
    (\<forall>s. x = Ok s \<longrightarrow> s = length c \<and> n = V2_HEAD_SIZE \<and> head_in_range h \<and> fpos f' = length (content f'))"
proof (cases rule: seek_file_cases [of "SeekStart (length c)" f w])
  case (fail e w')
  then have "commit_head (length c) h (f, w) = Some (Err (Io e), (f, w'))"
    by (simp add: commit_head_def)
  then show ?thesis using c by (intro exI [of _ "Err (Io e)"] exI [of _ f] exI [of _ w'] exI [of _ 0]) simp
next
  case (ok m w1)
  let ?f = "f\<lparr>fpos := length c\<rparr>"
  have m: "m = length c" using ok(2) by simp
  show ?thesis
  proof (cases "head_in_range h")
    case False
    then obtain msg where "write_record_head file_write_all (?f, w1) h = (panic msg, (?f, w1))"
      using write_record_head_out_of_range [OF False, of file_write_all "(?f, w1)"] by (elim exE)
    then have eq: "commit_head (length c) h (f, w) = Some (panic msg, (?f, w1))"
      using ok(1) m by (simp add: commit_head_def)
    show ?thesis
      unfolding eq
      by (intro exI [of _ "panic msg"] exI [of _ ?f] exI [of _ w1] exI [of _ 0]) (simp add: c)
  next
    case True
    then have len: "length (head_bytes h) = V2_HEAD_SIZE" by (rule length_head_bytes)
    have "\<exists>x fw' n. file_write_all (?f, w1) (head_bytes h) = (x, fw') \<and>
        n \<le> length (head_bytes h) \<and>
        content (fst fw') = c @ take n (head_bytes h) @ drop n (head_bytes V2_RESERVE_HEAD) @ junk \<and>
        (\<forall>u. x = Inr u \<longrightarrow> n = length (head_bytes h))"
      by (rule file_write_all_over) (simp_all add: c len length_reserve)
    then obtain x fw' n where wr: "file_write_all (?f, w1) (head_bytes h) = (x, fw')"
      "n \<le> V2_HEAD_SIZE"
      "content (fst fw') = c @ take n (head_bytes h) @ drop n (head_bytes V2_RESERVE_HEAD) @ junk"
      "\<forall>u. x = Inr u \<longrightarrow> n = V2_HEAD_SIZE"
      unfolding len by blast
    obtain f2 w2 where fw': "fw' = (f2, w2)" by (rule prod.exhaust)
    show ?thesis
    proof (cases x)
      case (Inl e)
      then show ?thesis
        using ok(1) m wr True fw'
        by (auto simp: commit_head_def write_record_head_in_range write_all_len_def)
    next
      case (Inr u)
      have "write_record_head file_write_all (?f, w1) h = (Ok (), (f2, w2))"
        using wr True Inr fw' by (simp add: write_record_head_in_range write_all_len_def)
      then show ?thesis
        using ok(1) m wr True Inr fw'
        by (cases rule: seek_file_cases [of "SeekEnd 0" f2 w2]) (auto simp: commit_head_def)
    qed
  qed
qed

lemma write_state_simps [intro]:
  "write_state []" "write_state (take n (head_bytes V2_RESERVE_HEAD))"
  "write_state (head_bytes V2_RESERVE_HEAD @ junk)"
  unfolding write_state_def by (metis take0, blast+)

lemma reserve_head_cases:
  assumes "at_end (f, w)"
  obtains (fail) e k f' w' where
      "write_record_head file_write_all (f, w) V2_RESERVE_HEAD = (Err (Io e), (f', w'))"
      "content f' = content f @ take k (head_bytes V2_RESERVE_HEAD)" "\<not> calm w"
  | (ok) f' w' where
      "write_record_head file_write_all (f, w) V2_RESERVE_HEAD = (Ok (), (f', w'))"
      "content f' = content f @ head_bytes V2_RESERVE_HEAD" "at_end (f', w')"
      "calm w \<longrightarrow> calm w'"
proof (cases "file_write_all (f, w) (head_bytes V2_RESERVE_HEAD)")
  case (fields x f' w')
  have c: "calm w \<longrightarrow> x = Inr () \<and> calm w'"
    using file_write_all_calm [of "(f, w)" "head_bytes V2_RESERVE_HEAD"] fields by auto
  show ?thesis
    using fail [of _ f' w'] ok [of f' w'] fields c
      file_write_all_end [OF assms, of "head_bytes V2_RESERVE_HEAD"]
    by (cases x) (auto simp: write_record_head_in_range write_all_len_def)
qed

lemma complete_write_cases:
  assumes c: "content f = c @ head_bytes V2_RESERVE_HEAD @ junk" and pos: "fpos f = length (content f)"
  shows "\<exists>x f' w' tail. complete_write (length c) h (f, w) = Some (x, (f', w')) \<and>
    content f' = c @ tail \<and> write_state tail \<and>
    (\<forall>s. x = Ok s \<longrightarrow> s = length c \<and> fpos f' = length (content f') \<and>
       head_in_range (h\<lparr>h_len := length junk\<rparr>) \<and>
       (h_compress h = Plain \<longrightarrow> h_len h = length junk) \<and>
       tail = head_bytes (h\<lparr>h_len := length junk\<rparr>) @ junk)"
proof (cases rule: seek_file_cases [of "SeekCurrent 0" f w])
  case (fail e w')
  then show ?thesis using c by (auto simp: complete_write_def)
next
  case (ok fin w4)
  let ?R = "head_bytes V2_RESERVE_HEAD"
  let ?h = "h\<lparr>h_len := length junk\<rparr>" and ?f3 = "f\<lparr>fpos := fin\<rparr>"
  have fin: "fin = length c + V2_HEAD_SIZE + length junk"
    using ok(2) c pos length_reserve by simp
  show ?thesis
  proof (cases "h_compress h = Plain \<and> h_len h \<noteq> length junk")
    case True
    then show ?thesis using ok(1) fin c by (auto simp: complete_write_def Let_def)
  next
    case False
    have eq: "complete_write (length c) h (f, w) = commit_head (length c) ?h (?f3, w4)"
      using ok(1) fin False by (auto simp: complete_write_def Let_def)
    have "content ?f3 = c @ ?R @ junk" using c by simp
    from commit_head_cases [OF this, of ?h w4] obtain v f5 w5 m where m:
      "commit_head (length c) ?h (?f3, w4) = Some (v, (f5, w5))" "m \<le> V2_HEAD_SIZE"
      "head_in_range ?h \<or> m = 0"
      "content f5 = c @ take m (head_bytes ?h) @ drop m ?R @ junk"
      "\<forall>s. v = Ok s \<longrightarrow> s = length c \<and> m = V2_HEAD_SIZE \<and> head_in_range ?h \<and>
         fpos f5 = length (content f5)"
      by blast
    have st: "write_state (take m (head_bytes ?h) @ drop m ?R @ junk)"
    proof (cases "m = 0")
      case False
      then have "head_in_range ?h" using m(3) by simp
      moreover have "h_len ?h = length junk" by simp
      ultimately show ?thesis using m(2) unfolding write_state_def by blast
    qed auto
    have fin_tail: "take m (head_bytes ?h) @ drop m ?R @ junk = head_bytes ?h @ junk"
      if "m = V2_HEAD_SIZE" "head_in_range ?h"
      using that length_head_bytes [OF that(2)] length_reserve by simp
    show ?thesis
    proof (intro exI conjI)
      show "complete_write (length c) h (f, w) = Some (v, (f5, w5))"
        using eq m(1) by simp
      show "content f5 = c @ take m (head_bytes ?h) @ drop m ?R @ junk" by (rule m(4))
      show "write_state (take m (head_bytes ?h) @ drop m ?R @ junk)" by (rule st)
      show "\<forall>s. v = Ok s \<longrightarrow> s = length c \<and> fpos f5 = length (content f5) \<and> head_in_range ?h \<and>
          (h_compress h = Plain \<longrightarrow> h_len h = length junk) \<and>
          take m (head_bytes ?h) @ drop m ?R @ junk = head_bytes ?h @ junk"
        using m(5) fin_tail False by blast
    qed
  qed
qed

lemma calm_seek:
  assumes "calm w" and "0 \<le> seek_target f sf"
  obtains w' where
    "seek_file sf (f, w) = (Ok (nat (seek_target f sf)), (f\<lparr>fpos := nat (seek_target f sf)\<rparr>, w'))"
    "calm w'"
proof (cases rule: seek_file_cases [of sf f w])
  case (ok n w')
  then have "n = nat (seek_target f sf)" by (metis nat_int)
  then show ?thesis using ok that assms(1) by blast
next
  case (fail e w')
  then show ?thesis using assms by simp
qed

lemma complete_write_ok:
  assumes c: "content f = c @ head_bytes V2_RESERVE_HEAD @ junk" and pos: "fpos f = length (content f)"
    and calm: "calm w" and range: "head_in_range (h\<lparr>h_len := length junk\<rparr>)"
    and plain: "h_compress h = Plain \<longrightarrow> h_len h = length junk"
  shows "\<exists>f' w'. complete_write (length c) h (f, w) = Some (Ok (length c), (f', w')) \<and> calm w'"
proof -
  let ?h = "h\<lparr>h_len := length junk\<rparr>"
  let ?fin = "length c + V2_HEAD_SIZE + length junk"
  have fin: "seek_target f (SeekCurrent 0) = int ?fin"
    using c pos length_reserve by simp
  obtain w1 where s1: "seek_file (SeekCurrent 0) (f, w) = (Ok ?fin, (f\<lparr>fpos := ?fin\<rparr>, w1))" "calm w1"
    using calm_seek [OF calm, of f "SeekCurrent 0"] unfolding fin nat_int by auto
  obtain w2 where s2: "seek_file (SeekStart (length c)) (f\<lparr>fpos := ?fin\<rparr>, w1) =
      (Ok (length c), (f\<lparr>fpos := ?fin\<rparr>\<lparr>fpos := length c\<rparr>, w2))" "calm w2"
    using calm_seek [OF s1(2), of "f\<lparr>fpos := ?fin\<rparr>" "SeekStart (length c)"] by auto
  obtain f3 w3 where s3: "file_write_all (f\<lparr>fpos := ?fin\<rparr>\<lparr>fpos := length c\<rparr>, w2) (head_bytes ?h) =
      (Inr (), (f3, w3))" "calm w3"
    using file_write_all_calm [of "(f\<lparr>fpos := ?fin\<rparr>\<lparr>fpos := length c\<rparr>, w2)" "head_bytes ?h"] s2(2)
    by (metis prod.collapse snd_conv)
  then have wh: "write_record_head file_write_all (f\<lparr>fpos := ?fin\<rparr>\<lparr>fpos := length c\<rparr>, w2) ?h =
      (Ok (), (f3, w3))"
    using range by (simp add: write_record_head_in_range write_all_len_def)
  let ?f4 = "f3\<lparr>fpos := length (content f3)\<rparr>"
  obtain w4 where s4: "seek_file (SeekEnd 0) (f3, w3) = (Ok (length (content f3)), (?f4, w4))" "calm w4"
    using calm_seek [OF s3(2), of f3 "SeekEnd 0"] by auto
  have "commit_head (length c) ?h (f\<lparr>fpos := ?fin\<rparr>, w1) = Some (Ok (length c), (?f4, w4))"
    using s2(1) wh s4(1) by (simp add: commit_head_def)
  then show ?thesis
    using s1(1) plain s4(2) by (auto simp: complete_write_def Let_def)
qed

lemma write_parts_head:
  "write_parts H fs wr compress rec out = Some (Ok h, out') \<Longrightarrow>
     h_rec_type h = r_type rec \<and> h_compress h = compress"
  by (auto simp: write_parts_def Let_def bindO_Inr_iff split: if_splits)

lemma write_record_head_of:
  "write_record H fs cs st rec fw = Some (Ok h, fw') \<Longrightarrow>
     h_rec_type h = r_type rec \<and> h_compress h = encode_mode (wrap_encoder H cs st rec)"
  by (auto simp: write_record_def Let_def dest!: write_parts_head
      split: option.splits prod.splits sum.splits)

locale record_writer =
  olio_files fs p_bytes p_patience s_bytes s_off s_patience g_bytes g_off g_patience +
  codecs: appending_codecs cs
  for fs :: "('p, 's, 'g) olio" and p_bytes p_patience s_bytes s_off s_patience
    and g_bytes g_off g_patience and cs :: "'z codecs"
begin

lemma write_record_extends:
  "\<exists>x fw'. write_record H fs cs st rec fw = Some (x, fw') \<and> extends fw fw'"
proof -
  let ?e = "wrap_encoder H cs st rec"
  have "keepsO (\<lambda>efw. extends fw (snd efw))
      (write_parts H fs (encode_write cs) (encode_mode ?e) rec (?e, fw))"
  proof (rule write_parts_keeps)
    show "preserves (\<lambda>efw. extends fw (snd efw)) (encode_write cs)"
      unfolding preserves_def
    proof (intro allI impI)
      fix efw :: "'z encode_wrapper \<times> file_world" and bs
      assume h: "extends fw (snd efw)"
      obtain v e fw' where "encode_write cs (fst efw, snd efw) bs = (v, (e, fw'))"
        by (metis prod.exhaust)
      moreover from this have "extends (snd efw) fw'"
        by (rule codecs.encode_write_extends)
      ultimately show "extends fw (snd (snd (encode_write cs efw bs)))"
        using extends_trans [OF h] by simp
    qed
  qed simp
  then obtain x e' fw' where p:
    "write_parts H fs (encode_write cs) (encode_mode ?e) rec (?e, fw) = Some (x, (e', fw'))"
    "extends fw fw'"
    by (auto simp: keepsO_def)
  show ?thesis
  proof (cases x)
    case (Inl f)
    then show ?thesis
      using p extends_trans [OF p(2) codecs.encode_drop_extends] by (simp add: write_record_def)
  next
    case (Inr h)
    then show ?thesis
      using p extends_trans [OF p(2)] codecs.encode_finish_extends [of e' fw']
      by (cases "encode_finish cs (e', fw')"; cases "fst (encode_finish cs (e', fw'))")
        (auto simp: write_record_def)
  qed
qed

text \<open>
  What \<open>write\<close> leaves, in any world. On a success the record is what \<open>write_record\<close>
  appended, and the head is the one it returned, with the observed length.
\<close>

lemma barc_write_cases:
  "\<exists>x f' w' tail. barc_write H fs cs st rec (f, w) = Some (x, (f', w')) \<and>
     content f' = content f @ tail \<and> write_state tail \<and>
     (\<forall>start. x = Ok start \<longrightarrow> start = length (content f) \<and> fpos f' = length (content f') \<and>
        (\<exists>fw1 fw2 h junk. at_end fw1 \<and> (calm w \<longrightarrow> calm (snd fw1)) \<and>
           write_record H fs cs st rec fw1 = Some (Ok h, fw2) \<and>
           content (fst fw2) = content (fst fw1) @ junk \<and>
           head_in_range (h\<lparr>h_len := length junk\<rparr>) \<and>
           (h_compress h = Plain \<longrightarrow> h_len h = length junk) \<and>
           tail = head_bytes (h\<lparr>h_len := length junk\<rparr>) @ junk))"
proof (cases rule: seek_file_cases [of "SeekEnd 0" f w])
  case (fail e w')
  then show ?thesis by (auto simp: barc_write_def)
next
  case seek: (ok n w1)
  let ?f = "f\<lparr>fpos := n\<rparr>"
  have n: "n = length (content f)" using seek(2) by simp
  have "at_end (?f, w1)" by (simp add: at_end_def n)
  then show ?thesis
  proof (cases rule: reserve_head_cases)
    case (fail e k f' w')
    then show ?thesis using seek(1) by (auto simp: barc_write_def)
  next
    case (ok f2 w2)
    have calm: "calm w \<longrightarrow> calm (snd (f2, w2))" using seek(3) ok(4) by simp
    obtain y f3 w3 where y: "write_record H fs cs st rec (f2, w2) = Some (y, (f3, w3))"
      "extends (f2, w2) (f3, w3)"
      using write_record_extends [of H st rec "(f2, w2)"] by auto
    then obtain junk where f3: "content f3 = content f @ head_bytes V2_RESERVE_HEAD @ junk"
      "content f3 = content f2 @ junk" "fpos f3 = length (content f3)"
      using ok by (auto simp: extends_def at_end_def)
    show ?thesis
    proof (cases y)
      case (Inl z)
      then show ?thesis using seek(1) ok(1) y(1) f3 by (auto simp: barc_write_def)
    next
      case (Inr h)
      have "barc_write H fs cs st rec (f, w) = complete_write (length (content f)) h (f3, w3)"
        using seek(1) ok(1) y(1) Inr n by (simp add: barc_write_def)
      then show ?thesis
        using complete_write_cases [OF f3(1,3), of h w3] ok(3) y(1) Inr f3(2) calm
        by (fastforce simp del: append_assoc)
    qed
  qed
qed

text \<open>The uncompressed encoder is the file itself.\<close>

definition plain_at :: "(file_world \<Rightarrow> bool) \<Rightarrow> 'z encode_wrapper \<times> file_world \<Rightarrow> bool" where
  "plain_at P efw \<longleftrightarrow> fst efw = EncPlain \<and> P (snd efw)"

lemma plain_sink:
  assumes "write_sink file_write_all P (\<lambda>fw. content (fst fw))"
  shows "write_sink (encode_write cs) (plain_at P) (\<lambda>efw. content (fst (snd efw)))"
proof
  fix efw bs u efw'
  assume "encode_write cs efw bs = (Inr u, efw')" and "plain_at P efw"
  then show "plain_at P efw' \<and> content (fst (snd efw')) = content (fst (snd efw)) @ bs"
    using write_sink.write_ok [OF assms, of "snd efw" bs]
    by (cases efw) (auto simp: plain_at_def split: prod.splits)
next
  fix efw bs e efw'
  assume "encode_write cs efw bs = (Inl e, efw')" and "plain_at P efw"
  then show "plain_at P efw' \<and> (\<exists>n. content (fst (snd efw')) = content (fst (snd efw)) @ take n bs)"
    using write_sink.write_err [OF assms, of "snd efw" bs]
    by (cases efw) (auto simp: plain_at_def split: prod.splits)
qed

lemma plain_refuses:
  assumes "\<And>e. \<not> refuses file_write_all P e"
  shows "\<not> refuses (encode_write cs) (plain_at P) e"
proof
  assume "refuses (encode_write cs) (plain_at P) e"
  then obtain fw bs where "P fw" "fst (encode_write cs (EncPlain, fw) bs) = Inl e"
    unfolding refuses_def plain_at_def by (metis prod.collapse)
  then have "P fw" "fst (file_write_all fw bs) = Inl e"
    by (cases "file_write_all fw bs", simp)+
  then show False using assms unfolding refuses_def by blast
qed

lemma write_record_plain:
  assumes enc: "wrap_encoder H cs st rec = EncPlain" and "at_end fw"
    and ok: "im_ok (r_req_body rec)" "im_ok (r_res_body rec)"
    and w: "write_record H fs cs st rec fw = Some (Ok h, fw')"
  shows "h = payload_head H s_bytes Plain rec \<and>
    content (fst fw') = content (fst fw) @ record_payload H s_bytes True rec"
proof -
  have "plain_at at_end (EncPlain, fw)" using assms(2) by (simp add: plain_at_def)
  from write_parts_emits [OF plain_sink [OF file_end.write_sink_axioms] this ok, of H Plain]
  obtain x efw where x: "write_parts H fs (encode_write cs) Plain rec (EncPlain, fw) = Some (x, efw)"
    "emits (plain_at at_end) (\<lambda>efw. content (fst (snd efw))) (EncPlain, fw)
       (record_payload H s_bytes True rec) (x, efw)"
    "\<forall>a. x = Inr a \<longrightarrow> a = payload_head H s_bytes Plain rec"
    by (auto simp: emitsO_def)
  obtain e fw2 where efw: "efw = (e, fw2)" by (rule prod.exhaust)
  show ?thesis
    using w x efw by (cases x) (auto simp: write_record_def enc plain_at_def)
qed

lemma write_record_plain_ok:
  assumes enc: "wrap_encoder H cs st rec = EncPlain" and "calm_end fw"
    and ok: "im_ok (r_req_body rec)" "im_ok (r_res_body rec)"
    and adv: "\<And>m a. mh_advise fs m a = None"
    and range: "head_in_range (payload_head H s_bytes Plain rec)"
    and len: "h_len (payload_head H s_bytes Plain rec) + 2 \<le> V2_MAX_RECORD"
  shows "\<exists>fw'. write_record H fs cs st rec fw = Some (Ok (payload_head H s_bytes Plain rec), fw') \<and>
    calm_end fw'"
proof -
  have g: "plain_at calm_end (EncPlain, fw)" using assms(2) by (simp add: plain_at_def)
  note ws = plain_sink [OF calm_file.write_sink_axioms]
  have "okO (write_parts H fs (encode_write cs) Plain rec (EncPlain, fw))"
    by (rule write_parts_okO [OF ws plain_refuses g ok adv range len]) simp
  then obtain h efw where x: "write_parts H fs (encode_write cs) Plain rec (EncPlain, fw) = Some (Ok h, efw)"
    by (auto simp: okO_def)
  have "plain_at calm_end efw" and "h = payload_head H s_bytes Plain rec"
    using write_parts_emits [OF ws g ok, of H Plain] x by (auto simp: emitsO_def dest: emits_good)
  then show ?thesis
    using x by (cases efw) (auto simp: write_record_def enc plain_at_def)
qed

text \<open>An uncompressed record: what a successful write has left, and that a write succeeds.\<close>

lemma barc_write_plain:
  assumes enc: "wrap_encoder H cs st rec = EncPlain"
    and ok: "im_ok (r_req_body rec)" "im_ok (r_res_body rec)"
    and w: "barc_write H fs cs st rec (f, w) = Some (Ok start, (f', w'))"
  shows "start = length (content f)" and "fpos f' = length (content f')"
    and "head_in_range (payload_head H s_bytes Plain rec)"
    and "content f' = content f @ head_bytes (payload_head H s_bytes Plain rec) @
      record_payload H s_bytes True rec"
proof -
  obtain tail fw1 fw2 h junk where *: "start = length (content f)" "fpos f' = length (content f')"
    "content f' = content f @ tail" "at_end fw1" "write_record H fs cs st rec fw1 = Some (Ok h, fw2)"
    "content (fst fw2) = content (fst fw1) @ junk" "head_in_range (h\<lparr>h_len := length junk\<rparr>)"
    "tail = head_bytes (h\<lparr>h_len := length junk\<rparr>) @ junk"
    using barc_write_cases [of H st rec f w] w by auto
  have h: "h = payload_head H s_bytes Plain rec" and junk: "junk = record_payload H s_bytes True rec"
    using write_record_plain [OF enc *(4) ok *(5)] *(6) by auto
  have "h\<lparr>h_len := length junk\<rparr> = h"
    by (simp add: h junk payload_head_def Let_def)
  then show "start = length (content f)" and "fpos f' = length (content f')"
    and "head_in_range (payload_head H s_bytes Plain rec)"
    and "content f' = content f @ head_bytes (payload_head H s_bytes Plain rec) @
      record_payload H s_bytes True rec"
    using * h junk by simp_all
qed

lemma barc_write_ok:
  assumes enc: "wrap_encoder H cs st rec = EncPlain"
    and ok: "im_ok (r_req_body rec)" "im_ok (r_res_body rec)"
    and calm: "calm w" and adv: "\<And>m a. mh_advise fs m a = None"
    and range: "head_in_range (payload_head H s_bytes Plain rec)"
    and len: "h_len (payload_head H s_bytes Plain rec) + 2 \<le> V2_MAX_RECORD"
  shows "\<exists>f' w'. barc_write H fs cs st rec (f, w) = Some (Ok (length (content f)), (f', w')) \<and> calm w'"
proof -
  let ?h = "payload_head H s_bytes Plain rec" and ?f = "f\<lparr>fpos := length (content f)\<rparr>"
  obtain w1 where s1: "seek_file (SeekEnd 0) (f, w) = (Ok (length (content f)), (?f, w1))" "calm w1"
    using calm_seek [OF calm, of f "SeekEnd 0"] by auto
  have "at_end (?f, w1)" by (simp add: at_end_def)
  then obtain f2 w2 where r:
    "write_record_head file_write_all (?f, w1) V2_RESERVE_HEAD = (Ok (), (f2, w2))"
    "content f2 = content f @ head_bytes V2_RESERVE_HEAD" "at_end (f2, w2)" "calm w2"
    by (cases rule: reserve_head_cases) (use s1(2) in auto)
  have ce: "calm_end (f2, w2)" using r by (simp add: calm_end_def)
  obtain f3 w3 where w: "write_record H fs cs st rec (f2, w2) = Some (Ok ?h, (f3, w3))" "calm_end (f3, w3)"
    using write_record_plain_ok [OF enc ce ok adv range len] by auto
  have c3: "content f3 = content f @ head_bytes V2_RESERVE_HEAD @ record_payload H s_bytes True rec"
    using write_record_plain [OF enc r(3) ok w(1)] r(2) by simp
  have p3: "fpos f3 = length (content f3)" "calm w3"
    using w(2) by (simp_all add: calm_end_def at_end_def)
  have l: "h_len ?h = length (record_payload H s_bytes True rec)"
    by (simp add: payload_head_def Let_def)
  then have "head_in_range (?h\<lparr>h_len := length (record_payload H s_bytes True rec)\<rparr>)"
    using range by (simp add: head_in_range_def)
  from complete_write_ok [OF c3 p3 this] l show ?thesis
    using s1(1) r(1) w(1) by (auto simp: barc_write_def)
qed

end

end
