(* ===== verification/Barc_Read.thy ===== *)
theory Barc_Read
  imports Barc_Write Image_Read
begin

text \<open>
  Reading records (\<^verbatim>\<open>barc/src/lib.rs\<close>): header blocks, bodies read into RAM, sliced from the
  file or copied to a temporary one, and \<^verbatim>\<open>BarcReader\<close>, plain and compressed.

  The lemmas show that what \<open>Barc_Write\<close> writes is read back, what a reader makes of every
  state that a write can leave, and which malformed heads make the reader panic.
\<close>

section \<open>Header blocks\<close>

fun append_headers ::
  "'h http \<Rightarrow> 'h \<Rightarrow> (bytes \<times> bytes) list \<Rightarrow> (barc_error, 'h) result" where
  "append_headers H hmap [] = Ok hmap"
| "append_headers H hmap ((n, v) # heads) =
     (case hn_parse H n of
        Inl e \<Rightarrow> Err (InvalidHeader e)
      | Inr name \<Rightarrow>
          (case hv_from_bytes H v of
             Inl e \<Rightarrow> Err (InvalidHeader e)
           | Inr val \<Rightarrow> append_headers H (hm_append H hmap name val) heads))"

definition parse_headers :: "'h http \<Rightarrow> bytes \<Rightarrow> (barc_error, 'h) result" where
  "parse_headers H buf =
     (case ht_parse H 128 buf of
        HtComplete sz heads \<Rightarrow>
          (if sz \<noteq> length buf then panic ''assertion failed: size == buf.len()''
           else append_headers H (hm_new H) heads)
      | HtPartial \<Rightarrow> Err (InvalidHeader (ht_too_many H))
      | HtError e \<Rightarrow> Err (InvalidHeader e))"

text \<open>
  \<^verbatim>\<open>rin.read_exact(&mut b[..len])\<close> into a new buffer of capacity \<open>cap\<close>; the slice panics
  when the buffer is shorter. Returns the buffer, whose length is not yet advanced.
\<close>

definition read_into ::
  "'b bytes_mut \<Rightarrow> 'r reader \<Rightarrow> nat \<Rightarrow> nat \<Rightarrow> 'r \<Rightarrow> (barc_error, 'b \<times> bytes, 'r) outcome" where
  "read_into bm rd cap len r =
     (case bm_chunk bm (bm_new bm cap) of (k, buf) \<Rightarrow>
        if \<not> len \<le> k then Some (panic ''range end index out of range for slice'', r)
        else bindO (map_errO Io (read_exact rd r len)) (\<lambda>bs r. Some (Ok (buf, bs), r)))"

definition read_headers ::
  "'h http \<Rightarrow> 'b bytes_mut \<Rightarrow> 'r reader \<Rightarrow> bool \<Rightarrow> nat \<Rightarrow> 'r \<Rightarrow> (barc_error, 'h, 'r) outcome" where
  "read_headers H bm rd with_crlf len r =
     (if len = 0 then Some (Ok (hm_new H), r)
      else if \<not> 2 < len then Some (panic ''assertion failed: len > 2'', r)
      else
        let tlen = if with_crlf then len else len + 2
        in bindO (read_into bm rd tlen len r) (\<lambda>(buf, bs) r.
             let buf = bm_advance bm buf bs;
                 buf = if \<not> with_crlf then bm_put bm buf CRLF else buf
             in Some (parse_headers H (bm_bytes bm buf), r)))"

section \<open>Bodies\<close>

definition read_body_ram ::
  "'b bytes_mut \<Rightarrow> 'r reader \<Rightarrow> bool \<Rightarrow> nat \<Rightarrow> 'r \<Rightarrow> (barc_error, 's body_image, 'r) outcome" where
  "read_body_ram bm rd with_crlf len r =
     (if len = 0 then Some (Ok image_empty, r)
      else if \<not> (\<not> with_crlf \<or> 2 < len)
      then Some (panic ''assertion failed: !with_crlf || len > 2'', r)
      else
        bindO (read_into bm rd len len r) (\<lambda>(buf, bs) r.
          let l = if with_crlf then len - 2 else len
          in Some (map_err Body (image_from_slice (bm_bytes bm (bm_advance bm buf (take l bs)))), r)))"

text \<open>The body stays in the file; \<open>chk\<close> is the build's overflow checking.\<close>

definition slice_body ::
  "('p, 's, 'g) olio \<Rightarrow> bool \<Rightarrow> 'p \<Rightarrow> nat \<Rightarrow> (barc_error, 's body_image, 'p) outcome" where
  "slice_body fs chk rp len =
     (if \<not> 2 < len then Some (panic ''assertion failed: len > 2'', rp)
      else
        let offset = rp_tell fs rp
        in case rp_seek fs rp (SeekCurrent (as_i64 len)) of
             (Inl e, rp') \<Rightarrow> Some (Err (Io e), rp')
           | (Inr n, rp') \<Rightarrow>
               Some (bindR (u64_add chk offset len) (\<lambda>x.
                     bindR (u64_sub chk x 2) (\<lambda>fin.
                       Ok (image_from_read_slice fs (rp_subslice fs rp' offset fin)))), rp'))"

text \<open>
  The loop of \<^verbatim>\<open>read_body_fs\<close>, at whose head the buffer is empty: each read is limited to
  what the body still needs.
\<close>

partial_function (option) read_body_fs_loop ::
  "'b bytes_mut \<Rightarrow> 'r reader \<Rightarrow> nat \<Rightarrow> 'b \<Rightarrow> body_sink \<Rightarrow> 'r \<Rightarrow> io_script
     \<Rightarrow> (barc_error, 's body_image, 'r \<times> io_script) outcome" where
  "read_body_fs_loop bm rd len buf body r w =
     (case bm_chunk bm buf of (k, buf) \<Rightarrow>
      let lim = min k (len - bs_len body) in
      if \<not> 0 < lim then Some (panic ''assertion failed: limit > 0'', (r, w))
      else (case rd r lim of
         (Inl e, r') \<Rightarrow>
           if e = Interrupted then read_body_fs_loop bm rd len buf body r' w
           else Some (Err (Io e), (r', w))
       | (Inr bs, r') \<Rightarrow>
           if bs = []
           then (case prepare body w of (x, w') \<Rightarrow> Some (map_err Body x, (r', w')))
           else (case sink_write_all body (bm_bytes bm (bm_advance bm buf bs)) w of
               (Inl x, (body', w')) \<Rightarrow> Some (Inl (case x of Panic m \<Rightarrow> Panic m | Fail e \<Rightarrow> Fail (Io e)), (r', w'))
             | (Inr u, (body', w')) \<Rightarrow>
                 if bs_len body' < len
                 then read_body_fs_loop bm rd len (bm_clear bm (bm_advance bm buf bs)) body' r' w'
                 else if bs_len body' \<noteq> len
                 then Some (panic ''assertion failed: body.len() == len'', (r', w'))
                 else (case prepare body' w' of (x, w'') \<Rightarrow> Some (map_err Body x, (r', w''))))))"

definition read_body_fs ::
  "'b bytes_mut \<Rightarrow> 'r reader \<Rightarrow> temp_fn \<Rightarrow> tunables \<Rightarrow> nat \<Rightarrow> 'r \<Rightarrow> io_script
     \<Rightarrow> (barc_error, 's body_image, 'r \<times> io_script) outcome" where
  "read_body_fs bm rd tmp tune len r w =
     (if len = 0 then Some (Ok image_empty, (r, w))
      else case sink_with_fs tmp (temp_dir tune) w of
          (Inl x, w') \<Rightarrow> Some (map_err Body (Inl x), (r, w'))
        | (Inr body, w') \<Rightarrow> read_body_fs_loop bm rd len (bm_new bm (buffer_size_fs tune)) body r w')"

section \<open>Decoders\<close>

record ('s, 'd) decoder_ops =
  de_new :: "'s \<Rightarrow> nat \<Rightarrow> 'd"
  de_read :: "'d reader"

record ('s, 'd) decoders =
  gzd :: "('s, 'd) decoder_ops"
  brd :: "('s, 'd) decoder_ops"

datatype 'd decode_wrapper = DecGzip 'd | DecBrotli 'd

definition decode_new ::
  "('s, 'd) decoders \<Rightarrow> compression \<Rightarrow> 's \<Rightarrow> nat \<Rightarrow> (barc_error, 'd decode_wrapper) result" where
  "decode_new ds mode r buf_size =
     (case mode of
        Gzip \<Rightarrow> Ok (DecGzip (de_new (gzd ds) r buf_size))
      | Brotli \<Rightarrow> Ok (DecBrotli (de_new (brd ds) r buf_size))
      | Plain \<Rightarrow> Err (DecoderUnsupported mode))"

fun decode_read :: "('s, 'd) decoders \<Rightarrow> 'd decode_wrapper reader" where
  "decode_read ds (DecGzip d) k = (case de_read (gzd ds) d k of (v, d') \<Rightarrow> (v, DecGzip d'))"
| "decode_read ds (DecBrotli d) k = (case de_read (brd ds) d k of (v, d') \<Rightarrow> (v, DecBrotli d'))"

text \<open>An instance: decoders that return the stored bytes as they are.\<close>

definition identity_decoder :: "(cursor \<times> nat, cursor \<times> nat) decoder_ops" where
  "identity_decoder = \<lparr>de_new = (\<lambda>s n. s), de_read = slice_read\<rparr>"

definition identity_decoders :: "(cursor \<times> nat, cursor \<times> nat) decoders" where
  "identity_decoders = \<lparr>gzd = identity_decoder, brd = identity_decoder\<rparr>"

section \<open>Records\<close>

text \<open>A call without the file system, run with the script kept beside it.\<close>

definition lift_io ::
  "('e, 'a, 'r) outcome \<Rightarrow> io_script \<Rightarrow> ('e, 'a, 'r \<times> io_script) outcome" where
  "lift_io m w = (case m of None \<Rightarrow> None | Some (x, r) \<Rightarrow> Some (x, (r, w)))"

definition read_compressed ::
  "'h http \<Rightarrow> 'b bytes_mut \<Rightarrow> temp_fn \<Rightarrow> ('s, 'd) decoders \<Rightarrow> 's \<Rightarrow> record_head \<Rightarrow> tunables
     \<Rightarrow> io_script \<Rightarrow> (barc_error, ('h, 's) barc_record, io_script) outcome" where
  "read_compressed H bm tmp ds rslice rhead tune w =
     (case decode_new ds (h_compress rhead) rslice (buffer_size_ram tune) of
        Inl x \<Rightarrow> Some (Inl x, w)
      | Inr fin \<Rightarrow>
          (let rd = decode_read ds in
           case
             bindO (lift_io (read_headers H bm rd False (h_meta rhead) fin) w) (\<lambda>meta (fin, w).
             bindO (lift_io (read_headers H bm rd False (h_req_h rhead) fin) w) (\<lambda>req_headers (fin, w).
             bindO (if h_req_b rhead \<le> max_body_ram tune
                    then lift_io (read_body_ram bm rd False (h_req_b rhead) fin) w
                    else read_body_fs bm rd tmp tune (h_req_b rhead) fin w) (\<lambda>req_body (fin, w).
             bindO (lift_io (read_headers H bm rd False (h_res_h rhead) fin) w) (\<lambda>res_headers (fin, w).
             bindO (map_errO Body (read_from bm rd tmp tune 4096 fin w)) (\<lambda>res_body (fin, w).
               Some (Ok \<lparr>r_type = h_rec_type rhead, r_meta = meta, r_req_headers = req_headers,
                 r_req_body = req_body, r_res_headers = res_headers, r_res_body = res_body\<rparr>,
                 (fin, w)))))))
           of None \<Rightarrow> None | Some (x, (fin, w)) \<Rightarrow> Some (x, w)))"

text \<open>The uncompressed branch of \<^verbatim>\<open>BarcReader::read\<close>, from the meta headers on.\<close>

definition read_plain ::
  "'h http \<Rightarrow> ('p, 's, 'g) olio \<Rightarrow> 'b bytes_mut \<Rightarrow> bool \<Rightarrow> tunables \<Rightarrow> nat \<Rightarrow> record_head \<Rightarrow> 'p
     \<Rightarrow> (barc_error, ('h, 's) barc_record, 'p) outcome" where
  "read_plain H fs bm chk tune start rhead fin =
     (let rd = rp_read fs;
          body = (\<lambda>len fin. if len \<le> max_body_ram tune then read_body_ram bm rd True len fin
                            else slice_body fs chk fin len) in
      bindO (read_headers H bm rd True (h_meta rhead) fin) (\<lambda>meta fin.
      bindO (read_headers H bm rd True (h_req_h rhead) fin) (\<lambda>req_headers fin.
      bindO (body (h_req_b rhead) fin) (\<lambda>req_body fin.
      bindO (read_headers H bm rd True (h_res_h rhead) fin) (\<lambda>res_headers fin.
      bindO (Some (bindR (u64_sub chk (rp_tell fs fin) start) (\<lambda>a.
                   bindR (u64_sub chk a V2_HEAD_SIZE) (\<lambda>b.
                     u64_sub chk (h_len rhead) b)), fin)) (\<lambda>body_len fin.
      bindO (body body_len fin) (\<lambda>res_body fin.
        Some (Ok \<lparr>r_type = h_rec_type rhead, r_meta = meta, r_req_headers = req_headers,
          r_req_body = req_body, r_res_headers = res_headers, r_res_body = res_body\<rparr>, fin))))))))"

definition seek_pos ::
  "('p, 's, 'g) olio \<Rightarrow> 'p \<Rightarrow> nat \<Rightarrow> (barc_error, unit) result \<times> 'p" where
  "seek_pos fs p n =
     (case rp_seek fs p (SeekStart n) of
        (Inl e, p') \<Rightarrow> (Err (Io e), p')
      | (Inr m, p') \<Rightarrow> (Ok (), p'))"

definition barc_read ::
  "'h http \<Rightarrow> ('p, 's, 'g) olio \<Rightarrow> 'b bytes_mut \<Rightarrow> temp_fn \<Rightarrow> ('s, 'd) decoders \<Rightarrow> bool \<Rightarrow> tunables
     \<Rightarrow> 'p \<Rightarrow> io_script \<Rightarrow> (barc_error, ('h, 's) barc_record option, 'p \<times> io_script) outcome" where
  "barc_read H fs bm tmp ds chk tune p w =
     (let start = rp_tell fs p in
      bindO (lift_io (read_record_head (rp_read fs) p) w) (\<lambda>rh (fin, w).
        case rh of
          None \<Rightarrow> Some (Ok None, (fin, w))
        | Some rhead \<Rightarrow>
            if h_rec_type rhead = Reserved
            then bindO (lift_io (Some (seek_pos fs fin start)) w) (\<lambda>_ (fin, w).
                   Some (Ok None, (fin, w)))
            else if h_compress rhead \<noteq> Plain
            then (let end_pos = rp_tell fs fin + h_len rhead in
                  case read_compressed H bm tmp ds (rp_subslice fs fin (rp_tell fs fin) end_pos)
                         rhead tune w of
                    None \<Rightarrow> None
                  | Some (Inl x, w') \<Rightarrow> Some (Inl x, (fin, w'))
                  | Some (Inr rec, w') \<Rightarrow>
                      bindO (lift_io (Some (seek_pos fs fin end_pos)) w') (\<lambda>_ (fin, w).
                        Some (Ok (Some rec), (fin, w))))
            else bindO (lift_io (read_plain H fs bm chk tune start rhead fin) w) (\<lambda>rec (fin, w).
                   Some (Ok (Some rec), (fin, w)))))"

definition barc_offset :: "('p, 's, 'g) olio \<Rightarrow> 'p \<Rightarrow> nat" where
  "barc_offset fs p = rp_tell fs p"

definition barc_seek ::
  "('p, 's, 'g) olio \<Rightarrow> 'p \<Rightarrow> nat \<Rightarrow> (barc_error, unit) result \<times> 'p" where
  "barc_seek fs p offset = seek_pos fs p offset"

section \<open>Reading back what was written\<close>

text \<open>A header map that its serialized block determines.\<close>

definition block_ok :: "'h http \<Rightarrow> 'h \<Rightarrow> bool" where
  "block_ok H h \<longleftrightarrow> length (hm_iter H h) \<le> 128 \<and> (\<forall>(k, v) \<in> set (hm_iter H h). untrimmed v)"

context http_headers
begin

lemma append_headers_values:
  "(\<And>k v. (k, v) \<in> set kvs \<Longrightarrow> hn_parse H k = Inr k \<and> hv_from_bytes H v = Inr v) \<Longrightarrow>
     \<exists>h'. append_headers H h kvs = Ok h' \<and>
       (\<forall>n. values_of (hm_iter H h') n = values_of (hm_iter H h) n @ values_of kvs n)"
proof (induction kvs arbitrary: h)
  case (Cons kv kvs)
  obtain k v where kv: "kv = (k, v)" by (rule prod.exhaust)
  have ok: "hn_parse H k = Inr k" "hv_from_bytes H v = Inr v"
    using Cons.prems [of k v] kv by auto
  obtain h' where "append_headers H (hm_append H h k v) kvs = Ok h'"
    "\<forall>n. values_of (hm_iter H h') n =
      values_of (hm_iter H (hm_append H h k v)) n @ values_of kvs n"
    using Cons.IH [of "hm_append H h k v"] Cons.prems by auto
  then show ?case
    using ok append_values [OF ok] by (auto simp: kv)
qed simp

lemma parse_headers_block:
  assumes "block_ok H h"
  obtains h' where "parse_headers H (header_lines (hm_iter H h) @ CRLF) = Ok h'" "same_headers H h' h"
proof -
  let ?kvs = "hm_iter H h"
  have valid: "hn_parse H k = Inr k \<and> hv_from_bytes H v = Inr v" if "(k, v) \<in> set ?kvs" for k v
    by (rule iter_valid [OF that])
  have "ht_parse H 128 (header_lines ?kvs @ [CR, LF]) = HtComplete (length (header_lines ?kvs) + 2) ?kvs"
    using assms valid by (intro parse_block) (auto simp: block_ok_def)
  moreover obtain h' where "append_headers H (hm_new H) ?kvs = Ok h'"
    "\<forall>n. values_of (hm_iter H h') n = values_of (hm_iter H (hm_new H)) n @ values_of ?kvs n"
    using append_headers_values [of ?kvs "hm_new H"] valid by blast
  ultimately show ?thesis
    using that [of h'] by (simp add: parse_headers_def CRLF_def same_headers_def)
qed

end

locale buffered = src: steady_source rd stream off patience + buf: bytes_buf bm
  for rd :: "'r reader" and stream off patience and bm :: "'b bytes_mut"
begin

lemma read_into_ok:
  assumes "len \<le> length (src.rest r)" and "len \<le> cap"
  obtains b r' where "read_into bm rd cap len r = Some (Ok (b, take len (src.rest r)), r')"
    "bm_bytes bm b = []" "src.advanced r len r'"
proof -
  obtain k b where k: "bm_chunk bm (bm_new bm cap) = (k, b)" "0 < k"
    "bm_bytes bm b = bm_bytes bm (bm_new bm cap)"
    by (rule buf.chunk_cases)
  have "len \<le> k" using buf.new_room [OF k(1)] assms(2) by simp
  moreover obtain r' where "read_exact rd r len = Some (Ok (take len (src.rest r)), r')"
    "src.advanced r len r'"
    using src.read_exact_ok [OF assms(1)] by blast
  ultimately show ?thesis
    using that k by (simp add: read_into_def)
qed

lemma read_into_short:
  assumes "length (src.rest r) < len" and "len \<le> cap"
  obtains r' where "read_into bm rd cap len r = Some (Err (Io UnexpectedEof), r')"
    "src.advanced r (length (src.rest r)) r'"
proof -
  obtain k b where k: "bm_chunk bm (bm_new bm cap) = (k, b)" "0 < k"
    "bm_bytes bm b = bm_bytes bm (bm_new bm cap)"
    by (rule buf.chunk_cases)
  have "len \<le> k" using buf.new_room [OF k(1)] assms(2) by simp
  moreover obtain r' where "read_exact rd r len = Some (Err UnexpectedEof, r')"
    "src.advanced r (length (src.rest r)) r'"
    using src.read_exact_short [OF assms(1)] by blast
  ultimately show ?thesis
    using that k by (simp add: read_into_def)
qed

lemma read_headers_ok:
  assumes H: "http_headers H" and ok: "block_ok H h"
    and rest: "src.rest r = headers_out c (hm_iter H h) @ t"
  obtains h' r' where
    "read_headers H bm rd c (length (headers_out c (hm_iter H h))) r = Some (Ok h', r')"
    "same_headers H h' h" "src.advanced r (length (headers_out c (hm_iter H h))) r'"
proof (cases "hm_iter H h = []")
  case True
  then show ?thesis
    using that [of "hm_new H" r] http_headers.new_iter [OF H]
    by (simp add: headers_out_def read_headers_def same_headers_def)
next
  case False
  let ?kvs = "hm_iter H h" and ?n = "length (headers_out c (hm_iter H h))"
  have n: "2 < ?n" using length_header_lines [OF False] by (simp add: headers_out_def)
  obtain b r' where b:
    "read_into bm rd (if c then ?n else ?n + 2) ?n r = Some (Ok (b, take ?n (src.rest r)), r')"
    "bm_bytes bm b = []" "src.advanced r ?n r'"
    by (rule read_into_ok [of ?n r "if c then ?n else ?n + 2"]) (auto simp: rest)
  obtain h' where h': "parse_headers H (header_lines ?kvs @ CRLF) = Ok h'" "same_headers H h' h"
    using http_headers.parse_headers_block [OF H ok] by blast
  have "take ?n (src.rest r) @ (if c then [] else CRLF) = header_lines ?kvs @ CRLF"
    using False by (simp add: rest headers_out_def)
  then have "read_headers H bm rd c ?n r = Some (Ok h', r')"
    using n b h'(1) by (cases c) (auto simp: read_headers_def)
  then show ?thesis using that h'(2) b(3) by blast
qed

lemma read_body_ram_ok:
  assumes rest: "src.rest r = body_out c bs @ t"
  obtains b :: "'s body_image" and r' where
    "read_body_ram bm rd c (length (body_out c bs)) r = Some (Ok b, r')"
    "image_holds b bs" "image_is_ram b" "src.advanced r (length (body_out c bs)) r'"
proof (cases "bs = []")
  case True
  then show ?thesis
    using that [of image_empty r]
    by (simp add: body_out_def read_body_ram_def image_holds_def image_empty_def image_is_ram_def)
next
  case False
  let ?n = "length (body_out c bs)"
  have n: "0 < ?n" "c \<longrightarrow> 2 < ?n" using False by (auto simp: body_out_def CRLF_def)
  obtain b r' where b: "read_into bm rd ?n ?n r = Some (Ok (b, take ?n (src.rest r)), r')"
    "bm_bytes bm b = []" "src.advanced r ?n r'"
    by (rule read_into_ok [of ?n r ?n]) (auto simp: rest)
  obtain i :: "'s body_image" where i: "image_from_slice bs = Ok i" "image_holds i bs" "image_is_ram i"
    using image_from_slice_holds by blast
  have "take (if c then ?n - 2 else ?n) (take ?n (src.rest r)) = bs"
    using False by (simp add: rest body_out_def CRLF_def)
  then have "read_body_ram bm rd c ?n r = Some (Ok i, r')"
    using n b i(1) by (simp add: read_body_ram_def Let_def)
  then show ?thesis using that i(2,3) b(3) by blast
qed

end

text \<open>Two records with the same contents, header by header and byte by byte.\<close>

definition same_record ::
  "'h http \<Rightarrow> ('s \<Rightarrow> bytes) \<Rightarrow> ('h, 's) barc_record \<Rightarrow> ('h, 's) barc_record \<Rightarrow> bool" where
  "same_record H sb rec' rec \<longleftrightarrow>
     r_type rec' = r_type rec \<and>
     same_headers H (r_meta rec') (r_meta rec) \<and>
     same_headers H (r_req_headers rec') (r_req_headers rec) \<and>
     same_headers H (r_res_headers rec') (r_res_headers rec) \<and>
     image_bytes sb (r_req_body rec') = image_bytes sb (r_req_body rec) \<and>
     image_bytes sb (r_res_body rec') = image_bytes sb (r_res_body rec)"

definition blocks_ok :: "'h http \<Rightarrow> ('h, 's) barc_record \<Rightarrow> bool" where
  "blocks_ok H rec \<longleftrightarrow>
     block_ok H (r_meta rec) \<and> block_ok H (r_req_headers rec) \<and> block_ok H (r_res_headers rec)"

locale record_reader =
  olio_files fs p_bytes p_patience s_bytes s_off s_patience g_bytes g_off g_patience +
  bytes_buf bm +
  http: http_headers H
  for fs :: "('p, 's, 'g) olio" and p_bytes p_patience s_bytes s_off s_patience
    and g_bytes g_off g_patience and bm :: "'b bytes_mut" and H :: "'h http"

sublocale record_reader \<subseteq> posb: buffered "rp_read fs" p_bytes "rp_tell fs" p_patience bm
  by (intro buffered.intro pos.steady_source_axioms bytes_buf_axioms)

context record_reader
begin

lemma slice_body_ok:
  assumes rest: "pos.rest p = body_out True bs @ t" and "bs \<noteq> []"
    and small: "length (p_bytes p) < 2 ^ 63"
  obtains b p' where
    "slice_body fs chk p (length (body_out True bs)) = Some (Ok b, p')"
    "im_ok b" "im_bytes b = bs" "\<not> image_is_ram b"
    "pos.advanced p (length (body_out True bs)) p'"
proof -
  let ?n = "length (body_out True bs)" and ?o = "rp_tell fs p"
  have n: "?n = length bs + 2" "2 < ?n" using assms(2) by (simp_all add: body_out_def CRLF_def)
  have "?n \<le> length (pos.rest p)" by (simp add: rest)
  then have le: "?o + ?n \<le> length (p_bytes p)"
    using n(2) by (simp add: pos.rest_def)
  then have "?n < 2 ^ 63" "?o + ?n < 2 ^ 64" using small by simp_all
  then have i64: "as_i64 ?n = int ?n" and add: "u64_add chk ?o ?n = (Ok (?o + ?n) :: (barc_error, nat) result)"
    by (simp_all only: as_i64_small u64_add_in_range)
  obtain p' where p': "rp_seek fs p (SeekCurrent (int ?n)) = (Inr (?o + ?n), p')"
    "p_bytes p' = p_bytes p" "rp_tell fs p' = ?o + ?n" "p_patience p' \<le> p_patience p"
    using pos_seek_current [of p "int ?n"] by (auto simp: nat_int_add)
  let ?s = "rp_subslice fs p' ?o (?o + ?n - 2)"
  have "take (length bs) (drop ?o (p_bytes p)) = bs"
    using rest by (simp add: pos.rest_def body_out_def)
  then have s: "s_bytes ?s = bs" "s_off ?s = 0" "rs_len fs ?s = length bs"
    using pos_subslice [of ?o "?o + ?n - 2" p'] n p'(2) by simp_all
  let ?b = "image_from_read_slice fs ?s"
  have "slice_body fs chk p ?n = Some (Ok ?b, p')"
    using n(2) i64 add p'(1) by (simp add: slice_body_def Let_def)
  moreover have "im_ok ?b" "im_bytes ?b = bs" "\<not> image_is_ram ?b"
    using s assms(2)
    by (simp_all add: image_from_read_slice_def image_ok_def image_bytes_def image_is_ram_def)
  moreover have "pos.advanced p ?n p'"
    using p' by (simp add: pos.advanced_def)
  ultimately show ?thesis using that by blast
qed

text \<open>Either way of reading a body, as \<^verbatim>\<open>max_body_ram\<close> decides.\<close>

lemma read_body_ok:
  assumes rest: "pos.rest p = body_out True bs @ t" and small: "length (p_bytes p) < 2 ^ 63"
  obtains b p' where
    "(if length (body_out True bs) \<le> m then read_body_ram bm (rp_read fs) True (length (body_out True bs)) p
      else slice_body fs chk p (length (body_out True bs))) = Some (Ok b, p')"
    "im_ok b" "im_bytes b = bs" "image_is_ram b \<longleftrightarrow> length (body_out True bs) \<le> m"
    "pos.advanced p (length (body_out True bs)) p'"
proof (cases "length (body_out True bs) \<le> m")
  case True
  obtain b :: "'s body_image" and p' where
    "read_body_ram bm (rp_read fs) True (length (body_out True bs)) p = Some (Ok b, p')"
    "image_holds b bs" "image_is_ram b" "pos.advanced p (length (body_out True bs)) p'"
    by (rule posb.read_body_ram_ok [OF rest])
  moreover from this have "im_ok b" "im_bytes b = bs"
    by (auto intro: image_holdsD)
  ultimately show ?thesis
    using that [of b p'] True by simp
next
  case False
  then have "bs \<noteq> []" by (auto simp: body_out_def)
  obtain b p' where "slice_body fs chk p (length (body_out True bs)) = Some (Ok b, p')"
    "im_ok b" "im_bytes b = bs" "\<not> image_is_ram b" "pos.advanced p (length (body_out True bs)) p'"
    by (rule slice_body_ok [OF rest \<open>bs \<noteq> []\<close> small])
  then show ?thesis
    using that [of b p'] False by simp
qed

text \<open>All of a record but the response body, whose length is what the head leaves for it.\<close>

lemma read_plain_blocks:
  assumes rest: "pos.rest p = record_payload H s_bytes True rec @ t"
    and hs: "h\<lparr>h_len := n\<rparr> = (payload_head H s_bytes Plain rec)\<lparr>h_len := n\<rparr>"
    and start: "rp_tell fs p = start + V2_HEAD_SIZE"
    and blocks: "blocks_ok H rec" and small: "length (p_bytes p) < 2 ^ 63"
  obtains m q qb s p4 where
    "read_plain H fs bm chk tune start h p =
       bindO (Some (u64_sub chk (h_len h) (length (record_payload H s_bytes True rec) -
         length (body_out True (im_bytes (r_res_body rec)))), p4)) (\<lambda>body_len fin.
       bindO (if body_len \<le> max_body_ram tune then read_body_ram bm (rp_read fs) True body_len fin
          else slice_body fs chk fin body_len) (\<lambda>res_body fin.
         Some (Ok \<lparr>r_type = r_type rec, r_meta = m, r_req_headers = q, r_req_body = qb,
           r_res_headers = s, r_res_body = res_body\<rparr>, fin)))"
    "same_headers H m (r_meta rec)" "same_headers H q (r_req_headers rec)"
    "im_ok qb" "im_bytes qb = im_bytes (r_req_body rec)" "same_headers H s (r_res_headers rec)"
    "pos.advanced p (length (record_payload H s_bytes True rec) -
       length (body_out True (im_bytes (r_res_body rec)))) p4"
    "pos.rest p4 = body_out True (im_bytes (r_res_body rec)) @ t"
proof -
  let ?m = "headers_out True (hm_iter H (r_meta rec))"
  let ?q = "headers_out True (hm_iter H (r_req_headers rec))"
  let ?qb = "body_out True (im_bytes (r_req_body rec))"
  let ?s = "headers_out True (hm_iter H (r_res_headers rec))"
  let ?sb = "body_out True (im_bytes (r_res_body rec))"
  note ok = blocks [unfolded blocks_ok_def]
  have lens: "h_meta h = length ?m" "h_req_h h = length ?q" "h_req_b h = length ?qb"
    "h_res_h h = length ?s" "h_rec_type h = r_type rec"
    using hs by (cases h; simp add: payload_head_def Let_def)+
  have n: "length (record_payload H s_bytes True rec) - length ?sb =
      length ?m + length ?q + length ?qb + length ?s"
    by (simp add: record_payload_def)
  have r0: "pos.rest p = ?m @ ?q @ ?qb @ ?s @ ?sb @ t"
    using rest by (simp add: record_payload_def)
  obtain m p1 where p1: "read_headers H bm (rp_read fs) True (length ?m) p = Some (Ok m, p1)"
    "same_headers H m (r_meta rec)" "pos.advanced p (length ?m) p1"
    by (rule posb.read_headers_ok [OF http.http_headers_axioms _ r0]) (use ok in simp_all)
  have r1: "pos.rest p1 = ?q @ ?qb @ ?s @ ?sb @ t"
    using pos.advancedD(4) [OF p1(3)] r0 by simp
  obtain q p2 where p2: "read_headers H bm (rp_read fs) True (length ?q) p1 = Some (Ok q, p2)"
    "same_headers H q (r_req_headers rec)" "pos.advanced p1 (length ?q) p2"
    by (rule posb.read_headers_ok [OF http.http_headers_axioms _ r1]) (use ok in simp_all)
  have r2: "pos.rest p2 = ?qb @ ?s @ ?sb @ t" and b2: "length (p_bytes p2) < 2 ^ 63"
    using pos.advancedD(1,4) [OF p2(3)] pos.advancedD(1) [OF p1(3)] r1 small by simp_all
  obtain qb p3 where p3:
    "(if length ?qb \<le> max_body_ram tune then read_body_ram bm (rp_read fs) True (length ?qb) p2
      else slice_body fs chk p2 (length ?qb)) = Some (Ok qb, p3)"
    "im_ok qb" "im_bytes qb = im_bytes (r_req_body rec)" "pos.advanced p2 (length ?qb) p3"
    by (rule read_body_ok [OF r2 b2])
  have r3: "pos.rest p3 = ?s @ ?sb @ t"
    using pos.advancedD(4) [OF p3(4)] r2 by simp
  obtain s p4 where p4: "read_headers H bm (rp_read fs) True (length ?s) p3 = Some (Ok s, p4)"
    "same_headers H s (r_res_headers rec)" "pos.advanced p3 (length ?s) p4"
    by (rule posb.read_headers_ok [OF http.http_headers_axioms _ r3]) (use ok in simp_all)
  have r4: "pos.rest p4 = ?sb @ t"
    using pos.advancedD(4) [OF p4(3)] r3 by simp
  have adv: "pos.advanced p (length (record_payload H s_bytes True rec) - length ?sb) p4"
    using pos.advanced_trans [OF pos.advanced_trans [OF
        pos.advanced_trans [OF p1(3) p2(3)] p3(4)] p4(3)]
    by (simp only: n add.assoc)
  have "rp_tell fs p4 = start + V2_HEAD_SIZE +
      (length (record_payload H s_bytes True rec) - length ?sb)"
    using pos.advancedD(2) [OF adv] start by simp
  then have "read_plain H fs bm chk tune start h p =
       bindO (Some (u64_sub chk (h_len h) (length (record_payload H s_bytes True rec) -
         length ?sb), p4)) (\<lambda>body_len fin.
       bindO (if body_len \<le> max_body_ram tune then read_body_ram bm (rp_read fs) True body_len fin
          else slice_body fs chk fin body_len) (\<lambda>res_body fin.
         Some (Ok \<lparr>r_type = r_type rec, r_meta = m, r_req_headers = q, r_req_body = qb,
           r_res_headers = s, r_res_body = res_body\<rparr>, fin)))"
    using p1(1) p2(1) p3(1) p4(1) by (simp add: read_plain_def lens)
  then show ?thesis
    by (rule that) (use p1 p2 p3 p4 adv r4 in simp_all)
qed

lemma read_plain_ok:
  assumes rest: "pos.rest p = record_payload H s_bytes True rec @ t"
    and h: "h = payload_head H s_bytes Plain rec"
    and start: "rp_tell fs p = start + V2_HEAD_SIZE"
    and blocks: "blocks_ok H rec" and small: "length (p_bytes p) < 2 ^ 63"
  obtains rec' p' where "read_plain H fs bm chk tune start h p = Some (Ok rec', p')"
    "same_record H s_bytes rec' rec" "im_ok (r_req_body rec')" "im_ok (r_res_body rec')"
    "image_is_ram (r_res_body rec') \<longleftrightarrow>
       length (body_out True (im_bytes (r_res_body rec))) \<le> max_body_ram tune"
    "pos.advanced p (length (record_payload H s_bytes True rec)) p'"
proof -
  let ?sb = "body_out True (im_bytes (r_res_body rec))"
  let ?all = "record_payload H s_bytes True rec"
  have all: "h_len h = length ?all" "length ?sb \<le> length ?all"
    by (simp_all add: h payload_head_def record_payload_def Let_def)
  have hs: "h\<lparr>h_len := 0\<rparr> = (payload_head H s_bytes Plain rec)\<lparr>h_len := 0\<rparr>"
    by (simp add: h)
  obtain m q qb s p4 where r: "read_plain H fs bm chk tune start h p =
       bindO (Some (u64_sub chk (h_len h) (length ?all - length ?sb), p4)) (\<lambda>body_len fin.
       bindO (if body_len \<le> max_body_ram tune then read_body_ram bm (rp_read fs) True body_len fin
          else slice_body fs chk fin body_len) (\<lambda>res_body fin.
         Some (Ok \<lparr>r_type = r_type rec, r_meta = m, r_req_headers = q, r_req_body = qb,
           r_res_headers = s, r_res_body = res_body\<rparr>, fin)))"
    and same: "same_headers H m (r_meta rec)" "same_headers H q (r_req_headers rec)"
    "im_ok qb" "im_bytes qb = im_bytes (r_req_body rec)" "same_headers H s (r_res_headers rec)"
    and p4: "pos.advanced p (length ?all - length ?sb) p4" "pos.rest p4 = ?sb @ t"
    by (rule read_plain_blocks [OF rest hs start blocks small])
  have b4: "length (p_bytes p4) < 2 ^ 63"
    using pos.advancedD(1) [OF p4(1)] small by simp
  obtain sb p5 where p5:
    "(if length ?sb \<le> max_body_ram tune then read_body_ram bm (rp_read fs) True (length ?sb) p4
      else slice_body fs chk p4 (length ?sb)) = Some (Ok sb, p5)"
    "im_ok sb" "im_bytes sb = im_bytes (r_res_body rec)"
    "image_is_ram sb \<longleftrightarrow> length ?sb \<le> max_body_ram tune" "pos.advanced p4 (length ?sb) p5"
    by (rule read_body_ok [OF p4(2) b4])
  let ?rec = "\<lparr>r_type = r_type rec, r_meta = m, r_req_headers = q, r_req_body = qb,
    r_res_headers = s, r_res_body = sb\<rparr>"
  have "read_plain H fs bm chk tune start h p = Some (Ok ?rec, p5)"
    unfolding r using p5(1) all by simp
  moreover have "same_record H s_bytes ?rec rec"
    using same p5(3) by (simp add: same_record_def)
  moreover have "pos.advanced p (length ?all) p5"
    using pos.advanced_trans [OF p4(1) p5(5)] all(2) by simp
  ultimately show ?thesis
    using that [of ?rec p5] same p5(2,4) by simp
qed

lemma barc_read_ok:
  assumes bytes: "p_bytes p = c @ head_bytes h @ record_payload H s_bytes True rec @ t"
    and tell: "rp_tell fs p = length c"
    and h: "h = payload_head H s_bytes Plain rec" and range: "head_in_range h"
    and type: "r_type rec \<noteq> Reserved"
    and blocks: "blocks_ok H rec" and small: "length (p_bytes p) < 2 ^ 63"
  obtains rec' p' where
    "barc_read H fs bm tmp ds chk tune p w = Some (Ok (Some rec'), (p', w))"
    "same_record H s_bytes rec' rec" "im_ok (r_req_body rec')" "im_ok (r_res_body rec')"
    "image_is_ram (r_res_body rec') \<longleftrightarrow>
       length (body_out True (im_bytes (r_res_body rec))) \<le> max_body_ram tune"
    "p_bytes p' = p_bytes p"
    "rp_tell fs p' = length c + V2_HEAD_SIZE + length (record_payload H s_bytes True rec)"
proof -
  have rest: "pos.rest p = head_bytes h @ record_payload H s_bytes True rec @ t"
    using bytes tell by (simp add: pos.rest_def)
  obtain p1 where p1: "read_record_head (rp_read fs) p = Some (Ok (Some h), p1)"
    "pos.advanced p V2_HEAD_SIZE p1"
    by (rule pos.read_record_head_some [OF rest range])
  have r1: "pos.rest p1 = record_payload H s_bytes True rec @ t"
    using pos.advancedD(4) [OF p1(2)] rest by (simp add: length_head_bytes [OF range])
  have t1: "rp_tell fs p1 = length c + V2_HEAD_SIZE" and s1: "length (p_bytes p1) < 2 ^ 63"
    using pos.advancedD(1,2) [OF p1(2)] tell small by simp_all
  obtain rec' p' where r: "read_plain H fs bm chk tune (length c) h p1 = Some (Ok rec', p')"
    "same_record H s_bytes rec' rec" "im_ok (r_req_body rec')" "im_ok (r_res_body rec')"
    "image_is_ram (r_res_body rec') \<longleftrightarrow>
       length (body_out True (im_bytes (r_res_body rec))) \<le> max_body_ram tune"
    "pos.advanced p1 (length (record_payload H s_bytes True rec)) p'"
    by (rule read_plain_ok [OF r1 h t1 blocks s1])
  have "h_rec_type h \<noteq> Reserved" "h_compress h = Plain"
    using type by (simp_all add: h payload_head_def Let_def)
  then have "barc_read H fs bm tmp ds chk tune p w = Some (Ok (Some rec'), (p', w))"
    using p1(1) r(1) tell by (simp add: barc_read_def lift_io_def)
  then show ?thesis
    using that r pos.advancedD(1,2) [OF p1(2)] pos.advancedD(1,2) [OF r(6)] t1 by simp
qed

text \<open>What the head alone decides.\<close>

lemma barc_read_head:
  assumes "parse_record_head (take V2_HEAD_SIZE (pos.rest p)) = v"
  obtains p1 where "p_bytes p1 = p_bytes p"
    "rp_tell fs p1 = rp_tell fs p + min V2_HEAD_SIZE (length (pos.rest p))"
    "v = Inl x \<Longrightarrow> barc_read H fs bm tmp ds chk tune p w = Some (Inl x, (p1, w))"
    "v = Ok None \<Longrightarrow> barc_read H fs bm tmp ds chk tune p w = Some (Ok None, (p1, w))"
proof -
  obtain p1 where "read_record_head (rp_read fs) p = Some (v, p1)"
    "pos.advanced p (min V2_HEAD_SIZE (length (pos.rest p))) p1"
    using pos.read_record_head_eq [of p] assms by auto
  then show ?thesis
    using that [of p1] pos.advancedD(1,2) [of p _ p1]
    by (auto simp: barc_read_def lift_io_def)
qed

lemma barc_read_reserved:
  assumes "parse_record_head (take V2_HEAD_SIZE (pos.rest p)) = Ok (Some h)"
    and "h_rec_type h = Reserved"
  obtains p' where "barc_read H fs bm tmp ds chk tune p w = Some (Ok None, (p', w))"
    "p_bytes p' = p_bytes p" "rp_tell fs p' = rp_tell fs p"
proof -
  obtain p1 where p1: "read_record_head (rp_read fs) p = Some (Ok (Some h), p1)"
    "pos.advanced p (min V2_HEAD_SIZE (length (pos.rest p))) p1"
    using pos.read_record_head_eq [of p] assms by auto
  obtain p2 where "rp_seek fs p1 (SeekStart (rp_tell fs p)) = (Inr (rp_tell fs p), p2)"
    "p_bytes p2 = p_bytes p1" "rp_tell fs p2 = rp_tell fs p"
    using pos_seek_start by blast
  then show ?thesis
    using that [of p2] p1 assms(2) pos.advancedD(1) [OF p1(2)]
    by (simp add: barc_read_def lift_io_def seek_pos_def)
qed

end

end
