(* ===== verification/Barc_File.thy ===== *)
theory Barc_File
  imports Barc_Read
begin

text \<open>
  The BARC file as a store (\<^verbatim>\<open>BarcFile\<close>, \<^verbatim>\<open>BarcWriter\<close> and \<^verbatim>\<open>BarcReader\<close> of
  \<^verbatim>\<open>barc/src/lib.rs\<close>): one writer behind a mutex that keeps the open file, and any number
  of readers.

  The step relation \<open>barc_step\<close> has one rule for each call of the writing side, with every
  script of failures. Over its runs the lemmas show that the file only grows, that its tail is
  always one of the states of \<open>write_state\<close>, and that what a successful \<^verbatim>\<open>write\<close>
  has put there stays at its offset. The properties put the two halves of the format together:
  uncompressed records within the format are read back, and what a reader does at an unfinished
  one is stated for each state it can be in.
\<close>

section \<open>The store\<close>

text \<open>
  \<open>bf_disk\<close> is the file at the path, if it exists. The mutex holds the open file, of which
  \<open>bf_file\<close> is the position; \<open>bf_held\<close> is a living \<^verbatim>\<open>BarcWriter\<close>, with the guard.
\<close>

record barc_file =
  bf_disk :: "bytes option"
  bf_file :: "nat option"
  bf_held :: bool
  bf_poisoned :: bool

definition barc_file_new :: "bytes option \<Rightarrow> barc_file" where
  "barc_file_new disk =
     \<lparr>bf_disk = disk, bf_file = None, bf_held = False, bf_poisoned = False\<rparr>"

text \<open>
  \<^verbatim>\<open>BarcFile::writer\<close>: it does not return while another writer lives; \<^verbatim>\<open>unwrap\<close> panics on
  a mutex that a panic has poisoned.
\<close>

definition barc_file_writer ::
  "barc_file \<Rightarrow> io_script \<Rightarrow> (barc_error, unit, barc_file \<times> io_script) outcome" where
  "barc_file_writer s w =
     (if bf_held s then None
      else if bf_poisoned s
      then Some (panic ''called `Result::unwrap()` on an `Err` value: PoisonError'', (s, w))
      else case bf_file s of
          Some p \<Rightarrow> Some (Ok (), (s\<lparr>bf_held := True\<rparr>, w))
        | None \<Rightarrow>
            (case w of
               Some (n, e) # w' \<Rightarrow> Some (Err (Io e), (s, w'))
             | _ \<Rightarrow> Some (Ok (), (s\<lparr>bf_disk := Some (case bf_disk s of None \<Rightarrow> [] | Some c \<Rightarrow> c),
                 bf_file := Some 0, bf_held := True\<rparr>, tl w))))"

definition barc_file_reader ::
  "('p, 's, 'g) olio \<Rightarrow> barc_file \<Rightarrow> io_script \<Rightarrow> (barc_error, 'p) result \<times> io_script" where
  "barc_file_reader fs s w =
     (case w of
        Some (n, e) # w' \<Rightarrow> (Err (Io e), w')
      | _ \<Rightarrow>
          (case bf_disk s of
             None \<Rightarrow> (Err (Io NotFound), tl w)
           | Some c \<Rightarrow> (Ok (rp_new fs \<lparr>content = c, fpos = 0\<rparr> 0), tl w)))"

text \<open>\<^verbatim>\<open>write\<close> of a living writer; a panic unwinds it and poisons the mutex.\<close>

definition barc_writer_write ::
  "'h http \<Rightarrow> ('p, 's, 'g) olio \<Rightarrow> 'z codecs \<Rightarrow> strategy \<Rightarrow> ('h, 's) barc_record \<Rightarrow> barc_file
     \<Rightarrow> io_script \<Rightarrow> (barc_error, nat, barc_file \<times> io_script) outcome" where
  "barc_writer_write H fs cs st rec s w =
     (case (bf_disk s, bf_file s) of
        (Some c, Some p) \<Rightarrow>
          (case barc_write H fs cs st rec (\<lparr>content = c, fpos = p\<rparr>, w) of
             None \<Rightarrow> None
           | Some (x, (f', w')) \<Rightarrow>
               (let s' = s\<lparr>bf_disk := Some (content f'), bf_file := Some (fpos f')\<rparr>
                in Some (x, (case x of
                     Inl (Panic m) \<Rightarrow> s'\<lparr>bf_held := False, bf_poisoned := True\<rparr>
                   | _ \<Rightarrow> s', w'))))
      | _ \<Rightarrow> Some (panic ''called `Option::unwrap()` on a `None` value'',
               (s\<lparr>bf_held := False, bf_poisoned := True\<rparr>, w)))"

definition barc_writer_drop :: "barc_file \<Rightarrow> barc_file" where
  "barc_writer_drop s = s\<lparr>bf_held := False\<rparr>"

section \<open>Runs\<close>

text \<open>
  The calls of the writing side, in any order; the second component lists the records whose
  \<^verbatim>\<open>write\<close> returned, with the offset and the strategy.
\<close>

inductive barc_step ::
  "'h http \<Rightarrow> ('p, 's, 'g) olio \<Rightarrow> 'z codecs \<Rightarrow>
     barc_file \<times> (nat \<times> strategy \<times> ('h, 's) barc_record) list \<Rightarrow>
     barc_file \<times> (nat \<times> strategy \<times> ('h, 's) barc_record) list \<Rightarrow> bool"
  for H fs cs where
  writer: "barc_file_writer s w = Some (x, (s', w')) \<Longrightarrow> barc_step H fs cs (s, log) (s', log)"
| committed: "bf_held s \<Longrightarrow> barc_writer_write H fs cs st rec s w = Some (Ok start, (s', w')) \<Longrightarrow>
    barc_step H fs cs (s, log) (s', log @ [(start, st, rec)])"
| failed: "bf_held s \<Longrightarrow> barc_writer_write H fs cs st rec s w = Some (Inl x, (s', w')) \<Longrightarrow>
    barc_step H fs cs (s, log) (s', log)"
| dropped: "bf_held s \<Longrightarrow> barc_step H fs cs (s, log) (barc_writer_drop s, log)"

inductive barc_run ::
  "'h http \<Rightarrow> ('p, 's, 'g) olio \<Rightarrow> 'z codecs \<Rightarrow> bytes option \<Rightarrow>
     barc_file \<times> (nat \<times> strategy \<times> ('h, 's) barc_record) list \<Rightarrow> bool"
  for H fs cs disk where
  start: "barc_run H fs cs disk (barc_file_new disk, [])"
| step: "barc_run H fs cs disk sl \<Longrightarrow> barc_step H fs cs sl sl' \<Longrightarrow> barc_run H fs cs disk sl'"

definition disk_bytes :: "bytes option \<Rightarrow> bytes" where
  "disk_bytes d = (case d of None \<Rightarrow> [] | Some c \<Rightarrow> c)"

lemma disk_bytes_simps [simp]: "disk_bytes None = []" "disk_bytes (Some c) = c"
  by (simp_all add: disk_bytes_def)

text \<open>What the steps keep: a living writer has its file, and a poisoned mutex no writer.\<close>

definition barc_file_ok :: "barc_file \<Rightarrow> bool" where
  "barc_file_ok s \<longleftrightarrow>
     (bf_file s \<noteq> None \<longrightarrow> bf_disk s \<noteq> None) \<and>
     (bf_held s \<longrightarrow> bf_file s \<noteq> None) \<and> \<not> (bf_held s \<and> bf_poisoned s)"

lemma writer_cases:
  assumes "barc_file_writer s w = Some (x, (s', w'))" and "barc_file_ok s"
  shows "barc_file_ok s' \<and> disk_bytes (bf_disk s') = disk_bytes (bf_disk s) \<and>
    bf_poisoned s' = bf_poisoned s \<and> (bf_poisoned s \<longrightarrow> s' = s \<and> (\<exists>m. x = Inl (Panic m))) \<and>
    (x = Ok () \<longrightarrow> bf_held s')"
  using assms
  by (auto simp: barc_file_writer_def barc_file_ok_def split: if_splits option.splits list.splits)


text \<open>A committed record stands at its offset, under a head with the right length.\<close>

definition entry_block ::
  "'h http \<Rightarrow> ('p, 's, 'g) olio \<Rightarrow> ('s \<Rightarrow> bytes) \<Rightarrow> ('s \<Rightarrow> nat) \<Rightarrow> 'z codecs \<Rightarrow> strategy
     \<Rightarrow> ('h, 's) barc_record \<Rightarrow> record_head \<Rightarrow> bytes \<Rightarrow> bool" where
  "entry_block H fs sb so cs st rec h junk \<longleftrightarrow>
     head_in_range h \<and> h_len h = length junk \<and> h_rec_type h = r_type rec \<and>
     h_compress h = encode_mode (wrap_encoder H cs st rec) \<and>
     (wrap_encoder H cs st rec = EncPlain \<and> image_ok fs sb so (r_req_body rec) \<and>
        image_ok fs sb so (r_res_body rec) \<longrightarrow>
      h = payload_head H sb Plain rec \<and> junk = record_payload H sb True rec)"

definition entry_at ::
  "'h http \<Rightarrow> ('p, 's, 'g) olio \<Rightarrow> ('s \<Rightarrow> bytes) \<Rightarrow> ('s \<Rightarrow> nat) \<Rightarrow> 'z codecs \<Rightarrow> bytes
     \<Rightarrow> nat \<times> strategy \<times> ('h, 's) barc_record \<Rightarrow> bool" where
  "entry_at H fs sb so cs disk e \<longleftrightarrow>
     (case e of (start, st, rec) \<Rightarrow>
        \<exists>c h junk t. disk = c @ head_bytes h @ junk @ t \<and> start = length c \<and>
          entry_block H fs sb so cs st rec h junk)"

lemma entry_at_append:
  assumes "entry_at H fs sb so cs disk e"
  shows "entry_at H fs sb so cs (disk @ t) e"
proof -
  obtain start st rec where e: "e = (start, st, rec)" by (rule prod_cases3)
  obtain c h junk t0 where "disk = c @ head_bytes h @ junk @ t0" "start = length c"
    "entry_block H fs sb so cs st rec h junk"
    using assms by (auto simp: entry_at_def e)
  then show ?thesis
    unfolding entry_at_def e prod.case
    by (intro exI [of _ c] exI [of _ h] exI [of _ junk] exI [of _ "t0 @ t"]) simp
qed

context record_writer
begin

lemma barc_write_entry:
  assumes w: "barc_write H fs cs st rec (f, w) = Some (Ok start, (f', w'))"
  shows "entry_at H fs s_bytes s_off cs (content f') (start, st, rec)"
proof -
  obtain tail fw1 fw2 h junk where *: "start = length (content f)"
    "content f' = content f @ tail" "write_record H fs cs st rec fw1 = Some (Ok h, fw2)"
    "head_in_range (h\<lparr>h_len := length junk\<rparr>)" "tail = head_bytes (h\<lparr>h_len := length junk\<rparr>) @ junk"
    using barc_write_cases [of H st rec f w] w by auto
  let ?h = "h\<lparr>h_len := length junk\<rparr>"
  show ?thesis
  proof (cases "wrap_encoder H cs st rec = EncPlain \<and> im_ok (r_req_body rec) \<and> im_ok (r_res_body rec)")
    case True
    note p = barc_write_plain [OF _ _ _ w]
    show ?thesis
      unfolding entry_at_def entry_block_def prod.case
      by (intro exI [of _ "content f"] exI [of _ "payload_head H s_bytes Plain rec"]
          exI [of _ "record_payload H s_bytes True rec"] exI [of _ "[]"])
        (use True p in \<open>auto simp: payload_head_def Let_def\<close>)
  next
    case False
    show ?thesis
      unfolding entry_at_def entry_block_def prod.case
      by (intro exI [of _ "content f"] exI [of _ ?h] exI [of _ junk] exI [of _ "[]"])
        (use False * write_record_head_of [OF *(3)] in auto)
  qed
qed

lemma writer_write_cases:
  assumes w: "barc_writer_write H fs cs st rec s w = Some (x, (s', w'))"
    and ok: "barc_file_ok s" and held: "bf_held s"
  shows "barc_file_ok s' \<and>
    (\<exists>tail. disk_bytes (bf_disk s') = disk_bytes (bf_disk s) @ tail \<and> write_state tail) \<and>
    (\<forall>start. x = Ok start \<longrightarrow>
       entry_at H fs s_bytes s_off cs (disk_bytes (bf_disk s')) (start, st, rec))"
proof -
  obtain c p where cp: "bf_disk s = Some c" "bf_file s = Some p"
    using ok held by (auto simp: barc_file_ok_def)
  obtain f' w2 tail where f': "barc_write H fs cs st rec (\<lparr>content = c, fpos = p\<rparr>, w) = Some (x, (f', w2))"
    "content f' = c @ tail" "write_state tail"
    "bf_disk s' = Some (content f')" "bf_file s' = Some (fpos f')"
    "bf_held s' = (bf_held s \<and> \<not> (\<exists>m. x = Inl (Panic m)))"
    "bf_poisoned s' = (bf_poisoned s \<or> (\<exists>m. x = Inl (Panic m)))"
    using w barc_write_cases [of H st rec "\<lparr>content = c, fpos = p\<rparr>" w] cp
    by (fastforce simp: barc_writer_write_def Let_def split: sum.splits fault.splits)
  have "entry_at H fs s_bytes s_off cs (content f') (start, st, rec)" if "x = Ok start" for start
    using barc_write_entry f'(1) that by blast
  then show ?thesis
    using f' cp ok held by (auto simp: barc_file_ok_def)
qed

lemma run_invariant:
  assumes "barc_run H fs cs disk sl"
  shows "barc_file_ok (fst sl) \<and>
    (\<exists>tails. disk_bytes (bf_disk (fst sl)) = disk_bytes disk @ concat tails \<and>
       list_all write_state tails) \<and>
    (\<forall>e \<in> set (snd sl). entry_at H fs s_bytes s_off cs (disk_bytes (bf_disk (fst sl))) e)"
  using assms
proof (induction rule: barc_run.induct)
  case start
  show ?case
    by (auto simp: barc_file_ok_def barc_file_new_def intro: exI [of _ "[]"])
next
  case (step sl sl')
  obtain tails where tails: "disk_bytes (bf_disk (fst sl)) = disk_bytes disk @ concat tails"
    "list_all write_state tails" and ok: "barc_file_ok (fst sl)"
    and old: "\<forall>e \<in> set (snd sl). entry_at H fs s_bytes s_off cs (disk_bytes (bf_disk (fst sl))) e"
    using step.IH by blast
  have grow: ?case
    if "barc_file_ok (fst sl')" "disk_bytes (bf_disk (fst sl')) = disk_bytes (bf_disk (fst sl)) @ tail"
      "write_state tail" "\<forall>e \<in> set (snd sl') - set (snd sl).
        entry_at H fs s_bytes s_off cs (disk_bytes (bf_disk (fst sl'))) e" for tail
  proof (intro conjI exI [of _ "tails @ [tail]"] ballI)
    fix e assume "e \<in> set (snd sl')"
    then show "entry_at H fs s_bytes s_off cs (disk_bytes (bf_disk (fst sl'))) e"
      using that(2,4) old entry_at_append [of H fs s_bytes s_off cs _ e tail] by (metis DiffI)
  qed (use that tails in auto)
  from step.hyps(2) show ?case
  proof (cases rule: barc_step.cases)
    case (writer s w x s' w' log)
    then show ?thesis using writer_cases [OF writer(3)] ok by (intro grow [of "[]"]) auto
  next
    case (committed s st rec w start s' w' log)
    then obtain tail where "barc_file_ok s'" "write_state tail"
      "disk_bytes (bf_disk s') = disk_bytes (bf_disk s) @ tail"
      "entry_at H fs s_bytes s_off cs (disk_bytes (bf_disk s')) (start, st, rec)"
      using writer_write_cases [OF committed(4)] ok by auto
    then show ?thesis using committed by (intro grow [of tail]) auto
  next
    case (failed s st rec w x s' w' log)
    then obtain tail where "barc_file_ok s'" "write_state tail"
      "disk_bytes (bf_disk s') = disk_bytes (bf_disk s) @ tail"
      using writer_write_cases [OF failed(4)] ok by auto
    then show ?thesis using failed by (intro grow [of tail]) auto
  next
    case (dropped s log)
    then show ?thesis
      using ok by (intro grow [of "[]"]) (auto simp: barc_writer_drop_def barc_file_ok_def)
  qed
qed

end

section \<open>Reading what was written\<close>

text \<open>A record whose blocks can be parsed, that is not a reservation and that fits its head.\<close>

definition readable :: "'h http \<Rightarrow> ('s \<Rightarrow> bytes) \<Rightarrow> ('h, 's) barc_record \<Rightarrow> bool" where
  "readable H sb rec \<longleftrightarrow>
     blocks_ok H rec \<and> r_type rec \<noteq> Reserved \<and> head_in_range (payload_head H sb Plain rec)"

definition entry_bytes :: "'h http \<Rightarrow> ('s \<Rightarrow> bytes) \<Rightarrow> ('h, 's) barc_record \<Rightarrow> bytes" where
  "entry_bytes H sb rec = head_bytes (payload_head H sb Plain rec) @ record_payload H sb True rec"

lemma length_entry_bytes: "readable H sb rec \<Longrightarrow>
    length (entry_bytes H sb rec) = V2_HEAD_SIZE + length (record_payload H sb True rec)"
  by (simp add: entry_bytes_def readable_def length_head_bytes)

text \<open>A copy of a record has the same head.\<close>

lemma same_headers_out:
  assumes "same_headers H h' h"
  shows "length (headers_out c (hm_iter H h')) = length (headers_out c (hm_iter H h))"
  using same_headers_lines [OF assms] by (auto simp: length_headers_out)

lemma same_headers_ok: "same_headers H h' h \<Longrightarrow> block_ok H h' = block_ok H h"
  using same_headers_lines [of H h' h] by (auto simp: block_ok_def)

lemma same_record_head:
  assumes "same_record H sb rec' rec"
  shows "payload_head H sb c rec' = payload_head H sb c rec" and "readable H sb rec' = readable H sb rec"
proof -
  show p: "payload_head H sb c rec' = payload_head H sb c rec" for c
    using assms
      same_headers_out [of H "r_meta rec'" "r_meta rec"]
      same_headers_out [of H "r_req_headers rec'" "r_req_headers rec"]
      same_headers_out [of H "r_res_headers rec'" "r_res_headers rec"]
    by (simp add: same_record_def payload_head_def record_payload_def Let_def)
  show "readable H sb rec' = readable H sb rec"
    using assms p
      same_headers_ok [of H "r_meta rec'" "r_meta rec"]
      same_headers_ok [of H "r_req_headers rec'" "r_req_headers rec"]
      same_headers_ok [of H "r_res_headers rec'" "r_res_headers rec"]
    by (simp add: readable_def blocks_ok_def same_record_def)
qed

locale barc_store =
  record_writer fs p_bytes p_patience s_bytes s_off s_patience g_bytes g_off g_patience cs +
  record_reader fs p_bytes p_patience s_bytes s_off s_patience g_bytes g_off g_patience bm H
  for fs :: "('p, 's, 'g) olio" and p_bytes p_patience s_bytes s_off s_patience
    and g_bytes g_off g_patience and cs :: "'z codecs" and bm :: "'b bytes_mut"
    and H :: "'h http"
begin

lemma read_entry:
  assumes "p_bytes p = c @ entry_bytes H s_bytes rec @ t" and "rp_tell fs p = length c"
    and "readable H s_bytes rec" and "length (p_bytes p) < 2 ^ 63"
  obtains rec' p' where
    "barc_read H fs bm tmp ds chk tune p w = Some (Ok (Some rec'), (p', w))"
    "same_record H s_bytes rec' rec" "im_ok (r_req_body rec')" "im_ok (r_res_body rec')"
    "image_is_ram (r_res_body rec') \<longleftrightarrow>
       length (body_out True (im_bytes (r_res_body rec))) \<le> max_body_ram tune"
    "p_bytes p' = p_bytes p" "rp_tell fs p' = length (c @ entry_bytes H s_bytes rec)"
proof -
  let ?h = "payload_head H s_bytes Plain rec"
  have ok: "head_in_range ?h" "r_type rec \<noteq> Reserved" "blocks_ok H rec"
    using assms(3) by (simp_all add: readable_def)
  have "p_bytes p = c @ head_bytes ?h @ record_payload H s_bytes True rec @ t"
    using assms(1) by (simp add: entry_bytes_def)
  from barc_read_ok [OF this assms(2) refl ok assms(4)] obtain rec' p' where
    "barc_read H fs bm tmp ds chk tune p w = Some (Ok (Some rec'), (p', w))"
    "same_record H s_bytes rec' rec" "im_ok (r_req_body rec')" "im_ok (r_res_body rec')"
    "image_is_ram (r_res_body rec') \<longleftrightarrow>
       length (body_out True (im_bytes (r_res_body rec))) \<le> max_body_ram tune"
    "p_bytes p' = p_bytes p"
    "rp_tell fs p' = length c + V2_HEAD_SIZE + length (record_payload H s_bytes True rec)"
    by blast
  then show ?thesis
    using that length_entry_bytes [OF assms(3)] by simp
qed

lemma read_none:
  assumes "parse_record_head (take V2_HEAD_SIZE (drop (rp_tell fs p) (p_bytes p))) = v"
    and "v = Ok None \<or> (\<exists>h. v = Ok (Some h) \<and> h_rec_type h = Reserved)"
  obtains p' where "barc_read H fs bm tmp ds chk tune p w = Some (Ok None, (p', w))"
    "p_bytes p' = p_bytes p" "rp_tell fs p' = rp_tell fs p"
  using assms(2)
proof
  assume v: "v = Ok None"
  then have "drop (rp_tell fs p) (p_bytes p) = []"
    using assms(1) by (auto simp: parse_record_head_def V2_HEAD_SIZE_def split: if_splits)
  then have rest: "pos.rest p = []" by (simp add: pos.rest_def)
  have "parse_record_head (take V2_HEAD_SIZE (pos.rest p)) = Ok None"
    using assms(1) v by (simp add: pos.rest_def)
  then obtain p1 where "p_bytes p1 = p_bytes p"
    "rp_tell fs p1 = rp_tell fs p + min V2_HEAD_SIZE (length (pos.rest p))"
    "barc_read H fs bm tmp ds chk tune p w = Some (Ok None, (p1, w))"
    by (rule barc_read_head) simp
  then show ?thesis using that rest by simp
next
  assume "\<exists>h. v = Ok (Some h) \<and> h_rec_type h = Reserved"
  then obtain h where "parse_record_head (take V2_HEAD_SIZE (pos.rest p)) = Ok (Some h)"
    "h_rec_type h = Reserved"
    using assms(1) by (auto simp: pos.rest_def)
  then show ?thesis by (rule barc_read_reserved) (rule that)
qed

lemma read_at_end:
  assumes "rp_tell fs p = length (p_bytes p)"
  obtains p' where "barc_read H fs bm tmp ds chk tune p w = Some (Ok None, (p', w))"
    "p_bytes p' = p_bytes p" "rp_tell fs p' = rp_tell fs p"
  by (rule read_none [of p "Ok None"]) (use that in \<open>simp_all add: assms parse_record_head_def\<close>)

lemma write_read_back:
  assumes enc: "wrap_encoder H cs st rec = EncPlain"
    and ok: "im_ok (r_req_body rec)" "im_ok (r_res_body rec)"
    and rec: "blocks_ok H rec" "r_type rec \<noteq> Reserved"
    and w: "barc_write H fs cs st rec (f, w) = Some (Ok start, (f', w'))"
    and p: "p_bytes p = content f' @ t" "rp_tell fs p = start" "length (p_bytes p) < 2 ^ 63"
  shows "\<exists>rec' p'. barc_read H fs bm tmp ds chk tune p v = Some (Ok (Some rec'), (p', v)) \<and>
    same_record H s_bytes rec' rec \<and> im_ok (r_req_body rec') \<and> im_ok (r_res_body rec') \<and>
    p_bytes p' = p_bytes p \<and> rp_tell fs p' = length (content f')"
proof -
  note e = barc_write_plain [OF enc ok w]
  have r: "readable H s_bytes rec" using rec e(3) by (simp add: readable_def)
  have "content f' = content f @ entry_bytes H s_bytes rec"
    using e(4) by (simp add: entry_bytes_def)
  moreover from this have "p_bytes p = content f @ entry_bytes H s_bytes rec @ t"
    using p(1) by simp
  from read_entry [OF this _ r p(3)] p(2) e(1) obtain rec' p' where
    "barc_read H fs bm tmp ds chk tune p v = Some (Ok (Some rec'), (p', v))"
    "same_record H s_bytes rec' rec" "im_ok (r_req_body rec')" "im_ok (r_res_body rec')"
    "p_bytes p' = p_bytes p" "rp_tell fs p' = length (content f @ entry_bytes H s_bytes rec)"
    by blast
  ultimately show ?thesis by auto
qed

text \<open>What a successful write has appended, whichever the compression.\<close>

lemma written_entry:
  assumes ok: "im_ok (r_req_body rec)" "im_ok (r_res_body rec)"
    and w: "barc_write H fs cs st rec (f, w) = Some (Ok start, (f', w'))"
  shows "start = length (content f)"
    and "\<exists>h junk. content f' = content f @ head_bytes h @ junk \<and> head_in_range h \<and>
      h_len h = length junk \<and> h_rec_type h = r_type rec \<and>
      h_compress h = encode_mode (wrap_encoder H cs st rec) \<and>
      (encode_mode (wrap_encoder H cs st rec) = Plain \<longrightarrow>
        head_bytes h @ junk = entry_bytes H s_bytes rec)"
proof -
  obtain tail fw1 fw2 h junk where *: "start = length (content f)" "content f' = content f @ tail"
    "write_record H fs cs st rec fw1 = Some (Ok h, fw2)"
    "head_in_range (h\<lparr>h_len := length junk\<rparr>)" "tail = head_bytes (h\<lparr>h_len := length junk\<rparr>) @ junk"
    using barc_write_cases [of H st rec f w] w by auto
  show "start = length (content f)" by (rule *(1))
  have "head_bytes (h\<lparr>h_len := length junk\<rparr>) @ junk = entry_bytes H s_bytes rec"
    if "encode_mode (wrap_encoder H cs st rec) = Plain"
  proof -
    have "wrap_encoder H cs st rec = EncPlain" using that by (cases "wrap_encoder H cs st rec") auto
    from barc_write_plain(4) [OF this ok w] show ?thesis using *(2,5) by (simp add: entry_bytes_def)
  qed
  then show "\<exists>h junk. content f' = content f @ head_bytes h @ junk \<and> head_in_range h \<and>
      h_len h = length junk \<and> h_rec_type h = r_type rec \<and>
      h_compress h = encode_mode (wrap_encoder H cs st rec) \<and>
      (encode_mode (wrap_encoder H cs st rec) = Plain \<longrightarrow>
        head_bytes h @ junk = entry_bytes H s_bytes rec)"
    using *(2,4,5) write_record_head_of [OF *(3)]
    by (intro exI [of _ "h\<lparr>h_len := length junk\<rparr>"] exI [of _ junk]) simp
qed

lemma entry_read_back:
  assumes e: "entry_at H fs s_bytes s_off cs (p_bytes p) (start, st, rec)"
    and enc: "wrap_encoder H cs st rec = EncPlain"
    and ok: "im_ok (r_req_body rec)" "im_ok (r_res_body rec)"
    and rec: "blocks_ok H rec" "r_type rec \<noteq> Reserved"
    and p: "rp_tell fs p = start" "length (p_bytes p) < 2 ^ 63"
  shows "\<exists>rec' p'. barc_read H fs bm tmp ds chk tune p v = Some (Ok (Some rec'), (p', v)) \<and>
    same_record H s_bytes rec' rec \<and> rp_tell fs p' = start + length (entry_bytes H s_bytes rec)"
proof -
  obtain c h junk t where *: "p_bytes p = c @ head_bytes h @ junk @ t" "start = length c"
    "entry_block H fs s_bytes s_off cs st rec h junk"
    using e by (auto simp: entry_at_def)
  then have h: "h = payload_head H s_bytes Plain rec" "junk = record_payload H s_bytes True rec"
    "head_in_range h"
    using enc ok by (auto simp: entry_block_def)
  have "p_bytes p = c @ entry_bytes H s_bytes rec @ t" "readable H s_bytes rec"
    using *(1) h rec by (simp_all add: entry_bytes_def readable_def)
  then show ?thesis
    using read_entry [of p c rec t] p *(2) by (metis length_append)
qed

lemma unfinished_unseen:
  assumes p: "p_bytes p = c @ tail" "rp_tell fs p = length c"
    and tail: "tail = [] \<or> (\<exists>h n junk. head_in_range h \<and> n \<le> 19 \<and> tail = torn_head n h @ junk)"
  shows "\<exists>p'. barc_read H fs bm tmp ds chk tune p v = Some (Ok None, (p', v)) \<and>
    p_bytes p' = p_bytes p \<and> rp_tell fs p' = rp_tell fs p"
proof -
  have d: "drop (rp_tell fs p) (p_bytes p) = tail" using p by simp
  have "parse_record_head (take V2_HEAD_SIZE tail) = Ok None \<or>
      (\<exists>g. parse_record_head (take V2_HEAD_SIZE tail) = Ok (Some g) \<and> h_rec_type g = Reserved)"
    using tail
  proof (elim disjE exE conjE)
    fix h n junk assume h: "head_in_range h" "n \<le> 19" and t: "tail = torn_head n h @ junk"
    have "take V2_HEAD_SIZE tail = torn_head n h"
      using h t length_torn_head [of h n] by (simp add: V2_HEAD_SIZE_def)
    then show ?thesis using torn_head_reserved [OF h] by metis
  qed (simp add: parse_record_head_def)
  then show ?thesis
    using read_none [of p _ tmp ds chk tune v] d by metis
qed

lemma short_tail_error:
  assumes p: "p_bytes p = c @ tail" "rp_tell fs p = length c"
    and tail: "0 < length tail" "length tail < V2_HEAD_SIZE"
  shows "\<exists>p'. barc_read H fs bm tmp ds chk tune p v =
      Some (Err (ReadIncompleteRecHead (length tail)), (p', v)) \<and> rp_tell fs p' = length (p_bytes p)"
proof -
  have rest: "pos.rest p = tail" using p by (simp add: pos.rest_def)
  have "parse_record_head (take V2_HEAD_SIZE (pos.rest p)) = Err (ReadIncompleteRecHead (length tail))"
    using tail by (auto simp: rest parse_record_head_def V2_HEAD_SIZE_def)
  then obtain p1 where "p_bytes p1 = p_bytes p"
    "rp_tell fs p1 = rp_tell fs p + min V2_HEAD_SIZE (length (pos.rest p))"
    "barc_read H fs bm tmp ds chk tune p v = Some (Err (ReadIncompleteRecHead (length tail)), (p1, v))"
    using barc_read_head [of p _ _ tmp ds chk tune v] by blast
  then show ?thesis using p tail rest by auto
qed

text \<open>Once the record type is final, \<^verbatim>\<open>read\<close> no longer takes the record for an absent one.\<close>

lemma typed_head_not_none:
  assumes p: "p_bytes p = c @ torn_head n h @ junk" "rp_tell fs p = length c"
    and h: "head_in_range h" "h_rec_type h \<noteq> Reserved" and n: "20 \<le> n" "n \<le> V2_HEAD_SIZE"
  shows "barc_read H fs bm tmp ds chk tune p v \<noteq> Some (Ok None, (p', v'))"
proof -
  have l: "length (torn_head n h) = V2_HEAD_SIZE" by (rule length_torn_head [OF h(1) n(2)])
  have rest: "pos.rest p = torn_head n h @ junk" using p by (simp add: pos.rest_def)
  have "torn_head n h ! 19 = record_type_flag (h_rec_type h)"
    using nth_torn_head [OF h(1) n(2), of 19] n head_bytes_slices(3) [OF h(1)]
    by (simp add: V2_HEAD_SIZE_def)
  then have typed: "g = h_rec_type h" if "parse_record_head (torn_head n h) = Ok (Some g')"
      "g = h_rec_type g'" for g g'
    using that by (auto simp: parse_record_head_def split: if_splits)
  have some: "parse_record_head (torn_head n h) \<noteq> Ok None"
    using l by (auto simp: parse_record_head_def V2_HEAD_SIZE_def)
  obtain p1 where p1: "read_record_head (rp_read fs) p = Some (parse_record_head (torn_head n h), p1)"
    using pos.read_record_head_eq [of p] rest l by auto
  show ?thesis
  proof (cases "parse_record_head (torn_head n h)")
    case (Inl x)
    then show ?thesis using p1 by (simp add: barc_read_def lift_io_def)
  next
    case (Inr rh)
    then obtain g where g: "rh = Some g" using some by (cases rh) auto
    then have "h_rec_type g \<noteq> Reserved" using typed [of g] Inr h(2) by simp
    then show ?thesis
      using p1 Inr g
      by (auto simp: barc_read_def lift_io_def Let_def bindO_Inr_iff
          split: option.splits prod.splits sum.splits if_splits)
  qed
qed

text \<open>The step from a head that is parsed to the blocks of an uncompressed record.\<close>

lemma read_parsed:
  assumes "parse_record_head (take V2_HEAD_SIZE (pos.rest p)) = Ok (Some h)"
    and "V2_HEAD_SIZE \<le> length (pos.rest p)"
    and "h_rec_type h \<noteq> Reserved" and "h_compress h = Plain"
  obtains p1 where "pos.advanced p V2_HEAD_SIZE p1"
    "barc_read H fs bm tmp ds chk tune p w =
       bindO (lift_io (read_plain H fs bm chk tune (rp_tell fs p) h p1) w)
         (\<lambda>rec (fin, w). Some (Ok (Some rec), (fin, w)))"
proof -
  obtain p1 where "read_record_head (rp_read fs) p = Some (Ok (Some h), p1)"
    "pos.advanced p V2_HEAD_SIZE p1"
    using pos.read_record_head_eq [of p] assms(1,2) by (auto simp: min_def)
  then show ?thesis
    using that [of p1] assms(3,4) by (simp add: barc_read_def lift_io_def)
qed

lemma torn_head_read:
  assumes p: "p_bytes p = c @ torn_head n h @ bs @ CRLF" "rp_tell fs p = length c"
    and h: "head_in_range h" "h_rec_type h \<noteq> Reserved" "h_compress h = Plain"
    and len: "h_len h = length bs + 2" and bs: "bs \<noteq> []" and n: "21 \<le> n" "n \<le> 22"
    and small: "length (p_bytes p) < 2 ^ 63"
  shows "\<exists>rec' p'. barc_read H fs bm tmp ds chk tune p v = Some (Ok (Some rec'), (p', v)) \<and>
    r_meta rec' = hm_new H \<and> r_req_headers rec' = hm_new H \<and> r_res_headers rec' = hm_new H \<and>
    im_bytes (r_req_body rec') = [] \<and> im_bytes (r_res_body rec') = bs"
proof -
  let ?g = "h\<lparr>h_meta := 0, h_req_h := 0, h_req_b := 0, h_res_h := 0\<rparr>"
  have l: "length (torn_head n h) = V2_HEAD_SIZE"
    using n by (intro length_torn_head [OF h(1)]) (simp add: V2_HEAD_SIZE_def)
  have rest: "pos.rest p = torn_head n h @ bs @ CRLF" using p by (simp add: pos.rest_def)
  have parse: "parse_record_head (take V2_HEAD_SIZE (pos.rest p)) = Ok (Some ?g)"
    using torn_head_visible [OF h(1) n] l by (simp add: rest)
  obtain p1 where p1: "pos.advanced p V2_HEAD_SIZE p1"
    "barc_read H fs bm tmp ds chk tune p v =
       bindO (lift_io (read_plain H fs bm chk tune (rp_tell fs p) ?g p1) v)
         (\<lambda>rec (fin, w). Some (Ok (Some rec), (fin, w)))"
    by (rule read_parsed [OF parse, where tmp = tmp and ds = ds and chk = chk and tune = tune and w = v])
      (use h l rest in auto)
  have r1: "pos.rest p1 = body_out True bs @ []" and s1: "length (p_bytes p1) < 2 ^ 63"
    and t1: "rp_tell fs p1 = rp_tell fs p + V2_HEAD_SIZE"
    using pos.advancedD(1,2,4) [OF p1(1)] rest l small bs by (simp_all add: body_out_def)
  have n2: "h_len h = length (body_out True bs)" using len bs by (simp add: body_out_def CRLF_def)
  obtain b p' where b: "(if length (body_out True bs) \<le> max_body_ram tune
      then read_body_ram bm (rp_read fs) True (length (body_out True bs)) p1
      else slice_body fs chk p1 (length (body_out True bs))) = Some (Ok b, p')" "im_bytes b = bs"
    by (rule read_body_ok [OF r1 s1])
  have "read_plain H fs bm chk tune (rp_tell fs p) ?g p1 =
      Some (Ok \<lparr>r_type = h_rec_type h, r_meta = hm_new H, r_req_headers = hm_new H,
        r_req_body = image_empty, r_res_headers = hm_new H, r_res_body = b\<rparr>, p')"
    using b(1) t1 n2 by (simp add: read_plain_def read_headers_def read_body_ram_def)
  then show ?thesis
    using p1(2) b(2) by (simp add: lift_io_def image_empty_def image_bytes_def)
qed

lemma short_block_panics:
  assumes p: "p_bytes p = c @ head_bytes h @ t" "rp_tell fs p = length c"
    and h: "head_in_range h" "h_rec_type h \<noteq> Reserved" "h_compress h = Plain"
    and meta: "h_meta h = 1 \<or> h_meta h = 2"
  shows "\<exists>p'. barc_read H fs bm tmp ds chk tune p v =
    Some (panic ''assertion failed: len > 2'', (p', v))"
proof -
  note l = length_head_bytes [OF h(1)]
  have rest: "pos.rest p = head_bytes h @ t" using p by (simp add: pos.rest_def)
  have parse: "parse_record_head (take V2_HEAD_SIZE (pos.rest p)) = Ok (Some h)"
    using l by (simp add: rest parse_head_bytes [OF h(1)])
  obtain p1 where p1: "barc_read H fs bm tmp ds chk tune p v =
       bindO (lift_io (read_plain H fs bm chk tune (rp_tell fs p) h p1) v)
         (\<lambda>rec (fin, w). Some (Ok (Some rec), (fin, w)))"
    by (rule read_parsed [OF parse, where tmp = tmp and ds = ds and chk = chk and tune = tune and w = v])
      (use h l rest in auto)
  have "read_plain H fs bm chk tune (rp_tell fs p) h p1 = Some (panic ''assertion failed: len > 2'', p1)"
    using meta by (auto simp: read_plain_def read_headers_def)
  then show ?thesis using p1 by (simp add: lift_io_def)
qed

lemma short_length_panics:
  assumes p: "p_bytes p = c @ head_bytes h @ record_payload H s_bytes True rec @ t"
      "rp_tell fs p = length c"
    and h: "h = (payload_head H s_bytes Plain rec)\<lparr>h_len := n\<rparr>" "head_in_range h"
    and rec: "blocks_ok H rec" "r_type rec \<noteq> Reserved"
    and n: "n < length (record_payload H s_bytes True rec) -
      length (body_out True (im_bytes (r_res_body rec)))"
    and small: "length (p_bytes p) < 2 ^ 63"
  shows "\<exists>p'. barc_read H fs bm tmp ds True tune p v =
    Some (panic ''attempt to subtract with overflow'', (p', v))"
proof -
  note l = length_head_bytes [OF h(2)]
  let ?all = "record_payload H s_bytes True rec" and ?sb = "body_out True (im_bytes (r_res_body rec))"
  have rest: "pos.rest p = head_bytes h @ ?all @ t" using p by (simp add: pos.rest_def)
  have parse: "parse_record_head (take V2_HEAD_SIZE (pos.rest p)) = Ok (Some h)"
    using l by (simp add: rest parse_head_bytes [OF h(2)])
  have ty: "h_rec_type h \<noteq> Reserved" "h_compress h = Plain"
    using rec(2) by (simp_all add: h(1) payload_head_def Let_def)
  obtain p1 where p1: "pos.advanced p V2_HEAD_SIZE p1" "barc_read H fs bm tmp ds True tune p v =
       bindO (lift_io (read_plain H fs bm True tune (rp_tell fs p) h p1) v)
         (\<lambda>rec (fin, w). Some (Ok (Some rec), (fin, w)))"
    by (rule read_parsed [OF parse, where tmp = tmp and ds = ds and chk = True and tune = tune and w = v])
      (use ty l rest in auto)
  have r1: "pos.rest p1 = ?all @ t" and s1: "length (p_bytes p1) < 2 ^ 63"
    and t1: "rp_tell fs p1 = rp_tell fs p + V2_HEAD_SIZE"
    using pos.advancedD(1,2,4) [OF p1(1)] rest l small by simp_all
  have hs: "h\<lparr>h_len := n\<rparr> = (payload_head H s_bytes Plain rec)\<lparr>h_len := n\<rparr>" "h_len h = n"
    by (simp_all add: h(1))
  obtain m q qb s p4 where "read_plain H fs bm True tune (rp_tell fs p) h p1 =
       bindO (Some (u64_sub True (h_len h) (length ?all - length ?sb), p4)) (\<lambda>body_len fin.
       bindO (if body_len \<le> max_body_ram tune then read_body_ram bm (rp_read fs) True body_len fin
          else slice_body fs True fin body_len) (\<lambda>res_body fin.
         Some (Ok \<lparr>r_type = r_type rec, r_meta = m, r_req_headers = q, r_req_body = qb,
           r_res_headers = s, r_res_body = res_body\<rparr>, fin)))"
    by (rule read_plain_blocks [OF r1 hs(1) t1 rec(1) s1])
  then have "read_plain H fs bm True tune (rp_tell fs p) h p1 =
      Some (panic ''attempt to subtract with overflow'', p4)"
    using n hs(2) by (simp add: u64_sub_def)
  then show ?thesis using p1(2) by (simp add: lift_io_def)
qed

end

interpretation stores: barc_store cursor_olio cur_bytes "\<lambda>_. 0" "\<lambda>s. cur_bytes (fst s)"
    "\<lambda>s. cur_pos (fst s)" "\<lambda>_. 0" cur_bytes cur_pos "\<lambda>_. 0" buffering_codecs grow_buf assoc_http
  by (intro barc_store.intro record_writer.intro record_reader.intro cursors.olio_files_axioms
      buffering.appending_codecs_axioms growing.bytes_buf_axioms assoc.http_headers_axioms)


section \<open>A sample record\<close>

definition sample_record :: "(assoc_map, cursor \<times> nat) barc_record" where
  "sample_record =
     \<lparr>r_type = DialogRecord, r_meta = assoc_append assoc_empty ''url'' ''/a'',
      r_req_headers = assoc_empty, r_req_body = image_empty, r_res_headers = assoc_empty,
      r_res_body = \<lparr>bi_state = Ram [''ab'', ''c''], bi_len = 3\<rparr>\<rparr>"

abbreviation "sample_bytes \<equiv> entry_bytes assoc_http (\<lambda>s. cur_bytes (fst s)) sample_record"

lemma sample_meta: "hm_iter assoc_http (r_meta sample_record) = [(''url'', ''/a'')]"
  by (simp add: sample_record_def assoc_name_Inr assoc_value_Inr name_char_def value_char_def)

lemma sample_payload:
  "record_payload assoc_http sb True sample_record =
     ''url: /a'' @ CRLF @ CRLF @ ''abc'' @ CRLF"
  unfolding record_payload_def sample_meta
  by (simp add: sample_record_def headers_out_def body_out_def image_empty_def image_bytes_def CRLF_def)

lemma sample_head_fields:
  "payload_head assoc_http sb Plain sample_record =
     \<lparr>h_len = 16, h_rec_type = DialogRecord, h_compress = Plain, h_meta = 11, h_req_h = 0,
      h_req_b = 0, h_res_h = 0\<rparr>"
  unfolding payload_head_def sample_meta
  by (simp add: sample_payload)
    (simp add: sample_record_def headers_out_def body_out_def image_empty_def image_bytes_def CRLF_def)

lemma sample_ok:
  "image_ok cursor_olio (\<lambda>s. cur_bytes (fst s)) (\<lambda>s. cur_pos (fst s)) (r_req_body sample_record)"
  "image_ok cursor_olio (\<lambda>s. cur_bytes (fst s)) (\<lambda>s. cur_pos (fst s)) (r_res_body sample_record)"
  "blocks_ok assoc_http sample_record" "r_type sample_record \<noteq> Reserved"
  "head_in_range (payload_head assoc_http sb Plain sample_record)"
  "wrap_encoder assoc_http cs NoCompress sample_record = EncPlain"
  using sample_meta
  by (simp_all add: sample_head_fields wrap_encoder_cases blocks_ok_def block_ok_def untrimmed_def blank_def)
    (simp_all add: sample_record_def image_ok_def image_empty_def image_bytes_def head_in_range_def v2_defs)

lemma sample_readable: "readable assoc_http sb sample_record"
  using sample_ok by (simp add: readable_def)

lemma sample_write:
  "\<exists>f' w'. barc_write assoc_http cursor_olio buffering_codecs NoCompress sample_record
     (\<lparr>content = c, fpos = n\<rparr>, []) = Some (Ok (length c), (f', w')) \<and>
     content f' = c @ sample_bytes"
proof -
  obtain f' w' where w: "barc_write assoc_http cursor_olio buffering_codecs NoCompress sample_record
      (\<lparr>content = c, fpos = n\<rparr>, []) = Some (Ok (length c), (f', w'))"
    using stores.barc_write_ok [OF sample_ok(6) sample_ok(1,2) calm_Nil _ sample_ok(5),
        of "\<lparr>content = c, fpos = n\<rparr>"]
    by (auto simp: sample_head_fields v2_defs)
  then show ?thesis
    using stores.barc_write_plain(4) [OF sample_ok(6) sample_ok(1,2) w] by (simp add: entry_bytes_def)
qed

lemma length_sample: "length sample_bytes = 70"
  by (simp add: length_entry_bytes [OF sample_readable] sample_payload V2_HEAD_SIZE_def CRLF_def)


section \<open>Properties of the file\<close>



text \<open>
  C4: Whatever fails during \<^verbatim>\<open>write\<close>, with any compression, the call returns and everything
  that was in the file before is still there. What follows it is a prefix of the reserved head,
  the reserved head and some bytes, or the final head, as far as it was written, over the
  reserved one, followed by as many bytes as the final head states.
\<close>
theorem write_crash_states:
  assumes "record_writer fs p_bytes p_patience s_bytes s_off s_patience g_bytes g_off g_patience cs"
  shows "\<exists>x f' w' tail. barc_write H fs cs st rec (f, w) = Some (x, (f', w')) \<and>
    content f' = content f @ tail \<and>
    (case x of
       Inr start \<Rightarrow> start = length (content f) \<and>
         (\<exists>h junk. head_in_range h \<and> h_len h = length junk \<and> tail = head_bytes h @ junk)
     | Inl e \<Rightarrow>
         (\<exists>n. tail = take n (head_bytes V2_RESERVE_HEAD)) \<or>
         (\<exists>junk. tail = head_bytes V2_RESERVE_HEAD @ junk) \<or>
         (\<exists>h n junk. head_in_range h \<and> h_len h = length junk \<and> n \<le> V2_HEAD_SIZE \<and>
            tail = torn_head n h @ junk))"
proof -
  obtain x f' w' tail where x: "barc_write H fs cs st rec (f, w) = Some (x, (f', w'))"
    "content f' = content f @ tail" "write_state tail"
    "\<And>start. x = Ok start \<Longrightarrow> start = length (content f) \<and>
       (\<exists>h junk. head_in_range (h\<lparr>h_len := length junk\<rparr>) \<and>
          tail = head_bytes (h\<lparr>h_len := length junk\<rparr>) @ junk)"
    using record_writer.barc_write_cases [OF assms, of H st rec f w] by blast
  show ?thesis
  proof (cases x)
    case (Inr start)
    then obtain h junk where h: "start = length (content f)" "head_in_range (h\<lparr>h_len := length junk\<rparr>)"
      "tail = head_bytes (h\<lparr>h_len := length junk\<rparr>) @ junk"
      using x(4) by blast
    moreover have "h_len (h\<lparr>h_len := length junk\<rparr>) = length junk" by simp
    ultimately have "start = length (content f) \<and> (\<exists>h junk. head_in_range h \<and> h_len h = length junk \<and>
        tail = head_bytes h @ junk)"
      by blast
    then show ?thesis
      using x(1,2) Inr
      by (intro exI [of _ x] exI [of _ f'] exI [of _ w'] exI [of _ tail]) (simp only: sum.case simp_thms)
  next
    case (Inl e)
    then show ?thesis
      using x(1-3)
      by (intro exI [of _ x] exI [of _ f'] exI [of _ w'] exI [of _ tail])
        (simp add: write_state_def torn_head_def)
  qed
qed

theorem write_crash_states_witness:
  "\<exists>x f' w' tail. barc_write assoc_http cursor_olio buffering_codecs NoCompress sample_record
       (\<lparr>content = ''old'', fpos = 0\<rparr>, [None, None, Some (2, OtherIo 28)]) = Some (x, (f', w')) \<and>
     content f' = ''old'' @ tail"
  using write_crash_states [OF stores.record_writer_axioms,
      of assoc_http NoCompress sample_record "\<lparr>content = ''old'', fpos = 0\<rparr>"
        "[None, None, Some (2, OtherIo 28)]"]
  by auto


text \<open>
  C6: What \<^verbatim>\<open>read\<close> does at the place of an unfinished \<^verbatim>\<open>write\<close>, for every state that can be
  left there. At the end of the file, or at a whole head of which at most the first 19 bytes are
  final, followed by anything, it returns \<^verbatim>\<open>None\<close> and stays where it is, so that the caller can
  try again. At a head that the file ends within it returns an error with the number of bytes
  found and does not go back. At a head whose record type is final already, it never answers
  \<^verbatim>\<open>None\<close>: the record is taken for a written one.
\<close>
theorem unfinished_write_unseen:
  assumes "barc_store fs p_bytes p_patience s_bytes s_off s_patience g_bytes g_off g_patience cs bm H"
    and "p_bytes p = c @ tail" and "rp_tell fs p = length c"
  shows "(tail = [] \<or> (\<exists>h n junk. head_in_range h \<and> n \<le> 19 \<and> tail = torn_head n h @ junk) \<longrightarrow>
      (\<exists>p'. barc_read H fs bm tmp ds chk tune p v = Some (Ok None, (p', v)) \<and>
         p_bytes p' = p_bytes p \<and> barc_offset fs p' = barc_offset fs p)) \<and>
    (0 < length tail \<and> length tail < V2_HEAD_SIZE \<longrightarrow>
      (\<exists>p'. barc_read H fs bm tmp ds chk tune p v =
           Some (Err (ReadIncompleteRecHead (length tail)), (p', v)) \<and>
         barc_offset fs p' = length (p_bytes p))) \<and>
    (\<forall>h n junk. head_in_range h \<and> h_rec_type h \<noteq> Reserved \<and> 20 \<le> n \<and> n \<le> V2_HEAD_SIZE \<and>
        tail = torn_head n h @ junk \<longrightarrow>
      (\<forall>p' v'. barc_read H fs bm tmp ds chk tune p v \<noteq> Some (Ok None, (p', v'))))"
proof (intro conjI allI impI)
  assume "tail = [] \<or> (\<exists>h n junk. head_in_range h \<and> n \<le> 19 \<and> tail = torn_head n h @ junk)"
  from barc_store.unfinished_unseen [OF assms this]
  show "\<exists>p'. barc_read H fs bm tmp ds chk tune p v = Some (Ok None, (p', v)) \<and>
      p_bytes p' = p_bytes p \<and> barc_offset fs p' = barc_offset fs p"
    by (simp add: barc_offset_def)
next
  assume "0 < length tail \<and> length tail < V2_HEAD_SIZE"
  then show "\<exists>p'. barc_read H fs bm tmp ds chk tune p v =
        Some (Err (ReadIncompleteRecHead (length tail)), (p', v)) \<and>
      barc_offset fs p' = length (p_bytes p)"
    using barc_store.short_tail_error [OF assms] by (simp add: barc_offset_def)
next
  fix h n junk p' v'
  assume "head_in_range h \<and> h_rec_type h \<noteq> Reserved \<and> 20 \<le> n \<and> n \<le> V2_HEAD_SIZE \<and>
    tail = torn_head n h @ junk"
  then show "barc_read H fs bm tmp ds chk tune p v \<noteq> Some (Ok None, (p', v'))"
    using barc_store.typed_head_not_none [OF assms(1) _ assms(3)] assms(2) by blast
qed

theorem unfinished_write_unseen_witness:
  "(\<exists>p'. barc_read assoc_http cursor_olio grow_buf scripted_tempfile identity_decoders True sample_tune
       \<lparr>cur_bytes = ''old'' @ torn_head 10 sample_head @ ''junk'', cur_pos = 3\<rparr> [] =
     Some (Ok None, (p', [])) \<and> cur_pos p' = 3) \<and>
   (\<exists>p'. barc_read assoc_http cursor_olio grow_buf scripted_tempfile identity_decoders True sample_tune
       \<lparr>cur_bytes = ''old'' @ ''BARC2'', cur_pos = 3\<rparr> [] =
     Some (Err (ReadIncompleteRecHead 5), (p', [])) \<and> cur_pos p' = 8)"
proof
  have "\<exists>h n junk. head_in_range h \<and> n \<le> 19 \<and>
      torn_head 10 sample_head @ ''junk'' = torn_head n h @ junk"
    using sample_head_in_range
    by (intro exI [of _ sample_head] exI [of _ 10] exI [of _ "''junk''"]) simp
  then show "\<exists>p'. barc_read assoc_http cursor_olio grow_buf scripted_tempfile identity_decoders True sample_tune
       \<lparr>cur_bytes = ''old'' @ torn_head 10 sample_head @ ''junk'', cur_pos = 3\<rparr> [] =
     Some (Ok None, (p', [])) \<and> cur_pos p' = 3"
    using unfinished_write_unseen [THEN conjunct1, OF stores.barc_store_axioms,
        of "\<lparr>cur_bytes = ''old'' @ torn_head 10 sample_head @ ''junk'', cur_pos = 3\<rparr>" "''old''"
          "torn_head 10 sample_head @ ''junk''" scripted_tempfile identity_decoders True sample_tune "[]"]
    by (auto simp: barc_offset_def)
  show "\<exists>p'. barc_read assoc_http cursor_olio grow_buf scripted_tempfile identity_decoders True sample_tune
       \<lparr>cur_bytes = ''old'' @ ''BARC2'', cur_pos = 3\<rparr> [] =
     Some (Err (ReadIncompleteRecHead 5), (p', [])) \<and> cur_pos p' = 8"
    using unfinished_write_unseen [THEN conjunct2, THEN conjunct1, OF stores.barc_store_axioms,
      of "\<lparr>cur_bytes = ''old'' @ ''BARC2'', cur_pos = 3\<rparr>" "''old''" "''BARC2''" scripted_tempfile identity_decoders True
        sample_tune "[]"]
    by (simp add: barc_offset_def V2_HEAD_SIZE_def eval_nat_numeral)
qed

text \<open>
  C16: When the overwriting of the head stops after 21 or 22 of its bytes, so that the length and
  the flags are final and the block lengths still zero, the reader takes the record for a
  complete one without headers, and all of the payload but its last two bytes for the response
  body.
\<close>
theorem torn_head_misread:
  assumes "barc_store fs p_bytes p_patience s_bytes s_off s_patience g_bytes g_off g_patience cs bm H"
    and "p_bytes p = c @ torn_head n h @ bs @ CRLF" and "rp_tell fs p = length c"
    and "head_in_range h" and "h_rec_type h \<noteq> Reserved" and "h_compress h = Plain"
    and "h_len h = length bs + 2" and "bs \<noteq> []" and "21 \<le> n" and "n \<le> 22"
    and "length (p_bytes p) < 2 ^ 63"
  shows "\<exists>rec' p'. barc_read H fs bm tmp ds chk tune p v = Some (Ok (Some rec'), (p', v)) \<and>
    r_meta rec' = hm_new H \<and> r_req_headers rec' = hm_new H \<and> r_res_headers rec' = hm_new H \<and>
    image_bytes s_bytes (r_req_body rec') = [] \<and> image_bytes s_bytes (r_res_body rec') = bs"
  by (rule barc_store.torn_head_read [OF assms])

theorem torn_head_misread_witness:
  "\<exists>rec' p'. barc_read assoc_http cursor_olio grow_buf scripted_tempfile identity_decoders True sample_tune
       \<lparr>cur_bytes = torn_head 21 (payload_head assoc_http (\<lambda>s. cur_bytes (fst s)) Plain sample_record) @
           record_payload assoc_http (\<lambda>s. cur_bytes (fst s)) True sample_record, cur_pos = 0\<rparr> [] =
     Some (Ok (Some rec'), (p', [])) \<and> r_meta rec' = assoc_empty \<and>
     image_bytes (\<lambda>s. cur_bytes (fst s)) (r_res_body rec') = ''url: /a'' @ CRLF @ CRLF @ ''abc''"
proof -
  let ?h = "payload_head assoc_http (\<lambda>s. cur_bytes (fst s)) Plain sample_record"
  let ?bs = "''url: /a'' @ CRLF @ CRLF @ ''abc''"
  have h: "h_rec_type ?h \<noteq> Reserved" "h_compress ?h = Plain" "h_len ?h = length ?bs + 2" "?bs \<noteq> []"
    by (simp_all add: sample_head_fields CRLF_def)
  have l: "length (torn_head 21 ?h) = V2_HEAD_SIZE"
    by (rule length_torn_head [OF sample_ok(5)]) (simp add: V2_HEAD_SIZE_def)
  show ?thesis
    using torn_head_misread [OF stores.barc_store_axioms _ _ sample_ok(5) h,
        of "\<lparr>cur_bytes = torn_head 21 ?h @ ?bs @ CRLF, cur_pos = 0\<rparr>" "[]" 21 scripted_tempfile identity_decoders True sample_tune "[]"]
    by (auto simp: sample_payload l V2_HEAD_SIZE_def CRLF_def)
qed

text \<open>
  A head that states one or two bytes of meta headers, which no writer produces but the
  parser accepts, makes \<^verbatim>\<open>read\<close> panic instead of returning an error.
\<close>
theorem short_block_panic:
  assumes "barc_store fs p_bytes p_patience s_bytes s_off s_patience g_bytes g_off g_patience cs bm H"
    and "p_bytes p = c @ head_bytes h @ t" and "rp_tell fs p = length c"
    and "head_in_range h" and "h_rec_type h \<noteq> Reserved" and "h_compress h = Plain"
    and "h_meta h = 1 \<or> h_meta h = 2"
  shows "\<exists>p'. barc_read H fs bm tmp ds chk tune p v =
    Some (panic ''assertion failed: len > 2'', (p', v))"
  by (rule barc_store.short_block_panics [OF assms])

theorem short_block_panic_witness:
  "\<exists>p'. barc_read assoc_http cursor_olio grow_buf scripted_tempfile identity_decoders True sample_tune
      \<lparr>cur_bytes = head_bytes (sample_head\<lparr>h_meta := 2\<rparr>), cur_pos = 0\<rparr> [] =
    Some (panic ''assertion failed: len > 2'', (p', []))"
proof -
  have "head_in_range (sample_head\<lparr>h_meta := 2\<rparr>)"
    by (simp add: head_in_range_def sample_head_def v2_defs)
  from short_block_panic [OF stores.barc_store_axioms _ _ this,
      of "\<lparr>cur_bytes = head_bytes (sample_head\<lparr>h_meta := 2\<rparr>), cur_pos = 0\<rparr>" "[]" "[]"]
  show ?thesis by (simp add: sample_head_def)
qed

text \<open>
  C17: A head whose total length is less than its own blocks makes \<^verbatim>\<open>read\<close> subtract below zero:
  with overflow checks it panics. (Without them the length of the response body wraps around.)
\<close>
theorem short_length_panic:
  assumes "barc_store fs p_bytes p_patience s_bytes s_off s_patience g_bytes g_off g_patience cs bm H"
    and "p_bytes p = c @ head_bytes h @ record_payload H s_bytes True rec @ t"
    and "rp_tell fs p = length c"
    and "h = (payload_head H s_bytes Plain rec)\<lparr>h_len := n\<rparr>" and "head_in_range h"
    and "blocks_ok H rec" and "r_type rec \<noteq> Reserved"
    and "n < length (record_payload H s_bytes True rec) -
      length (body_out True (image_bytes s_bytes (r_res_body rec)))"
    and "length (p_bytes p) < 2 ^ 63"
  shows "\<exists>p'. barc_read H fs bm tmp ds True tune p v =
    Some (panic ''attempt to subtract with overflow'', (p', v))"
  by (rule barc_store.short_length_panics [OF assms])

theorem short_length_panic_witness:
  "\<exists>p'. barc_read assoc_http cursor_olio grow_buf scripted_tempfile identity_decoders True sample_tune
      \<lparr>cur_bytes = head_bytes ((payload_head assoc_http (\<lambda>s. cur_bytes (fst s)) Plain sample_record)
           \<lparr>h_len := 10\<rparr>) @
         record_payload assoc_http (\<lambda>s. cur_bytes (fst s)) True sample_record, cur_pos = 0\<rparr> [] =
    Some (panic ''attempt to subtract with overflow'', (p', []))"
proof -
  let ?h = "(payload_head assoc_http (\<lambda>s. cur_bytes (fst s)) Plain sample_record)\<lparr>h_len := 10\<rparr>"
  let ?all = "record_payload assoc_http (\<lambda>s. cur_bytes (fst s)) True sample_record"
  have r: "head_in_range ?h" by (simp add: sample_head_fields head_in_range_def v2_defs)
  have n: "10 < length ?all -
      length (body_out True (image_bytes (\<lambda>s. cur_bytes (fst s)) (r_res_body sample_record)))"
    unfolding sample_payload
    by (simp add: sample_record_def image_bytes_def body_out_def CRLF_def)
  have l: "length ?all = 16" by (simp add: sample_payload CRLF_def)
  show ?thesis
    using short_length_panic [OF stores.barc_store_axioms _ _ refl r sample_ok(3,4) n,
        of "\<lparr>cur_bytes = head_bytes ?h @ ?all, cur_pos = 0\<rparr>" "[]" "[]" scripted_tempfile identity_decoders sample_tune "[]"]
      length_head_bytes [OF r] l
    by (simp add: V2_HEAD_SIZE_def)
qed


text \<open>
  C12: Over any run of the writing side (opening and dropping writers, writes that succeed, fail
  or panic, in any order), the file only grows: it is the initial contents followed by what the
  writes left, each in one of the states of \<open>write_state\<close>.
\<close>
theorem file_only_grows:
  assumes "record_writer fs p_bytes p_patience s_bytes s_off s_patience g_bytes g_off g_patience cs"
    and "barc_run H fs cs disk (s, log)"
  shows "\<exists>tails. disk_bytes (bf_disk s) = disk_bytes disk @ concat tails \<and>
    list_all write_state tails"
  using record_writer.run_invariant [OF assms] by simp

text \<open>
  C1: Durability: after any such run, with failures and panics before and after, every record
  whose \<^verbatim>\<open>write\<close> returned an offset stands in the file at this offset, under a complete head with
  the type of the record, the compression used and the number of bytes that follow. If the record
  was written uncompressed, is not of the reserved type and has header blocks that the parser
  takes (at most 128 headers in each, no value with blanks around it), and the file is shorter
  than \<open>2^63\<close> bytes, then a reader at this offset gets it, with the same contents, and stands
  behind it afterwards.
\<close>
theorem committed_records_stay:
  assumes "barc_store fs p_bytes p_patience s_bytes s_off s_patience g_bytes g_off g_patience cs bm H"
    and "barc_run H fs cs disk (s, log)" and "(start, st, rec) \<in> set log"
    and "p_bytes p = disk_bytes (bf_disk s)" and "rp_tell fs p = start"
  shows "(\<exists>c h junk t. disk_bytes (bf_disk s) = c @ head_bytes h @ junk @ t \<and> start = length c \<and>
      head_in_range h \<and> h_len h = length junk \<and> h_rec_type h = r_type rec \<and>
      h_compress h = encode_mode (wrap_encoder H cs st rec)) \<and>
    (wrap_encoder H cs st rec = EncPlain \<and>
       image_ok fs s_bytes s_off (r_req_body rec) \<and> image_ok fs s_bytes s_off (r_res_body rec) \<and>
       blocks_ok H rec \<and> r_type rec \<noteq> Reserved \<and> length (p_bytes p) < 2 ^ 63 \<longrightarrow>
     (\<exists>rec' p'. barc_read H fs bm tmp ds chk tune p v = Some (Ok (Some rec'), (p', v)) \<and>
        same_record H s_bytes rec' rec \<and>
        barc_offset fs p' = start + length (entry_bytes H s_bytes rec)))"
proof -
  have "record_writer fs p_bytes p_patience s_bytes s_off s_patience g_bytes g_off g_patience cs"
    using assms(1) by (simp add: barc_store_def)
  then have e: "entry_at H fs s_bytes s_off cs (p_bytes p) (start, st, rec)"
    using record_writer.run_invariant [OF _ assms(2)] assms(3,4) by auto
  show ?thesis
  proof (rule conjI)
    show "\<exists>c h junk t. disk_bytes (bf_disk s) = c @ head_bytes h @ junk @ t \<and> start = length c \<and>
        head_in_range h \<and> h_len h = length junk \<and> h_rec_type h = r_type rec \<and>
        h_compress h = encode_mode (wrap_encoder H cs st rec)"
      using e assms(4) unfolding entry_at_def entry_block_def prod.case by metis
  qed (use barc_store.entry_read_back [OF assms(1) e _ _ _ _ _ assms(5)] in
      \<open>auto simp: barc_offset_def\<close>)
qed

text \<open>
  A panic inside \<^verbatim>\<open>write\<close> poisons the mutex for good: from then on no call of the writing
  side changes the file or the log, and every call of \<^verbatim>\<open>writer\<close> panics.
\<close>
theorem poisoned_file_stuck:
  assumes "record_writer fs p_bytes p_patience s_bytes s_off s_patience g_bytes g_off g_patience cs"
    and "barc_run H fs cs disk (s, log)" and "bf_poisoned s"
    and "barc_step H fs cs (s, log) sl"
  shows "sl = (s, log) \<and> (\<exists>m. barc_file_writer s w = Some (panic m, (s, w)))"
proof -
  have ok: "barc_file_ok s" using record_writer.run_invariant [OF assms(1,2)] by simp
  then have free: "\<not> bf_held s" using assms(3) by (simp add: barc_file_ok_def)
  from assms(4) have "sl = (s, log)"
    by (cases rule: barc_step.cases) (use free assms(3) writer_cases [OF _ ok] in auto)
  then show ?thesis using free assms(3) by (simp add: barc_file_writer_def)
qed

definition open_store :: "bytes \<Rightarrow> barc_file" where
  "open_store c = \<lparr>bf_disk = Some c, bf_file = Some 0, bf_held = True, bf_poisoned = False\<rparr>"

lemma run_open:
  "barc_run H fs cs (Some c) (open_store c, [])"
proof -
  have "barc_file_writer (barc_file_new (Some c)) [] = Some (Ok (), (open_store c, []))"
    by (simp add: barc_file_writer_def barc_file_new_def open_store_def)
  from barc_run.step [OF barc_run.start barc_step.writer [OF this]] show ?thesis .
qed

lemma sample_commit:
  obtains s where "barc_run assoc_http cursor_olio buffering_codecs (Some ''old'')
      (s, [(3, NoCompress, sample_record)])"
    "bf_disk s = Some (''old'' @ sample_bytes)"
proof -
  obtain f' w' where w: "barc_write assoc_http cursor_olio buffering_codecs NoCompress sample_record
      (\<lparr>content = ''old'', fpos = 0\<rparr>, []) = Some (Ok 3, (f', w'))" "content f' = ''old'' @ sample_bytes"
    using sample_write [of "''old''" 0] by auto
  let ?s = "(open_store ''old'')\<lparr>bf_disk := Some (content f'), bf_file := Some (fpos f')\<rparr>"
  have h: "bf_held (open_store ''old'')" by (simp add: open_store_def)
  have "barc_writer_write assoc_http cursor_olio buffering_codecs NoCompress sample_record
      (open_store ''old'') [] = Some (Ok 3, (?s, w'))"
    using w(1) by (simp add: barc_writer_write_def open_store_def)
  from barc_run.step [OF run_open barc_step.committed [OF h this, of "[]"]] w(2) that show ?thesis
    by simp
qed

theorem file_only_grows_witness:
  "\<exists>s tails. barc_run assoc_http cursor_olio buffering_codecs (Some ''old'')
      (s, [(3, NoCompress, sample_record)]) \<and>
    disk_bytes (bf_disk s) = ''old'' @ concat tails \<and> list_all write_state tails"
proof -
  obtain s where s: "barc_run assoc_http cursor_olio buffering_codecs (Some ''old'')
      (s, [(3, NoCompress, sample_record)])"
    by (rule sample_commit)
  with file_only_grows [OF stores.record_writer_axioms s] show ?thesis by auto
qed

theorem committed_records_stay_witness:
  "\<exists>s rec' p'. barc_run assoc_http cursor_olio buffering_codecs (Some ''old'')
      (s, [(3, NoCompress, sample_record)]) \<and>
    barc_read assoc_http cursor_olio grow_buf scripted_tempfile identity_decoders True sample_tune
      \<lparr>cur_bytes = disk_bytes (bf_disk s), cur_pos = 3\<rparr> [] = Some (Ok (Some rec'), (p', [])) \<and>
    same_record assoc_http (\<lambda>s. cur_bytes (fst s)) rec' sample_record"
proof -
  obtain s where s: "barc_run assoc_http cursor_olio buffering_codecs (Some ''old'')
      (s, [(3, NoCompress, sample_record)])" "bf_disk s = Some (''old'' @ sample_bytes)"
    by (rule sample_commit)
  have "length (disk_bytes (bf_disk s)) < 2 ^ 63" by (simp add: s(2) length_sample)
  then show ?thesis
    using committed_records_stay [THEN conjunct2, OF stores.barc_store_axioms s(1),
        of 3 NoCompress sample_record "\<lparr>cur_bytes = disk_bytes (bf_disk s), cur_pos = 3\<rparr>"
          scripted_tempfile identity_decoders True sample_tune "[]"] s(1) sample_ok(1-4) sample_ok(6)
    by auto
qed


text \<open>A body that states more than a record can hold.\<close>

lemma huge_body_panics:
  assumes "rec = \<lparr>r_type = DialogRecord, r_meta = assoc_empty, r_req_headers = assoc_empty,
    r_req_body = image_empty, r_res_headers = assoc_empty,
    r_res_body = image_from_file \<lparr>content = [], fpos = 0\<rparr> V2_MAX_RECORD\<rparr>"
  shows "\<exists>fw. barc_write assoc_http cursor_olio buffering_codecs NoCompress rec
    (\<lparr>content = c, fpos = 0\<rparr>, []) = Some (panic ''body exceeds size limit'', fw)"
  by (simp add: assms barc_write_def seek_file_def write_record_head_in_range write_all_len_def
      write_record_def wrap_encoder_cases write_parts_def write_headers_def write_crlf_def
      write_body_def write_to_def image_empty_def image_from_file_def split_beta v2_defs)

theorem poisoned_file_stuck_witness:
  "\<exists>s. barc_run assoc_http cursor_olio buffering_codecs (Some ''old'') (s, []) \<and>
     bf_poisoned s \<and> (\<exists>m. barc_file_writer s [] = Some (panic m, (s, [])))"
proof -
  let ?s = "open_store ''old''"
  let ?rec = "\<lparr>r_type = DialogRecord, r_meta = assoc_empty, r_req_headers = assoc_empty,
    r_req_body = image_empty, r_res_headers = assoc_empty,
    r_res_body = image_from_file \<lparr>content = [], fpos = 0\<rparr> V2_MAX_RECORD\<rparr> :: (assoc_map, cursor \<times> nat) barc_record"
  obtain f' w' where w: "barc_write assoc_http cursor_olio buffering_codecs NoCompress ?rec
      (\<lparr>content = ''old'', fpos = 0\<rparr>, []) = Some (panic ''body exceeds size limit'', (f', w'))"
    using huge_body_panics [OF refl, of "''old''"] by (metis prod.exhaust)
  let ?t = "?s\<lparr>bf_disk := Some (content f'), bf_file := Some (fpos f'), bf_held := False,
    bf_poisoned := True\<rparr>"
  have h: "bf_held ?s" by (simp add: open_store_def)
  have "barc_writer_write assoc_http cursor_olio buffering_codecs NoCompress ?rec ?s [] =
      Some (panic ''body exceeds size limit'', (?t, w'))"
    using w by (simp add: barc_writer_write_def open_store_def)
  from barc_run.step [OF run_open barc_step.failed [OF h this, of "[]"]]
  have run: "barc_run assoc_http cursor_olio buffering_codecs (Some ''old'') (?t, [])" .
  have "barc_file_writer ?t [] =
      Some (panic ''called `Result::unwrap()` on an `Err` value: PoisonError'', (?t, []))"
    by (simp add: barc_file_writer_def)
  note step = barc_step.writer [OF this, of assoc_http cursor_olio buffering_codecs "[]"]
  show ?thesis
    using run poisoned_file_stuck [OF stores.record_writer_axioms run _ step, of "[]"] by auto
qed

end
