(* ===== verification/Barc_Cli.thy ===== *)
theory Barc_Cli
  imports Barc_File
begin

text \<open>
  The commands \<^verbatim>\<open>cat\<close> and \<^verbatim>\<open>cp\<close> of the command line tool (\<^verbatim>\<open>barc-cli/src/main.rs\<close>),
  with the flags that select records, fields and compression.

  The lemmas follow the two loops over a file of records. They show that \<^verbatim>\<open>cp\<close> copies records
  without changing them, and what the index, the count and the printed offsets really are.
\<close>

section \<open>Flags\<close>

datatype cli_error = ClError string | FromBarc barc_error | ParseInt

datatype start_pos = Offset nat | Index nat

record parts =
  pt_meta :: bool
  pt_req_head :: bool
  pt_req_body :: bool
  pt_res_head :: bool
  pt_res_body :: bool

definition parts_falsie :: parts where
  "parts_falsie = \<lparr>pt_meta = False, pt_req_head = False, pt_req_body = False,
     pt_res_head = False, pt_res_body = False\<rparr>"

definition parts_default :: parts where
  "parts_default = \<lparr>pt_meta = True, pt_req_head = True, pt_req_body = True,
     pt_res_head = True, pt_res_body = True\<rparr>"

text \<open>The flags that are present, as a set of their names.\<close>

definition part_flags :: "string list \<Rightarrow> parts" where
  "part_flags present =
     (let has = (\<lambda>n. List.member present n)
      in if has ''meta'' \<or> has ''req_head'' \<or> has ''req_body'' \<or> has ''res_head'' \<or> has ''res_body''
         then parts_falsie\<lparr>pt_meta := has ''meta'', pt_req_head := has ''req_head'',
           pt_req_body := has ''req_body'', pt_res_head := has ''res_head'',
           pt_res_body := has ''res_body''\<rparr>
         else parts_default)"

definition compress_flags :: "string list \<Rightarrow> strategy" where
  "compress_flags present =
     (let cs = NoCompress;
          cs = (if List.member present ''brotli''
                then BrotliStrategy (set_check_identity True brotli_default) else cs)
      in if List.member present ''gzip''
         then GzipStrategy (set_check_identity True gzip_default) else cs)"

text \<open>
  \<^verbatim>\<open>u64::from_str_radix\<close> and \<^verbatim>\<open>parse\<close>: an optional plus sign and one or more digits of
  either case, without overflow.
\<close>

definition digit_of :: "nat \<Rightarrow> byte \<Rightarrow> nat option" where
  "digit_of radix c =
     (let n = of_char c :: nat;
          d = (if 48 \<le> n \<and> n \<le> 57 then n - 48
               else if 97 \<le> n \<and> n \<le> 122 then n - 87
               else if 65 \<le> n \<and> n \<le> 90 then n - 55 else radix)
      in if d < radix then Some d else None)"

fun digits_from :: "nat \<Rightarrow> nat \<Rightarrow> bytes \<Rightarrow> nat option" where
  "digits_from radix v [] = Some v"
| "digits_from radix v (c # cs) =
     (case digit_of radix c of
        None \<Rightarrow> None
      | Some d \<Rightarrow> if v * radix + d < 2 ^ 64 then digits_from radix (v * radix + d) cs else None)"

definition from_str_radix :: "nat \<Rightarrow> bytes \<Rightarrow> (cli_error, nat) result" where
  "from_str_radix radix v =
     (let ds = (case v of c # cs \<Rightarrow> if c = CHR ''+'' then cs else v | [] \<Rightarrow> v)
      in if ds = [] then Err ParseInt
         else case digits_from radix 0 ds of None \<Rightarrow> Err ParseInt | Some n \<Rightarrow> Ok n)"

definition filter_flags ::
  "nat \<Rightarrow> bytes option \<Rightarrow> bytes option \<Rightarrow> bytes option
     \<Rightarrow> (cli_error, start_pos \<times> nat) result" where
  "filter_flags files_len index offset limit =
     bindR (case index of
         None \<Rightarrow> Ok (Index 0)
       | Some v \<Rightarrow>
           if 1 < files_len
           then Err (ClError ''--index flag can't be applied to more than one input file'')
           else bindR (from_str_radix 10 v) (\<lambda>n. Ok (Index n))) (\<lambda>start.
     bindR (case offset of
         None \<Rightarrow> Ok start
       | Some v \<Rightarrow>
           if 1 < files_len
           then Err (ClError ''--offset flag can't be applied to more than one input file'')
           else bindR (if take 2 v = ''0x'' then from_str_radix 16 (drop 2 v)
                       else from_str_radix 10 v) (\<lambda>n. Ok (Offset n))) (\<lambda>start.
     bindR (case limit of
         None \<Rightarrow> Ok (2 ^ 64 - 1)
       | Some v \<Rightarrow>
           if 1 < files_len
           then Err (ClError ''--count flag can't be applied to more than one input file'')
           else from_str_radix 10 v) (\<lambda>limit.
       Ok (start, limit))))"

section \<open>Printing records\<close>

text \<open>
  \<^verbatim>\<open>{:-<38}\<close> and \<^verbatim>\<open>{:#012x}\<close> in the separator line. The formatter pads by characters: the
  bytes of the path, which is well formed UTF-8, that do not continue one.
\<close>

definition char_count :: "bytes \<Rightarrow> nat" where
  "char_count s = length (List.filter (\<lambda>c. of_char c div 64 \<noteq> (2 :: nat)) s)"

definition cat_line :: "bytes \<Rightarrow> nat \<Rightarrow> bytes" where
  "cat_line path offset =
     ''====== file '' @ path @ replicate (38 - char_count path) (CHR ''-'') @ '' offset 0x'' @
     fmt_hex 10 offset @ '' ======'' @ [LF]"

text \<open>\<^verbatim>\<open>println!\<close> panics when standard output fails; then the selected parts, in order.\<close>

definition cat_part ::
  "bool \<Rightarrow> (barc_error, nat, 'w) outcome \<Rightarrow> 'w \<Rightarrow> (cli_error, unit, 'w) outcome" where
  "cat_part selected m out =
     (if selected then bindO (map_errO FromBarc m) (\<lambda>_ out. Some (Ok (), out))
      else Some (Ok (), out))"

definition cat_record ::
  "'h http \<Rightarrow> ('p, 's, 'g) olio \<Rightarrow> 'w writer \<Rightarrow> parts \<Rightarrow> bytes \<Rightarrow> nat \<Rightarrow> ('h, 's) barc_record
     \<Rightarrow> 'w \<Rightarrow> (cli_error, unit, 'w) outcome" where
  "cat_record H fs wr parts path offset rec out =
     (case wr out (cat_line path offset) of
        (Inl e, out) \<Rightarrow> Some (panic ''failed printing to stdout'', out)
      | (Inr u, out) \<Rightarrow>
          bindO (cat_part (pt_meta parts) (Some (write_headers H wr out True (r_meta rec))) out) (\<lambda>_ out.
          bindO (cat_part (pt_req_head parts)
            (Some (write_headers H wr out True (r_req_headers rec))) out) (\<lambda>_ out.
          bindO (cat_part (pt_req_body parts) (write_body fs wr out True (r_req_body rec)) out) (\<lambda>_ out.
          bindO (cat_part (pt_res_head parts)
            (Some (write_headers H wr out True (r_res_headers rec))) out) (\<lambda>_ out.
          cat_part (pt_res_body parts) (write_body fs wr out True (r_res_body rec)) out)))))"

definition skips :: "start_pos \<Rightarrow> nat \<Rightarrow> bool" where
  "skips start i = (case start of Index s \<Rightarrow> i < s | Offset n \<Rightarrow> False)"

text \<open>
  The loop of \<^verbatim>\<open>cat\<close>. Its state is the counter, the offset to print next, the reader, the
  script of the file system and standard output.
\<close>

partial_function (option) cat_loop ::
  "'h http \<Rightarrow> ('p, 's, 'g) olio \<Rightarrow> 'b bytes_mut \<Rightarrow> temp_fn \<Rightarrow> ('s, 'd) decoders \<Rightarrow> bool \<Rightarrow> tunables
     \<Rightarrow> 'w writer \<Rightarrow> bytes \<Rightarrow> start_pos \<Rightarrow> nat \<Rightarrow> parts \<Rightarrow> nat \<Rightarrow> nat \<Rightarrow> 'p \<Rightarrow> io_script \<Rightarrow> 'w
     \<Rightarrow> (cli_error, unit, 'w) outcome" where
  "cat_loop H fs bm tmp ds chk tune wr path start limit parts i offset p w out =
     (case barc_read H fs bm tmp ds chk tune p w of
        None \<Rightarrow> None
      | Some (Inl x, pw) \<Rightarrow> Some (map_err FromBarc (Inl x), out)
      | Some (Inr None, pw) \<Rightarrow> Some (Ok (), out)
      | Some (Inr (Some rec), (p, w)) \<Rightarrow>
          if skips start i
          then cat_loop H fs bm tmp ds chk tune wr path start limit parts (i + 1) offset p w out
          else if limit < i + 1 then Some (Ok (), out)
          else (case cat_record H fs wr parts path offset rec out of
              None \<Rightarrow> None
            | Some (Inl x, out) \<Rightarrow> Some (Inl x, out)
            | Some (Inr u, out) \<Rightarrow>
                cat_loop H fs bm tmp ds chk tune wr path start limit parts (i + 1)
                  (barc_offset fs p) p w out))"

text \<open>What both commands do first: open the reader and go to the offset, if one is given.\<close>

definition open_reader ::
  "('p, 's, 'g) olio \<Rightarrow> start_pos \<Rightarrow> barc_file \<Rightarrow> io_script \<Rightarrow> (barc_error, 'p) result \<times> io_script" where
  "open_reader fs start bfile w =
     bindT (barc_file_reader fs bfile w) (\<lambda>reader w.
       case start of
         Offset n \<Rightarrow>
           (case barc_seek fs reader n of
              (Inl x, p) \<Rightarrow> (Inl x, w)
            | (Inr u, p) \<Rightarrow> (Ok p, w))
       | Index s \<Rightarrow> (Ok reader, w))"

definition cat ::
  "'h http \<Rightarrow> ('p, 's, 'g) olio \<Rightarrow> 'b bytes_mut \<Rightarrow> temp_fn \<Rightarrow> ('s, 'd) decoders \<Rightarrow> bool \<Rightarrow> path
     \<Rightarrow> 'w writer \<Rightarrow> bytes \<Rightarrow> bytes option \<Rightarrow> start_pos \<Rightarrow> nat \<Rightarrow> parts \<Rightarrow> io_script \<Rightarrow> 'w
     \<Rightarrow> (cli_error, unit, 'w) outcome" where
  "cat H fs bm tmp ds chk env_tmp wr path disk start limit parts w out =
     (case open_reader fs start (barc_file_new disk) w of
        (Inl x, w) \<Rightarrow> Some (map_err FromBarc (Inl x), out)
      | (Inr p, w) \<Rightarrow>
          cat_loop H fs bm tmp ds chk (tunables_new env_tmp) wr path start limit parts 0
            (barc_offset fs p) p w out)"

section \<open>Copying records\<close>

partial_function (option) cp_loop ::
  "'h http \<Rightarrow> ('p, 's, 'g) olio \<Rightarrow> 'b bytes_mut \<Rightarrow> temp_fn \<Rightarrow> ('s, 'd) decoders \<Rightarrow> bool \<Rightarrow> tunables
     \<Rightarrow> 'z codecs \<Rightarrow> start_pos \<Rightarrow> nat \<Rightarrow> strategy \<Rightarrow> nat \<Rightarrow> 'p \<Rightarrow> barc_file \<Rightarrow> io_script
     \<Rightarrow> (cli_error, unit, barc_file \<times> io_script) outcome" where
  "cp_loop H fs bm tmp ds chk tune cs start limit strategy i p s w =
     (case barc_read H fs bm tmp ds chk tune p w of
        None \<Rightarrow> None
      | Some (Inl x, (p, w)) \<Rightarrow> Some (map_err FromBarc (Inl x), (s, w))
      | Some (Inr None, (p, w)) \<Rightarrow> Some (Ok (), (s, w))
      | Some (Inr (Some rec), (p, w)) \<Rightarrow>
          if skips start i
          then cp_loop H fs bm tmp ds chk tune cs start limit strategy (i + 1) p s w
          else if limit < i + 1 then Some (Ok (), (s, w))
          else (case barc_writer_write H fs cs strategy rec s w of
              None \<Rightarrow> None
            | Some (Inl x, (s, w)) \<Rightarrow> Some (map_err FromBarc (Inl x), (s, w))
            | Some (Inr n, (s, w)) \<Rightarrow>
                cp_loop H fs bm tmp ds chk tune cs start limit strategy (i + 1) p s w))"

text \<open>
  The result keeps what the output file holds at the end, on an error too. As in the code, two files
  are the same when their names are; that files with different names are different, no links or
  other spellings of one path, is an assumption of the model.
\<close>

definition cp ::
  "'h http \<Rightarrow> ('p, 's, 'g) olio \<Rightarrow> 'b bytes_mut \<Rightarrow> temp_fn \<Rightarrow> ('s, 'd) decoders \<Rightarrow> bool \<Rightarrow> path
     \<Rightarrow> 'z codecs \<Rightarrow> bytes \<times> bytes option \<Rightarrow> bytes \<times> bytes option \<Rightarrow> start_pos \<Rightarrow> nat \<Rightarrow> strategy
     \<Rightarrow> io_script \<Rightarrow> (cli_error, unit, bytes option) outcome" where
  "cp H fs bm tmp ds chk env_tmp cs barc_in barc_out start limit strategy w =
     (if fst barc_in = fst barc_out
      then Some (Err (ClError (''BARC input and output file are the same: '' @ fst barc_in)),
        snd barc_out)
      else case open_reader fs start (barc_file_new (snd barc_in)) w of
          (Inl x, w) \<Rightarrow> Some (map_err FromBarc (Inl x), snd barc_out)
        | (Inr p, w) \<Rightarrow>
            (case barc_file_writer (barc_file_new (snd barc_out)) w of
               None \<Rightarrow> None
             | Some (Inl x, (s, w)) \<Rightarrow> Some (map_err FromBarc (Inl x), bf_disk s)
             | Some (Inr u, (s, w)) \<Rightarrow>
                 (case cp_loop H fs bm tmp ds chk (tunables_new env_tmp) cs start limit strategy 0 p s w of
                    None \<Rightarrow> None
                  | Some (x, (s, w)) \<Rightarrow> Some (x, bf_disk (barc_writer_drop s)))))"


section \<open>What the loops select\<close>

fun selected :: "start_pos \<Rightarrow> nat \<Rightarrow> nat \<Rightarrow> 'r list \<Rightarrow> 'r list" where
  "selected start limit i [] = []"
| "selected start limit i (r # rs) =
     (if skips start i then selected start limit (i + 1) rs
      else if limit < i + 1 then []
      else r # selected start limit (i + 1) rs)"

lemma selected_index: "selected (Index s) n i rs = drop (s - i) (take (n - i) rs)"
proof (induction rs arbitrary: i)
  case (Cons r rs)
  then show ?case
    by (cases "i < s") (simp_all add: skips_def take_Cons' drop_Cons')
qed simp

lemma selected_offset: "selected (Offset k) n i rs = take (n - i) rs"
proof (induction rs arbitrary: i)
  case (Cons r rs)
  then show ?case by (simp add: skips_def take_Cons')
qed simp

text \<open>A file of uncompressed records, each of which can also be written.\<close>

definition all_readable :: "'h http \<Rightarrow> ('s \<Rightarrow> bytes) \<Rightarrow> ('h, 's) barc_record list \<Rightarrow> bool" where
  "all_readable H sb recs \<longleftrightarrow>
     (\<forall>rec \<in> set recs. readable H sb rec \<and>
        h_len (payload_head H sb Plain rec) + 2 \<le> V2_MAX_RECORD)"

definition log_bytes :: "'h http \<Rightarrow> ('s \<Rightarrow> bytes) \<Rightarrow> ('h, 's) barc_record list \<Rightarrow> bytes" where
  "log_bytes H sb recs = concat (map (entry_bytes H sb) recs)"

lemma log_bytes_simps [simp]:
  "log_bytes H sb [] = []" "log_bytes H sb (r # rs) = entry_bytes H sb r @ log_bytes H sb rs"
  by (simp_all add: log_bytes_def)

lemma all_readable_simps [simp]:
  "all_readable H sb (r # rs) \<longleftrightarrow> readable H sb r \<and>
     h_len (payload_head H sb Plain r) + 2 \<le> V2_MAX_RECORD \<and> all_readable H sb rs"
  by (auto simp: all_readable_def)

text \<open>The offsets that \<^verbatim>\<open>cat\<close> prints: that of the first record is where it started reading.\<close>

fun printed :: "start_pos \<Rightarrow> nat \<Rightarrow> nat \<Rightarrow> nat \<Rightarrow> nat \<Rightarrow> ('r \<Rightarrow> nat) \<Rightarrow> 'r list \<Rightarrow> nat list" where
  "printed start limit i offset at len [] = []"
| "printed start limit i offset at len (r # rs) =
     (if skips start i then printed start limit (i + 1) offset (at + len r) len rs
      else if limit < i + 1 then []
      else offset # printed start limit (i + 1) (at + len r) (at + len r) len rs)"

text \<open>Where the records of a file start.\<close>

fun offsets :: "nat \<Rightarrow> ('r \<Rightarrow> nat) \<Rightarrow> 'r list \<Rightarrow> nat list" where
  "offsets at len [] = []"
| "offsets at len (r # rs) = at # offsets (at + len r) len rs"

lemma selected_all: "\<not> skips start i \<Longrightarrow> selected start limit i rs = take (limit - i) rs"
proof (induction rs arbitrary: i)
  case (Cons r rs)
  have "\<not> skips start (i + 1)" using Cons.prems by (auto simp: skips_def split: start_pos.splits)
  then show ?case using Cons by (simp add: take_Cons')
qed simp

lemma printed_eq:
  "printed start limit i offset at len rs =
     (case selected start limit i (offsets at len rs) of [] \<Rightarrow> [] | x # xs \<Rightarrow> offset # xs)"
proof (induction rs arbitrary: i offset at)
  case (Cons r rs)
  show ?case
  proof (cases "skips start i \<or> limit < i + 1")
    case True
    then show ?thesis using Cons.IH [of "i + 1"] by auto
  next
    case False
    then have after: "\<not> skips start (i + 1)" by (auto simp: skips_def split: start_pos.splits)
    then have "selected start limit (i + 1) xs = take (limit - (i + 1)) xs" for xs :: "nat list"
      by (rule selected_all)
    then show ?thesis
      using False after Cons.IH [of "i + 1"] by (cases rs) (simp_all add: take_Cons' split: nat.splits)
  qed
qed simp

definition cat_section ::
  "'h http \<Rightarrow> ('s \<Rightarrow> bytes) \<Rightarrow> parts \<Rightarrow> bytes \<Rightarrow> nat \<Rightarrow> ('h, 's) barc_record \<Rightarrow> bytes" where
  "cat_section H sb parts path offset rec =
     cat_line path offset @
     (if pt_meta parts then headers_out True (hm_iter H (r_meta rec)) else []) @
     (if pt_req_head parts then headers_out True (hm_iter H (r_req_headers rec)) else []) @
     (if pt_req_body parts then body_out True (image_bytes sb (r_req_body rec)) else []) @
     (if pt_res_head parts then headers_out True (hm_iter H (r_res_headers rec)) else []) @
     (if pt_res_body parts then body_out True (image_bytes sb (r_res_body rec)) else [])"

lemma cat_part_emits:
  assumes "good out" and "emitsO good written out bs P m" and "okO m"
  shows "emitsO good written out (if sel then bs else []) (\<lambda>_. True) (cat_part sel m out)"
    and "okO (cat_part sel m out)"
proof -
  obtain a o1 where m: "m = Some (Inr a, o1)" using assms(3) by (auto simp: okO_def)
  then show "okO (cat_part sel m out)" by (simp add: cat_part_def)
  show "emitsO good written out (if sel then bs else []) (\<lambda>_. True) (cat_part sel m out)"
    using assms(1,2) m by (auto simp: cat_part_def emitsO_Some emits_nil)
qed

lemma emits_okO:
  assumes "emitsO good written out bs P m" and "okO m"
  obtains a o1 where "m = Some (Inr a, o1)" "good o1" "written o1 = written out @ bs" "P a"
  using assms by (auto simp: okO_def emitsO_Some)

lemma cat_head_prints:
  assumes ws: "write_sink wr good written" and sure: "\<And>e. \<not> refuses wr good e" and good: "good out"
    and len: "length (headers_out True (hm_iter H h)) \<le> V2_MAX_HBLOCK"
  obtains o1 where "cat_part sel (Some (write_headers H wr out True h)) out = Some (Ok (), o1)"
    "good o1" "written o1 = written out @ (if sel then headers_out True (hm_iter H h) else [])"
proof -
  note e = write_headers_emits [OF ws good, of True H h]
  note p = cat_part_emits [OF good e write_headers_okO [OF ws sure good len], of sel]
  show ?thesis by (rule emits_okO [OF p]) (rule that, simp_all)
qed

context barc_store
begin

lemma copy_one:
  assumes copy: "same_record H s_bytes rec' rec" "im_ok (r_req_body rec')" "im_ok (r_res_body rec')"
    and rec: "readable H s_bytes rec" "h_len (payload_head H s_bytes Plain rec) + 2 \<le> V2_MAX_RECORD"
    and s: "bf_disk s = Some d" "bf_file s = Some n" and calm: "calm w"
    and adv: "\<And>m a. mh_advise fs m a = None"
  obtains s' w' where
    "barc_writer_write H fs cs NoCompress rec' s w = Some (Ok (length d), (s', w'))"
    "bf_disk s' = Some (d @ entry_bytes H s_bytes rec')" "bf_file s' \<noteq> None" "calm w'"
proof -
  have enc: "wrap_encoder H cs NoCompress rec' = EncPlain" by (simp add: wrap_encoder_cases)
  have h: "head_in_range (payload_head H s_bytes Plain rec')"
    "h_len (payload_head H s_bytes Plain rec') + 2 \<le> V2_MAX_RECORD"
    using rec same_record_head [OF copy(1)] by (simp_all add: readable_def)
  obtain f' w' where w: "barc_write H fs cs NoCompress rec' (\<lparr>content = d, fpos = n\<rparr>, w) =
      Some (Ok (length d), (f', w'))" "calm w'"
    using barc_write_ok [OF enc copy(2,3) calm adv h, of "\<lparr>content = d, fpos = n\<rparr>"] by auto
  have "content f' = d @ entry_bytes H s_bytes rec'"
    using barc_write_plain(4) [OF enc copy(2,3) w(1)] by (simp add: entry_bytes_def)
  then show ?thesis
    using that [of "s\<lparr>bf_disk := Some (content f'), bf_file := Some (fpos f')\<rparr>" w'] w s
    by (simp add: barc_writer_write_def)
qed

lemma cp_loop_copies:
  assumes adv: "\<And>m a. mh_advise fs m a = None"
  shows "p_bytes p = c @ log_bytes H s_bytes recs \<Longrightarrow> rp_tell fs p = length c \<Longrightarrow>
    length (p_bytes p) < 2 ^ 63 \<Longrightarrow> all_readable H s_bytes recs \<Longrightarrow>
    bf_disk s = Some d \<Longrightarrow> bf_file s \<noteq> None \<Longrightarrow> calm w \<Longrightarrow>
    \<exists>recs' s' w'. cp_loop H fs bm tmp ds chk tune cs start limit NoCompress i p s w =
        Some (Ok (), (s', w')) \<and>
      list_all2 (same_record H s_bytes) recs' (selected start limit i recs) \<and>
      bf_disk s' = Some (d @ log_bytes H s_bytes recs')"
proof (induction recs arbitrary: c p s d w i)
  case Nil
  obtain p' where "barc_read H fs bm tmp ds chk tune p w = Some (Ok None, (p', w))"
    by (rule read_at_end [of p]) (use Nil in simp_all)
  then show ?case
    using Nil by (intro exI [of _ "[]"] exI [of _ s] exI [of _ w]) (simp add: cp_loop.simps)
next
  case (Cons rec recs)
  have bytes: "p_bytes p = c @ entry_bytes H s_bytes rec @ log_bytes H s_bytes recs"
    and r: "readable H s_bytes rec" "h_len (payload_head H s_bytes Plain rec) + 2 \<le> V2_MAX_RECORD"
      "all_readable H s_bytes recs"
    using Cons.prems by simp_all
  obtain rec' p' where read: "barc_read H fs bm tmp ds chk tune p w = Some (Ok (Some rec'), (p', w))"
    and copy: "same_record H s_bytes rec' rec" "im_ok (r_req_body rec')" "im_ok (r_res_body rec')"
    and p': "p_bytes p' = p_bytes p" "rp_tell fs p' = length (c @ entry_bytes H s_bytes rec)"
    by (rule read_entry [OF bytes Cons.prems(2) r(1) Cons.prems(3)])
  have after: "p_bytes p' = (c @ entry_bytes H s_bytes rec) @ log_bytes H s_bytes recs"
    "length (p_bytes p') < 2 ^ 63"
    using p'(1) bytes Cons.prems(3) by simp_all
  note IH = Cons.IH [OF after(1) p'(2) after(2) r(3)]
  note unfold = cp_loop.simps [of H fs bm tmp ds chk tune cs start limit NoCompress i p s w]
  consider (skip) "skips start i" | (stop) "\<not> skips start i" "limit < i + 1"
    | (copy) "\<not> skips start i" "\<not> limit < i + 1" by blast
  then show ?case
  proof cases
    case skip
    then show ?thesis
      using IH [OF Cons.prems(5-7), of "i + 1"] unfold read by simp
  next
    case stop
    then show ?thesis
      using unfold read Cons.prems(5)
      by (intro exI [of _ "[]"] exI [of _ s] exI [of _ w]) simp
  next
    case copy_it: copy
    obtain n where n: "bf_file s = Some n" using Cons.prems(6) by auto
    obtain s' w' where w: "barc_writer_write H fs cs NoCompress rec' s w = Some (Ok (length d), (s', w'))"
      "bf_disk s' = Some (d @ entry_bytes H s_bytes rec')" "bf_file s' \<noteq> None" "calm w'"
      by (rule copy_one [OF copy r(1,2) Cons.prems(5) n Cons.prems(7) adv])
    obtain recs' t v where
      "cp_loop H fs bm tmp ds chk tune cs start limit NoCompress (i + 1) p' s' w' = Some (Ok (), (t, v))"
      "list_all2 (same_record H s_bytes) recs' (selected start limit (i + 1) recs)"
      "bf_disk t = Some ((d @ entry_bytes H s_bytes rec') @ log_bytes H s_bytes recs')"
      using IH [OF w(2,3,4), of "i + 1"] by blast
    then show ?thesis
      using unfold read w(1) copy(1) copy_it
      by (intro exI [of _ "rec' # recs'"] exI [of _ t] exI [of _ v]) simp
  qed
qed

lemma cat_body_prints:
  assumes ws: "write_sink wr good written" and sure: "\<And>e. \<not> refuses wr good e" and good: "good out"
    and ok: "im_ok b" and adv: "\<And>m a. mh_advise fs m a = None"
  obtains o1 where "cat_part sel (write_body fs wr out True b) out = Some (Ok (), o1)"
    "good o1" "written o1 = written out @ (if sel then body_out True (im_bytes b) else [])"
proof -
  note e = write_body_emits [OF ws good ok, of True]
  note p = cat_part_emits [OF good e write_body_okO [OF ws sure good ok adv], of sel]
  show ?thesis by (rule emits_okO [OF p]) (rule that, simp_all)
qed

lemma cat_record_prints:
  assumes ws: "write_sink wr good written" and sure: "\<And>e. \<not> refuses wr good e" and good: "good out"
    and ok: "im_ok (r_req_body rec)" "im_ok (r_res_body rec)" and adv: "\<And>m a. mh_advise fs m a = None"
    and rec: "readable H s_bytes rec"
  obtains out' where "cat_record H fs wr parts path offset rec out = Some (Ok (), out')" "good out'"
    "written out' = written out @ cat_section H s_bytes parts path offset rec"
proof -
  have blocks: "length (headers_out True (hm_iter H (r_meta rec))) \<le> V2_MAX_HBLOCK"
    "length (headers_out True (hm_iter H (r_req_headers rec))) \<le> V2_MAX_HBLOCK"
    "length (headers_out True (hm_iter H (r_res_headers rec))) \<le> V2_MAX_HBLOCK"
    using rec by (auto simp: readable_def payload_head_def head_in_range_def Let_def)
  have "fst (wr out (cat_line path offset)) \<noteq> Inl e" for e
    using sure good unfolding refuses_def by blast
  then obtain o1 where o1: "wr out (cat_line path offset) = (Inr (), o1)"
    by (cases "wr out (cat_line path offset)"; cases "fst (wr out (cat_line path offset))") auto
  then have g1: "good o1" "written o1 = written out @ cat_line path offset"
    using write_sink.write_ok [OF ws o1 good] by simp_all
  obtain o2 where o2: "cat_part (pt_meta parts) (Some (write_headers H wr o1 True (r_meta rec))) o1 =
      Some (Ok (), o2)" "good o2" "written o2 = written o1 @
      (if pt_meta parts then headers_out True (hm_iter H (r_meta rec)) else [])"
    by (rule cat_head_prints [OF ws sure g1(1) blocks(1)])
  obtain o3 where o3: "cat_part (pt_req_head parts)
      (Some (write_headers H wr o2 True (r_req_headers rec))) o2 = Some (Ok (), o3)" "good o3"
      "written o3 = written o2 @
        (if pt_req_head parts then headers_out True (hm_iter H (r_req_headers rec)) else [])"
    by (rule cat_head_prints [OF ws sure o2(2) blocks(2)])
  obtain o4 where o4: "cat_part (pt_req_body parts) (write_body fs wr o3 True (r_req_body rec)) o3 =
      Some (Ok (), o4)" "good o4" "written o4 = written o3 @
        (if pt_req_body parts then body_out True (im_bytes (r_req_body rec)) else [])"
    by (rule cat_body_prints [OF ws sure o3(2) ok(1) adv])
  obtain o5 where o5: "cat_part (pt_res_head parts)
      (Some (write_headers H wr o4 True (r_res_headers rec))) o4 = Some (Ok (), o5)" "good o5"
      "written o5 = written o4 @
        (if pt_res_head parts then headers_out True (hm_iter H (r_res_headers rec)) else [])"
    by (rule cat_head_prints [OF ws sure o4(2) blocks(3)])
  obtain o6 where o6: "cat_part (pt_res_body parts) (write_body fs wr o5 True (r_res_body rec)) o5 =
      Some (Ok (), o6)" "good o6" "written o6 = written o5 @
        (if pt_res_body parts then body_out True (im_bytes (r_res_body rec)) else [])"
    by (rule cat_body_prints [OF ws sure o5(2) ok(2) adv])
  show ?thesis
    by (rule that [of o6])
      (use o1 g1 o2 o3 o4 o5 o6 in \<open>simp_all add: cat_record_def cat_section_def\<close>)
qed

lemma cat_loop_prints:
  assumes ws: "write_sink wr good written" and sure: "\<And>e. \<not> refuses wr good e"
    and adv: "\<And>m a. mh_advise fs m a = None"
  shows "p_bytes p = c @ log_bytes H s_bytes recs \<Longrightarrow> rp_tell fs p = length c \<Longrightarrow>
    length (p_bytes p) < 2 ^ 63 \<Longrightarrow> all_readable H s_bytes recs \<Longrightarrow> good out \<Longrightarrow>
    \<exists>recs' out'. cat_loop H fs bm tmp ds chk tune wr path start limit parts i offset p w out =
        Some (Ok (), out') \<and>
      list_all2 (same_record H s_bytes) recs' (selected start limit i recs) \<and>
      written out' = written out @ concat (map2 (cat_section H s_bytes parts path)
        (printed start limit i offset (length c) (\<lambda>r. length (entry_bytes H s_bytes r)) recs) recs')"
proof (induction recs arbitrary: c p w i offset out)
  case Nil
  obtain p' where "barc_read H fs bm tmp ds chk tune p w = Some (Ok None, (p', w))"
    by (rule read_at_end [of p]) (use Nil in simp_all)
  then show ?case
    by (intro exI [of _ "[]"] exI [of _ out]) (simp add: cat_loop.simps)
next
  case (Cons rec recs)
  have bytes: "p_bytes p = c @ entry_bytes H s_bytes rec @ log_bytes H s_bytes recs"
    and r: "readable H s_bytes rec" "all_readable H s_bytes recs"
    using Cons.prems by simp_all
  obtain rec' p' where read: "barc_read H fs bm tmp ds chk tune p w = Some (Ok (Some rec'), (p', w))"
    and copy: "same_record H s_bytes rec' rec" "im_ok (r_req_body rec')" "im_ok (r_res_body rec')"
    and p': "p_bytes p' = p_bytes p" "rp_tell fs p' = length (c @ entry_bytes H s_bytes rec)"
    by (rule read_entry [OF bytes Cons.prems(2) r(1) Cons.prems(3)])
  have after: "p_bytes p' = (c @ entry_bytes H s_bytes rec) @ log_bytes H s_bytes recs"
    "length (p_bytes p') < 2 ^ 63"
    using p'(1) bytes Cons.prems(3) by simp_all
  note IH = Cons.IH [OF after(1) p'(2) after(2) r(2)]
  note unfold = cat_loop.simps [of H fs bm tmp ds chk tune wr path start limit parts i offset p w out]
  consider (skip) "skips start i" | (stop) "\<not> skips start i" "limit < i + 1"
    | (print) "\<not> skips start i" "\<not> limit < i + 1" by blast
  then show ?case
  proof cases
    case skip
    then show ?thesis using IH [OF Cons.prems(5), of "i + 1" offset w] unfold read by simp
  next
    case stop
    then show ?thesis
      using unfold read by (intro exI [of _ "[]"] exI [of _ out]) simp
  next
    case print
    have rec': "readable H s_bytes rec'" using same_record_head(2) [OF copy(1)] r(1) by simp
    obtain o1 where o1: "cat_record H fs wr parts path offset rec' out = Some (Ok (), o1)" "good o1"
      "written o1 = written out @ cat_section H s_bytes parts path offset rec'"
      by (rule cat_record_prints [OF ws sure Cons.prems(5) copy(2,3) adv rec'])
    let ?o = "length (c @ entry_bytes H s_bytes rec)"
    obtain recs' o2 where
      "cat_loop H fs bm tmp ds chk tune wr path start limit parts (i + 1) (barc_offset fs p') p' w o1 =
        Some (Ok (), o2)"
      "list_all2 (same_record H s_bytes) recs' (selected start limit (i + 1) recs)"
      "written o2 = written o1 @ concat (map2 (cat_section H s_bytes parts path)
        (printed start limit (i + 1) ?o ?o (\<lambda>r. length (entry_bytes H s_bytes r)) recs) recs')"
      using IH [OF o1(2), of "i + 1" ?o w] p'(2) by (auto simp: barc_offset_def)
    then show ?thesis
      using unfold read o1 copy(1) print
      by (intro exI [of _ "rec' # recs'"] exI [of _ o2]) simp
  qed
qed

end


section \<open>Properties of the commands\<close>

lemma calm_tl: "calm w \<Longrightarrow> calm (tl w)"
  by (cases w) auto

context barc_store
begin

lemma open_log:
  assumes "calm w"
  obtains p where "open_reader fs (Index n) (barc_file_new (Some c)) w = (Ok p, tl w)"
    "p_bytes p = c" "rp_tell fs p = 0"
  using that [of "rp_new fs \<lparr>content = c, fpos = 0\<rparr> 0"] assms pos_new
  by (cases w) (auto simp: open_reader_def barc_file_reader_def barc_file_new_def)

lemma cp_log:
  assumes adv: "\<And>m a. mh_advise fs m a = None" and "src \<noteq> dst"
    and recs: "all_readable H s_bytes recs" "length (log_bytes H s_bytes recs) < 2 ^ 63" and w: "calm w"
  shows "\<exists>recs'. cp H fs bm tmp ds chk env cs (src, Some (log_bytes H s_bytes recs)) (dst, disk)
      (Index n) limit NoCompress w = Some (Ok (), Some (disk_bytes disk @ log_bytes H s_bytes recs')) \<and>
    list_all2 (same_record H s_bytes) recs' (drop n (take limit recs))"
proof -
  obtain p where p: "open_reader fs (Index n) (barc_file_new (Some (log_bytes H s_bytes recs))) w =
      (Ok p, tl w)" "p_bytes p = [] @ log_bytes H s_bytes recs" "rp_tell fs p = length ([] :: bytes)"
    using open_log [OF w] by auto
  let ?s = "\<lparr>bf_disk = Some (disk_bytes disk), bf_file = Some 0, bf_held = True, bf_poisoned = False\<rparr>"
  have writer: "barc_file_writer (barc_file_new disk) (tl w) = Some (Ok (), (?s, tl (tl w)))"
    using calm_tl [OF w]
    by (cases "tl w") (auto simp: barc_file_writer_def barc_file_new_def disk_bytes_def)
  obtain recs' s' w' where "cp_loop H fs bm tmp ds chk (tunables_new env) cs (Index n) limit NoCompress
      0 p ?s (tl (tl w)) = Some (Ok (), (s', w'))"
    "list_all2 (same_record H s_bytes) recs' (drop n (take limit recs))"
    "bf_disk s' = Some (disk_bytes disk @ log_bytes H s_bytes recs')"
    using cp_loop_copies [OF adv p(2,3) _ recs(1), of ?s "disk_bytes disk" "tl (tl w)" tmp ds chk
        "tunables_new env" "Index n" limit 0] p(2) recs(2) calm_tl [OF calm_tl [OF w]]
    by (auto simp: selected_index)
  then show ?thesis
    using p(1) writer assms(2) by (auto simp: cp_def barc_writer_drop_def)
qed

lemma cat_log:
  assumes ws: "write_sink wr good written" and sure: "\<And>e. \<not> refuses wr good e" and good: "good out"
    and adv: "\<And>m a. mh_advise fs m a = None"
    and recs: "all_readable H s_bytes recs" "length (log_bytes H s_bytes recs) < 2 ^ 63" and w: "calm w"
  shows "\<exists>recs' out'. cat H fs bm tmp ds chk env wr path (Some (log_bytes H s_bytes recs)) (Index n)
      limit parts w out = Some (Ok (), out') \<and>
    list_all2 (same_record H s_bytes) recs' (drop n (take limit recs)) \<and>
    written out' = written out @ concat (map2 (cat_section H s_bytes parts path)
      (case drop n (take limit (offsets 0 (\<lambda>r. length (entry_bytes H s_bytes r)) recs)) of
         [] \<Rightarrow> [] | x # xs \<Rightarrow> 0 # xs) recs')"
proof -
  obtain p where p: "open_reader fs (Index n) (barc_file_new (Some (log_bytes H s_bytes recs))) w =
      (Ok p, tl w)" "p_bytes p = [] @ log_bytes H s_bytes recs" "rp_tell fs p = length ([] :: bytes)"
    using open_log [OF w] by auto
  from cat_loop_prints [OF ws sure adv p(2,3) _ recs(1) good, of tmp ds chk "tunables_new env" path
      "Index n" limit parts 0 0 "tl w"] p(2) recs(2)
  obtain recs' out' where "cat_loop H fs bm tmp ds chk (tunables_new env) wr path (Index n) limit parts
      0 0 p (tl w) out = Some (Ok (), out')"
    "list_all2 (same_record H s_bytes) recs' (selected (Index n) limit 0 recs)"
    "written out' = written out @ concat (map2 (cat_section H s_bytes parts path)
        (printed (Index n) limit 0 0 0 (\<lambda>r. length (entry_bytes H s_bytes r)) recs) recs')"
    by auto
  then show ?thesis
    using p(1,3) by (auto simp: cat_def barc_offset_def selected_index printed_eq)
qed

end

text \<open>
  C24: \<^verbatim>\<open>cp\<close> with an index and a count appends to the output file uncompressed copies of the
  records from that index on and before the \<^emph>\<open>count\<close>: the count bounds the position in the
  input and not, as the help of the option says, the number of records. With a count not above
  the index nothing is copied.
\<close>
theorem cp_copies_selected:
  assumes "barc_store fs p_bytes p_patience s_bytes s_off s_patience g_bytes g_off g_patience cs bm H"
    and "\<And>m a. mh_advise fs m a = None" and "src \<noteq> dst"
    and "all_readable H s_bytes recs" and "length (log_bytes H s_bytes recs) < 2 ^ 63" and "calm w"
  shows "\<exists>recs'. cp H fs bm tmp ds chk env cs (src, Some (log_bytes H s_bytes recs)) (dst, disk)
      (Index n) limit NoCompress w = Some (Ok (), Some (disk_bytes disk @ log_bytes H s_bytes recs')) \<and>
    list_all2 (same_record H s_bytes) recs' (drop n (take limit recs)) \<and>
    length recs' = min limit (length recs) - n"
  using barc_store.cp_log [OF assms] by (fastforce dest: list_all2_lengthD)

text \<open>Three records, of which the second should be copied: index 1 and count 1.\<close>

theorem cp_copies_selected_witness:
  "cp assoc_http cursor_olio grow_buf scripted_tempfile identity_decoders True ''/tmp'' buffering_codecs
     (''a'', Some (log_bytes assoc_http (\<lambda>s. cur_bytes (fst s)) [sample_record, sample_record, sample_record]))
     (''b'', Some ''old'') (Index 1) 1 NoCompress [] = Some (Ok (), Some ''old'')"
proof -
  have r: "all_readable assoc_http (\<lambda>s. cur_bytes (fst s)) [sample_record, sample_record, sample_record]"
    using sample_readable by (simp add: all_readable_def sample_head_fields v2_defs)
  have l: "length (log_bytes assoc_http (\<lambda>s. cur_bytes (fst s))
      [sample_record, sample_record, sample_record]) < 2 ^ 63"
    by (simp add: length_sample)
  show ?thesis
    using cp_copies_selected [OF stores.barc_store_axioms _ _ r l, of "''a''" "''b''" "[]"
        scripted_tempfile identity_decoders True "''/tmp''" "Some ''old''" 1 1]
    by (auto simp: log_bytes_def)
qed

text \<open>
  C26: \<^verbatim>\<open>cat\<close> with an index and a count prints the same records, each with its selected parts
  after a separator line. The line gives the offset of the record, except in front of the first
  one printed, where it always gives the offset at which reading started, even when records
  were skipped.
\<close>
theorem cat_prints_selected:
  assumes "barc_store fs p_bytes p_patience s_bytes s_off s_patience g_bytes g_off g_patience cs bm H"
    and "write_sink wr good written" and "\<And>e. \<not> refuses wr good e" and "good out"
    and "\<And>m a. mh_advise fs m a = None"
    and "all_readable H s_bytes recs" and "length (log_bytes H s_bytes recs) < 2 ^ 63" and "calm w"
  shows "\<exists>recs' out'. cat H fs bm tmp ds chk env wr path (Some (log_bytes H s_bytes recs)) (Index n)
      limit parts w out = Some (Ok (), out') \<and>
    list_all2 (same_record H s_bytes) recs' (drop n (take limit recs)) \<and>
    written out' = written out @ concat (map2 (cat_section H s_bytes parts path)
      (case drop n (take limit (offsets 0 (\<lambda>r. length (entry_bytes H s_bytes r)) recs)) of
         [] \<Rightarrow> [] | x # xs \<Rightarrow> 0 # xs) recs')"
  by (rule barc_store.cat_log [OF assms])

theorem cat_prints_selected_witness:
  "\<exists>rec'. same_record assoc_http (\<lambda>s. cur_bytes (fst s)) rec' sample_record \<and>
    cat assoc_http cursor_olio grow_buf scripted_tempfile identity_decoders True ''/tmp'' vec_write_all
      ''a'' (Some (log_bytes assoc_http (\<lambda>s. cur_bytes (fst s)) [sample_record, sample_record])) (Index 1)
      9 parts_falsie [] [] =
    Some (Ok (), cat_section assoc_http (\<lambda>s. cur_bytes (fst s)) parts_falsie ''a'' 0 rec')"
proof -
  have r: "all_readable assoc_http (\<lambda>s. cur_bytes (fst s)) [sample_record, sample_record]"
    using sample_readable by (simp add: all_readable_def sample_head_fields v2_defs)
  have l: "length (log_bytes assoc_http (\<lambda>s. cur_bytes (fst s)) [sample_record, sample_record]) < 2 ^ 63"
    by (simp add: length_sample)
  show ?thesis
    using cat_prints_selected [OF stores.barc_store_axioms vec.write_sink_axioms _ TrueI _ r l, of "[]"
        scripted_tempfile identity_decoders True "''/tmp''" "''a''" 1 9 parts_falsie "[]"]
    by (auto simp: list_all2_Cons2 take_Cons' length_sample)
qed

end
