(* ===== verification/Dialog.thy ===== *)
theory Dialog
  imports Compress
begin

text \<open>
  Dialogs: \<^verbatim>\<open>Prolog\<close>, \<^verbatim>\<open>Epilog\<close>, \<^verbatim>\<open>Encoding\<close> and \<^verbatim>\<open>Dialog\<close>
  (\<^verbatim>\<open>body-image/src/lib.rs\<close>) and their conversion to and from a BARC \<^verbatim>\<open>Record\<close>
  (\<^verbatim>\<open>barc/src/lib.rs\<close>), where everything but the headers and bodies goes through meta
  headers.

  The methods, URLs, versions and status codes of the \<^emph>\<open>http\<close> crate are parameters (\<open>X\<close>),
  with the locale \<open>http_values\<close> for what its documentation states. The property gives the
  exact result of converting a dialog to a record and back.
\<close>

section \<open>Dialogs\<close>

datatype encoding = Chunked | DeflateEnc | GzipEnc | BrotliEnc | CompressEnc | IdentityEnc

fun encoding_display :: "encoding \<Rightarrow> bytes" where
  "encoding_display Chunked = ''chunked''"
| "encoding_display DeflateEnc = ''deflate''"
| "encoding_display GzipEnc = ''gzip''"
| "encoding_display BrotliEnc = ''br''"
| "encoding_display CompressEnc = ''compress''"
| "encoding_display IdentityEnc = ''identity''"

record ('m, 'u, 'h, 's) prolog =
  pro_method :: 'm
  pro_url :: 'u
  pro_req_headers :: 'h
  pro_req_body :: "'s body_image"

record ('v, 'c, 'h, 's) epilog =
  epi_version :: 'v
  epi_status :: 'c
  epi_res_headers :: 'h
  epi_res_body :: "'s body_image"
  epi_res_decoded :: "encoding list"

record ('m, 'u, 'v, 'c, 'h, 's) dialog =
  dlg_pro :: "('m, 'u, 'h, 's) prolog"
  dlg_epi :: "('v, 'c, 'h, 's) epilog"

definition dialog_new ::
  "('m, 'u, 'h, 's) prolog \<Rightarrow> ('v, 'c, 'h, 's) epilog \<Rightarrow> ('m, 'u, 'v, 'c, 'h, 's) dialog" where
  "dialog_new pro epi = \<lparr>dlg_pro = pro, dlg_epi = epi\<rparr>"

definition set_res_decoded ::
  "('m, 'u, 'v, 'c, 'h, 's) dialog \<Rightarrow> encoding list \<Rightarrow> ('m, 'u, 'v, 'c, 'h, 's) dialog" where
  "set_res_decoded d decoded = d\<lparr>dlg_epi := (dlg_epi d)\<lparr>epi_res_decoded := decoded\<rparr>\<rparr>"

definition set_res_body_decoded ::
  "('m, 'u, 'v, 'c, 'h, 's) dialog \<Rightarrow> 's body_image \<Rightarrow> encoding list
     \<Rightarrow> ('m, 'u, 'v, 'c, 'h, 's) dialog" where
  "set_res_body_decoded d body decoded =
     d\<lparr>dlg_epi := (dlg_epi d)\<lparr>epi_res_body := body, epi_res_decoded := decoded\<rparr>\<rparr>"

definition dialog_explode ::
  "('m, 'u, 'v, 'c, 'h, 's) dialog \<Rightarrow> ('m, 'u, 'h, 's) prolog \<times> ('v, 'c, 'h, 's) epilog" where
  "dialog_explode d = (dlg_pro d, dlg_epi d)"

section \<open>The values of the http crate\<close>

record ('m, 'u, 'v, 'c) http_values =
  m_to_string :: "'m \<Rightarrow> bytes"
  m_from_bytes :: "bytes \<Rightarrow> flaw + 'm"
  u_to_string :: "'u \<Rightarrow> bytes"
  u_try_from :: "bytes \<Rightarrow> flaw + 'u"
  v_debug :: "'v \<Rightarrow> bytes"
  HTTP_09 :: 'v
  HTTP_10 :: 'v
  HTTP_11 :: 'v
  HTTP_2 :: 'v
  c_to_string :: "'c \<Rightarrow> bytes"
  c_from_bytes :: "bytes \<Rightarrow> flaw + 'c"
  hv_from_str :: "bytes \<Rightarrow> flaw + bytes"

section \<open>Record from Dialog\<close>

definition hname_meta_url :: bytes where "hname_meta_url = ''url''"
definition hname_meta_method :: bytes where "hname_meta_method = ''method''"
definition hname_meta_res_version :: bytes where "hname_meta_res_version = ''response-version''"
definition hname_meta_res_status :: bytes where "hname_meta_res_status = ''response-status''"
definition hname_meta_res_decoded :: bytes where "hname_meta_res_decoded = ''response-decoded''"

lemmas hname_defs = hname_meta_url_def hname_meta_method_def hname_meta_res_version_def
  hname_meta_res_status_def hname_meta_res_decoded_def

text \<open>\<^verbatim>\<open>meta.append(name, s.parse().map_err(efn)?)\<close>\<close>

definition meta_append ::
  "'h http \<Rightarrow> ('m, 'u, 'v, 'c) http_values \<Rightarrow> bytes \<Rightarrow> bytes \<Rightarrow> 'h \<Rightarrow> (barc_error, 'h) result" where
  "meta_append H X name s meta =
     (case hv_from_str X s of
        Inl e \<Rightarrow> Err (InvalidHeader e)
      | Inr v \<Rightarrow> Ok (hm_append H meta name v))"

fun join_encodings :: "bytes \<Rightarrow> encoding list \<Rightarrow> bytes" where
  "join_encodings joined [] = joined"
| "join_encodings joined (e # es) =
     join_encodings ((if joined \<noteq> [] then joined @ '', '' else joined) @ encoding_display e) es"

definition record_of_dialog ::
  "'h http \<Rightarrow> ('m, 'u, 'v, 'c) http_values \<Rightarrow> ('m, 'u, 'v, 'c, 'h, 's) dialog
     \<Rightarrow> (barc_error, ('h, 's) barc_record) result" where
  "record_of_dialog H X d =
     (case dialog_explode d of (pro, epi) \<Rightarrow>
      bindR (meta_append H X hname_meta_url (u_to_string X (pro_url pro)) (hm_new H)) (\<lambda>meta.
      bindR (meta_append H X hname_meta_method (m_to_string X (pro_method pro)) meta) (\<lambda>meta.
      bindR (meta_append H X hname_meta_res_version (v_debug X (epi_version epi)) meta) (\<lambda>meta.
      bindR (meta_append H X hname_meta_res_status (c_to_string X (epi_status epi)) meta) (\<lambda>meta.
      bindR (if epi_res_decoded epi \<noteq> []
             then meta_append H X hname_meta_res_decoded (join_encodings [] (epi_res_decoded epi)) meta
             else Ok meta) (\<lambda>meta.
        Ok \<lparr>r_type = DialogRecord, r_meta = meta, r_req_headers = pro_req_headers pro,
          r_req_body = pro_req_body pro, r_res_headers = epi_res_headers epi,
          r_res_body = epi_res_body epi\<rparr>))))))"

section \<open>Dialog from Record\<close>

text \<open>\<^verbatim>\<open>str::split(',')\<close>\<close>

fun split_commas :: "bytes \<Rightarrow> bytes list" where
  "split_commas [] = [[]]"
| "split_commas (c # cs) =
     (if c = CHR '','' then [] # split_commas cs
      else case split_commas cs of w # ws \<Rightarrow> (c # w) # ws | [] \<Rightarrow> [[c]])"

fun parse_encodings :: "bytes list \<Rightarrow> encoding list \<Rightarrow> (convert_error, encoding list) result" where
  "parse_encodings [] encodes = Ok encodes"
| "parse_encodings (w # ws) encodes =
     (let enc = trim w
      in if enc = ''chunked'' then parse_encodings ws (encodes @ [Chunked])
         else if enc = ''deflate'' then parse_encodings ws (encodes @ [DeflateEnc])
         else if enc = ''gzip'' then parse_encodings ws (encodes @ [GzipEnc])
         else if enc = ''br'' then parse_encodings ws (encodes @ [BrotliEnc])
         else Err (InvalidResDecoded enc))"

text \<open>\<^verbatim>\<open>format!("{:x?}", bytes)\<close>\<close>

definition fmt_debug_hex :: "bytes \<Rightarrow> bytes" where
  "fmt_debug_hex bs =
     ''['' @ concat (case map (\<lambda>c. fmt_hex 0 (of_char c)) bs of
         [] \<Rightarrow> [] | x # xs \<Rightarrow> x # map (\<lambda>y. '', '' @ y) xs) @ '']''"

definition dialog_of_record ::
  "'h http \<Rightarrow> ('m, 'u, 'v, 'c) http_values \<Rightarrow> ('h, 's) barc_record
     \<Rightarrow> (convert_error, ('m, 'u, 'v, 'c, 'h, 's) dialog) result" where
  "dialog_of_record H X rec =
     bindR (case hm_get H (r_meta rec) hname_meta_url of
         Some uv \<Rightarrow> (case u_try_from X uv of Inl e \<Rightarrow> Err (InvalidUrl e) | Inr u \<Rightarrow> Ok u)
       | None \<Rightarrow> Err NoMetaUrl) (\<lambda>url.
     bindR (case hm_get H (r_meta rec) hname_meta_method of
         Some v \<Rightarrow> (case m_from_bytes X v of Inl e \<Rightarrow> Err (InvalidMethod e) | Inr m \<Rightarrow> Ok m)
       | None \<Rightarrow> Err NoMetaMethod) (\<lambda>meth.
     bindR (case hm_get H (r_meta rec) hname_meta_res_version of
         Some vb \<Rightarrow>
           if vb = ''HTTP/0.9'' then Ok (HTTP_09 X)
           else if vb = ''HTTP/1.0'' then Ok (HTTP_10 X)
           else if vb = ''HTTP/1.1'' then Ok (HTTP_11 X)
           else if vb = ''HTTP/2.0'' then Ok (HTTP_2 X)
           else Err (InvalidVersion vb)
       | None \<Rightarrow> Err NoMetaResVersion) (\<lambda>version.
     bindR (case hm_get H (r_meta rec) hname_meta_res_status of
         Some vbs \<Rightarrow>
           if 3 \<le> length vbs
           then (case c_from_bytes X (take 3 vbs) of
               Inl e \<Rightarrow> Err (InvalidStatusCode e) | Inr c \<Rightarrow> Ok c)
           else Err MalformedMetaResStatus
       | None \<Rightarrow> Err NoMetaResStatus) (\<lambda>status.
     bindR (case hm_get H (r_meta rec) hname_meta_res_decoded of
         Some v \<Rightarrow>
           (case hv_to_str H v of
              Some dcds \<Rightarrow> parse_encodings (split_commas dcds) []
            | None \<Rightarrow> Err (InvalidResDecoded (fmt_debug_hex v)))
       | None \<Rightarrow> Ok []) (\<lambda>res_decoded.
       Ok (dialog_new
         \<lparr>pro_method = meth, pro_url = url, pro_req_headers = r_req_headers rec,
          pro_req_body = r_req_body rec\<rparr>
         \<lparr>epi_version = version, epi_status = status, epi_res_headers = r_res_headers rec,
          epi_res_body = r_res_body rec, epi_res_decoded = res_decoded\<rparr>))))))"

section \<open>Splitting what was joined\<close>

text \<open>What was joined, as the pieces between the commas.\<close>

fun joined_pieces :: "encoding list \<Rightarrow> bytes list" where
  "joined_pieces [] = []"
| "joined_pieces (e # es) = encoding_display e # map (\<lambda>e. '' '' @ encoding_display e) es"

lemma encoding_display_plain:
  "CHR '','' \<notin> set (encoding_display e)" "encoding_display e \<noteq> []"
  "trim (encoding_display e) = encoding_display e" "trim ('' '' @ encoding_display e) = encoding_display e"
  by (cases e; simp add: trim_def is_space_def)+

lemma split_commas_nonempty: "split_commas cs \<noteq> []"
  by (induction cs rule: split_commas.induct) (auto split: list.splits)

lemma split_commas_word: "CHR '','' \<notin> set w \<Longrightarrow> split_commas w = [w]"
  by (induction w) auto

lemma split_commas_append:
  "CHR '','' \<notin> set w \<Longrightarrow> split_commas (w @ CHR '','' # cs) = w # split_commas cs"
  by (induction w) auto

lemma join_encodings_eq:
  "joined \<noteq> [] \<Longrightarrow>
     join_encodings joined es = joined @ concat (map (\<lambda>e. '', '' @ encoding_display e) es)"
  by (induction es arbitrary: joined) auto

lemma split_tail:
  "CHR '','' \<notin> set w \<Longrightarrow>
     split_commas (w @ concat (map (\<lambda>e. '', '' @ encoding_display e) es)) =
       w # map (\<lambda>e. '' '' @ encoding_display e) es"
proof (induction es arbitrary: w)
  case (Cons e es)
  have "CHR '','' \<notin> set ('' '' @ encoding_display e)" using encoding_display_plain(1) by simp
  from Cons.IH [OF this] show ?case using split_commas_append [OF Cons.prems] by simp
qed (simp add: split_commas_word)

lemma split_joined:
  "es \<noteq> [] \<Longrightarrow> split_commas (join_encodings [] es) = joined_pieces es"
  using split_tail encoding_display_plain(1,2)
  by (cases es) (simp_all add: join_encodings_eq)

text \<open>What the parser accepts: all but two of the encodings.\<close>

definition unparsed :: "encoding \<Rightarrow> bool" where
  "unparsed e \<longleftrightarrow> e = CompressEnc \<or> e = IdentityEnc"

lemma parse_encodings_displayed:
  "list_all2 (\<lambda>w e. trim w = encoding_display e) ws es \<Longrightarrow>
     parse_encodings ws acc =
       (case find unparsed es of
          None \<Rightarrow> Ok (acc @ es) | Some e \<Rightarrow> Err (InvalidResDecoded (encoding_display e)))"
proof (induction es arbitrary: ws acc)
  case (Cons e es)
  then obtain w ws' where w: "ws = w # ws'" "trim w = encoding_display e"
    "list_all2 (\<lambda>w e. trim w = encoding_display e) ws' es"
    by (auto simp: list_all2_Cons2)
  show ?case
    using Cons.IH [OF w(3)] w(1,2) by (cases e) (auto simp: unparsed_def split: option.splits)
qed simp


lemma joined_pieces_trim: "list_all2 (\<lambda>w e. trim w = encoding_display e) (joined_pieces es) es"
  using encoding_display_plain(3,4) by (cases es) (simp_all add: list.rel_map list_all2_same)

section \<open>The contract of the values\<close>

text \<open>
  A method parses back from its text; a status code from the first three bytes of its text,
  which are its digits; the debug form of a version is its HTTP name; a header value that is
  made from a string has its bytes, all of them visible, and the names of the meta headers are
  valid.
\<close>

locale http_values =
  http: http_headers H for H :: "'h http" +
  fixes X :: "('m, 'u, 'v, 'c) http_values"
  assumes method_parse: "m_from_bytes X (m_to_string X m) = Inr m"
    and status: "3 \<le> length (c_to_string X c) \<and> c_from_bytes X (take 3 (c_to_string X c)) = Inr c"
    and versions: "v_debug X (HTTP_09 X) = ''HTTP/0.9''" "v_debug X (HTTP_10 X) = ''HTTP/1.0''"
      "v_debug X (HTTP_11 X) = ''HTTP/1.1''" "v_debug X (HTTP_2 X) = ''HTTP/2.0''"
    and from_str: "hv_from_str X s = Inr v \<Longrightarrow>
      v = s \<and> hv_from_bytes H s = Inr s \<and> hv_to_str H s = Some s"
    and names: "n \<in> {hname_meta_url, hname_meta_method, hname_meta_res_version,
      hname_meta_res_status, hname_meta_res_decoded} \<Longrightarrow> hn_parse H n = Inr n"
begin

lemma meta_append_values:
  assumes "meta_append H X n s meta = Ok meta'"
    and "n \<in> {hname_meta_url, hname_meta_method, hname_meta_res_version,
      hname_meta_res_status, hname_meta_res_decoded}"
  shows "values_of (hm_iter H meta') k = values_of (hm_iter H meta) k @ (if n = k then [s] else [])"
    and "hv_to_str H s = Some s"
proof -
  obtain v where v: "hv_from_str X s = Inr v" "meta' = hm_append H meta n v"
    using assms(1) by (auto simp: meta_append_def split: sum.splits)
  then show "hv_to_str H s = Some s" using from_str by blast
  show "values_of (hm_iter H meta') k = values_of (hm_iter H meta) k @ (if n = k then [s] else [])"
    using http.append_values [OF names [OF assms(2)]] from_str [OF v(1)] v(2) by simp
qed

text \<open>The record of a dialog, and what its meta headers hold.\<close>

lemma record_of_dialog_meta:
  assumes rec: "record_of_dialog H X d = Ok rec"
  defines "es \<equiv> epi_res_decoded (dlg_epi d)"
  obtains m where
    "rec = \<lparr>r_type = DialogRecord, r_meta = m, r_req_headers = pro_req_headers (dlg_pro d),
      r_req_body = pro_req_body (dlg_pro d), r_res_headers = epi_res_headers (dlg_epi d),
      r_res_body = epi_res_body (dlg_epi d)\<rparr>"
    "hm_get H m hname_meta_url = Some (u_to_string X (pro_url (dlg_pro d)))"
    "hm_get H m hname_meta_method = Some (m_to_string X (pro_method (dlg_pro d)))"
    "hm_get H m hname_meta_res_version = Some (v_debug X (epi_version (dlg_epi d)))"
    "hm_get H m hname_meta_res_status = Some (c_to_string X (epi_status (dlg_epi d)))"
    "hm_get H m hname_meta_res_decoded = (if es = [] then None else Some (join_encodings [] es))"
    "es \<noteq> [] \<Longrightarrow> hv_to_str H (join_encodings [] es) = Some (join_encodings [] es)"
proof -
  obtain m1 m2 m3 m4 m5 where
    m1: "meta_append H X hname_meta_url (u_to_string X (pro_url (dlg_pro d))) (hm_new H) = Ok m1" and
    m2: "meta_append H X hname_meta_method (m_to_string X (pro_method (dlg_pro d))) m1 = Ok m2" and
    m3: "meta_append H X hname_meta_res_version (v_debug X (epi_version (dlg_epi d))) m2 = Ok m3" and
    m4: "meta_append H X hname_meta_res_status (c_to_string X (epi_status (dlg_epi d))) m3 = Ok m4" and
    m5: "(if es \<noteq> [] then meta_append H X hname_meta_res_decoded (join_encodings [] es) m4
      else Ok m4) = Ok m5" and
    r: "rec = \<lparr>r_type = DialogRecord, r_meta = m5, r_req_headers = pro_req_headers (dlg_pro d),
      r_req_body = pro_req_body (dlg_pro d), r_res_headers = epi_res_headers (dlg_epi d),
      r_res_body = epi_res_body (dlg_epi d)\<rparr>"
    using rec unfolding es_def by (auto simp: record_of_dialog_def dialog_explode_def)
  have v5: "values_of (hm_iter H m5) k = values_of (hm_iter H m4) k @
      (if es \<noteq> [] \<and> hname_meta_res_decoded = k then [join_encodings [] es] else [])" for k
    using m5 meta_append_values(1) [of hname_meta_res_decoded "join_encodings [] es" m4 m5 k]
    by (auto split: if_splits)
  note vs = v5 meta_append_values(1) [OF m4] meta_append_values(1) [OF m3]
    meta_append_values(1) [OF m2] meta_append_values(1) [OF m1]
  have str: "es \<noteq> [] \<Longrightarrow> hv_to_str H (join_encodings [] es) = Some (join_encodings [] es)"
    using m5 meta_append_values(2) [of hname_meta_res_decoded "join_encodings [] es" m4 m5] by simp
  show ?thesis
    by (rule that [OF r _ _ _ _ _ str]) (simp_all add: http.get_values vs, simp_all add: hname_defs)
qed

lemma dialog_record_dialog:
  assumes rec: "record_of_dialog H X d = Ok rec"
    and url: "u_try_from X (u_to_string X (pro_url (dlg_pro d))) = Inr (pro_url (dlg_pro d))"
    and ver: "epi_version (dlg_epi d) \<in> {HTTP_09 X, HTTP_10 X, HTTP_11 X, HTTP_2 X}"
  shows "dialog_of_record H X rec =
    (case find unparsed (epi_res_decoded (dlg_epi d)) of
       None \<Rightarrow> Ok d
     | Some e \<Rightarrow> Err (InvalidResDecoded (encoding_display e)))"
proof -
  let ?es = "epi_res_decoded (dlg_epi d)"
  obtain m5 where rec: "rec = \<lparr>r_type = DialogRecord, r_meta = m5,
      r_req_headers = pro_req_headers (dlg_pro d), r_req_body = pro_req_body (dlg_pro d),
      r_res_headers = epi_res_headers (dlg_epi d), r_res_body = epi_res_body (dlg_epi d)\<rparr>"
    and get: "hm_get H m5 hname_meta_url = Some (u_to_string X (pro_url (dlg_pro d)))"
      "hm_get H m5 hname_meta_method = Some (m_to_string X (pro_method (dlg_pro d)))"
      "hm_get H m5 hname_meta_res_version = Some (v_debug X (epi_version (dlg_epi d)))"
      "hm_get H m5 hname_meta_res_status = Some (c_to_string X (epi_status (dlg_epi d)))"
      "hm_get H m5 hname_meta_res_decoded = (if ?es = [] then None else Some (join_encodings [] ?es))"
    and str: "?es \<noteq> [] \<Longrightarrow> hv_to_str H (join_encodings [] ?es) = Some (join_encodings [] ?es)"
    by (rule record_of_dialog_meta [OF rec]) (rule that)
  have dec: "(case hm_get H m5 hname_meta_res_decoded of
         Some v \<Rightarrow>
           (case hv_to_str H v of
              Some dcds \<Rightarrow> parse_encodings (split_commas dcds) []
            | None \<Rightarrow> Err (InvalidResDecoded (fmt_debug_hex v)))
       | None \<Rightarrow> Ok []) =
       (case find unparsed ?es of
          None \<Rightarrow> Ok ?es | Some e \<Rightarrow> Err (InvalidResDecoded (encoding_display e)))"
    using str parse_encodings_displayed [OF joined_pieces_trim, of ?es "[]", unfolded append_Nil]
    by (cases "?es = []") (simp_all add: get split_joined)
  have url: "(case hm_get H m5 hname_meta_url of
         Some uv \<Rightarrow> (case u_try_from X uv of Inl e \<Rightarrow> Err (InvalidUrl e) | Inr u \<Rightarrow> Ok u)
       | None \<Rightarrow> Err NoMetaUrl) = Ok (pro_url (dlg_pro d))"
    by (simp add: get url)
  have meth: "(case hm_get H m5 hname_meta_method of
         Some v \<Rightarrow> (case m_from_bytes X v of Inl e \<Rightarrow> Err (InvalidMethod e) | Inr m \<Rightarrow> Ok m)
       | None \<Rightarrow> Err NoMetaMethod) = Ok (pro_method (dlg_pro d))"
    by (simp add: get method_parse)
  have version: "(case hm_get H m5 hname_meta_res_version of
         Some vb \<Rightarrow>
           if vb = ''HTTP/0.9'' then Ok (HTTP_09 X)
           else if vb = ''HTTP/1.0'' then Ok (HTTP_10 X)
           else if vb = ''HTTP/1.1'' then Ok (HTTP_11 X)
           else if vb = ''HTTP/2.0'' then Ok (HTTP_2 X)
           else Err (InvalidVersion vb)
       | None \<Rightarrow> Err NoMetaResVersion) = Ok (epi_version (dlg_epi d))"
    using ver versions by (auto simp: get)
  have stat: "(case hm_get H m5 hname_meta_res_status of
         Some vbs \<Rightarrow>
           if 3 \<le> length vbs
           then (case c_from_bytes X (take 3 vbs) of
               Inl e \<Rightarrow> Err (InvalidStatusCode e) | Inr c \<Rightarrow> Ok c)
           else Err MalformedMetaResStatus
       | None \<Rightarrow> Err NoMetaResStatus) = Ok (epi_status (dlg_epi d))"
    using status [of "epi_status (dlg_epi d)"] by (simp add: get)
  have d: "d = dialog_new
      \<lparr>pro_method = pro_method (dlg_pro d), pro_url = pro_url (dlg_pro d),
       pro_req_headers = pro_req_headers (dlg_pro d), pro_req_body = pro_req_body (dlg_pro d)\<rparr>
      \<lparr>epi_version = epi_version (dlg_epi d), epi_status = epi_status (dlg_epi d),
       epi_res_headers = epi_res_headers (dlg_epi d), epi_res_body = epi_res_body (dlg_epi d),
       epi_res_decoded = ?es\<rparr>"
    by (simp add: dialog_new_def)
  show ?thesis
    unfolding dialog_of_record_def rec barc_record.select_convs url meth version stat dec bindR.simps
    using d by (cases "find unparsed ?es") simp_all
qed

end


section \<open>An instance\<close>

text \<open>
  The standard methods, the versions of the crate, three-digit status codes, and URLs as the
  strings that are made of visible bytes.
\<close>

datatype std_method = GET | POST | PUT | DELETE | HEAD | OPTIONS | CONNECT | PATCH | TRACE

fun std_method_string :: "std_method \<Rightarrow> bytes" where
  "std_method_string GET = ''GET''" | "std_method_string POST = ''POST''"
| "std_method_string PUT = ''PUT''" | "std_method_string DELETE = ''DELETE''"
| "std_method_string HEAD = ''HEAD''" | "std_method_string OPTIONS = ''OPTIONS''"
| "std_method_string CONNECT = ''CONNECT''" | "std_method_string PATCH = ''PATCH''"
| "std_method_string TRACE = ''TRACE''"

definition std_method_parse :: "bytes \<Rightarrow> flaw + std_method" where
  "std_method_parse bs =
     (case find (\<lambda>m. std_method_string m = bs)
         [GET, POST, PUT, DELETE, HEAD, OPTIONS, CONNECT, PATCH, TRACE] of
        None \<Rightarrow> Inl (Flaw ''method'') | Some m \<Rightarrow> Inr m)"

datatype std_version = V09 | V10 | V11 | V2 | V3

fun std_version_debug :: "std_version \<Rightarrow> bytes" where
  "std_version_debug V09 = ''HTTP/0.9''" | "std_version_debug V10 = ''HTTP/1.0''"
| "std_version_debug V11 = ''HTTP/1.1''" | "std_version_debug V2 = ''HTTP/2.0''"
| "std_version_debug V3 = ''HTTP/3.0''"

typedef status_code = "{n :: nat. 100 \<le> n \<and> n < 1000}" by (rule exI [of _ 200]) simp

setup_lifting type_definition_status_code

lift_definition status_number :: "status_code \<Rightarrow> nat" is "\<lambda>n. n" .
lift_definition status_of :: "nat \<Rightarrow> status_code" is "\<lambda>n. if 100 \<le> n \<and> n < 1000 then n else 200" by simp

definition dec_digit :: "nat \<Rightarrow> byte" where "dec_digit d = char_of (48 + d)"

definition status_digits :: "nat \<Rightarrow> bytes" where
  "status_digits n = [dec_digit (n div 100), dec_digit (n div 10 mod 10), dec_digit (n mod 10)]"

definition status_parse :: "bytes \<Rightarrow> flaw + status_code" where
  "status_parse bs =
     (let n = foldl (\<lambda>v c. 10 * v + (of_char c - 48)) 0 bs
      in if status_digits n = bs \<and> 100 \<le> n \<and> n < 1000 then Inr (status_of n)
         else Inl (Flaw ''status''))"

definition visible_str :: "bytes \<Rightarrow> flaw + bytes" where
  "visible_str s =
     (if list_all (\<lambda>c. 32 \<le> (of_char c :: nat) \<and> of_char c < (127 :: nat)) s then Inr s
      else Inl (Flaw ''value''))"

definition std_values :: "(std_method, bytes, std_version, status_code) http_values" where
  "std_values =
     \<lparr>m_to_string = std_method_string, m_from_bytes = std_method_parse,
      u_to_string = (\<lambda>u. u), u_try_from = visible_str,
      v_debug = std_version_debug, HTTP_09 = V09, HTTP_10 = V10, HTTP_11 = V11, HTTP_2 = V2,
      c_to_string = (\<lambda>c. status_digits (status_number c) @ '' OK''), c_from_bytes = status_parse,
      hv_from_str = visible_str\<rparr>"

lemma dec_digit_value: "d < 10 \<Longrightarrow> of_char (dec_digit d) - 48 = d"
  by (simp add: dec_digit_def)

lemma status_bounds: "100 \<le> status_number c \<and> status_number c < 1000"
  by (transfer, simp)

lemma status_of_number [simp]: "status_of (status_number c) = c"
  by (transfer, simp)

lemma status_parse_digits: "status_parse (status_digits (status_number c)) = Inr c"
proof -
  let ?n = "status_number c"
  have "?n div 100 < 10" "?n div 10 mod 10 < 10" "?n mod 10 < 10"
    using status_bounds [of c] by (simp_all add: less_mult_imp_div_less)
  moreover have hundred: "?n div 100 = ?n div 10 div 10" by (simp add: div_mult2_eq [symmetric])
  ultimately have "foldl (\<lambda>v c. 10 * v + (of_char c - 48)) 0 (status_digits ?n) =
      10 * (10 * (?n div 100) + ?n div 10 mod 10) + ?n mod 10"
    by (simp only: status_digits_def foldl_Cons foldl_Nil dec_digit_value mult_0_right add_0)
  also have "\<dots> = ?n"
    by (simp only: hundred mult_div_mod_eq)
  finally show ?thesis using status_bounds [of c] by (simp add: status_parse_def)
qed

lemma visible_str_Inr: "visible_str s = Inr v \<longleftrightarrow>
    v = s \<and> list_all (\<lambda>c. 32 \<le> (of_char c :: nat) \<and> of_char c < (127 :: nat)) s"
  by (auto simp: visible_str_def)

interpretation std: http_values assoc_http std_values
proof
  fix m
  show "m_from_bytes std_values (m_to_string std_values m) = Inr m"
    by (cases m) (simp_all add: std_values_def std_method_parse_def)
next
  fix s v assume "hv_from_str std_values s = Inr v"
  then have s: "v = s" "list_all (\<lambda>c. 32 \<le> (of_char c :: nat) \<and> of_char c < (127 :: nat)) s"
    by (simp_all add: std_values_def visible_str_Inr)
  have "value_char c" if "32 \<le> (of_char c :: nat)" "of_char c < (127 :: nat)" for c
    using that by (auto simp: value_char_def)
  then have "list_all value_char s" using s(2) by (simp add: list_all_iff)
  then show "v = s \<and> hv_from_bytes assoc_http s = Inr s \<and> hv_to_str assoc_http s = Some s"
    using s by (auto simp: assoc_value_Inr assoc_str_def list_all_iff)
next
  fix n assume "n \<in> {hname_meta_url, hname_meta_method, hname_meta_res_version,
      hname_meta_res_status, hname_meta_res_decoded}"
  then show "hn_parse assoc_http n = Inr n"
    by (auto simp: assoc_name_Inr hname_defs name_char_def)
qed (simp_all add: std_values_def status_digits_def [symmetric] status_parse_digits,
  simp_all add: status_digits_def status_parse_digits [unfolded status_digits_def])

section \<open>Properties of the conversion\<close>

text \<open>
  C27: A dialog that is converted to a record converts back to exactly the same dialog, when its
  URL parses back, its version is one of the four that the code knows and its list of decoded
  encodings has neither \<^verbatim>\<open>compress\<close> nor \<^verbatim>\<open>identity\<close>. With one of those the conversion
  back is an error that names the first of them, although \<^verbatim>\<open>decode_res_body\<close> puts
  \<^verbatim>\<open>identity\<close> on every list.
\<close>
theorem dialog_record_roundtrip:
  assumes "http_values H X"
    and "record_of_dialog H X d = Ok rec"
    and "u_try_from X (u_to_string X (pro_url (dlg_pro d))) = Inr (pro_url (dlg_pro d))"
    and "epi_version (dlg_epi d) \<in> {HTTP_09 X, HTTP_10 X, HTTP_11 X, HTTP_2 X}"
  shows "dialog_of_record H X rec =
    (case find unparsed (epi_res_decoded (dlg_epi d)) of
       None \<Rightarrow> Ok d
     | Some e \<Rightarrow> Err (InvalidResDecoded (encoding_display e)))"
  by (rule http_values.dialog_record_dialog [OF assms])

definition sample_dialog ::
  "encoding list \<Rightarrow> (std_method, bytes, std_version, status_code, assoc_map, 's) dialog" where
  "sample_dialog decoded =
     dialog_new
       \<lparr>pro_method = GET, pro_url = ''http://a/'', pro_req_headers = assoc_empty,
        pro_req_body = image_empty\<rparr>
       \<lparr>epi_version = V11, epi_status = status_of 200, epi_res_headers = assoc_empty,
        epi_res_body = image_empty, epi_res_decoded = decoded\<rparr>"

theorem dialog_record_roundtrip_witness:
  "\<exists>rec :: (assoc_map, unit) barc_record.
     record_of_dialog assoc_http std_values (sample_dialog [Chunked, GzipEnc, IdentityEnc]) = Ok rec \<and>
     dialog_of_record assoc_http std_values rec = Err (InvalidResDecoded ''identity'')"
proof -
  let ?d = "sample_dialog [Chunked, GzipEnc, IdentityEnc] ::
    (std_method, bytes, std_version, status_code, assoc_map, unit) dialog"
  have n: "status_number (status_of 200) = 200" by (transfer, simp)
  have "\<exists>rec. record_of_dialog assoc_http std_values ?d = Ok rec"
    by (simp add: record_of_dialog_def sample_dialog_def dialog_new_def dialog_explode_def
        meta_append_def std_values_def visible_str_def status_digits_def dec_digit_def n)
  then obtain rec where rec: "record_of_dialog assoc_http std_values ?d = Ok rec" ..
  have "u_try_from std_values (u_to_string std_values (pro_url (dlg_pro ?d))) = Inr (pro_url (dlg_pro ?d))"
    "epi_version (dlg_epi ?d) \<in> {HTTP_09 std_values, HTTP_10 std_values, HTTP_11 std_values, HTTP_2 std_values}"
    by (simp_all add: sample_dialog_def dialog_new_def std_values_def visible_str_def)
  from dialog_record_roundtrip [OF std.http_values_axioms rec this]
  have "dialog_of_record assoc_http std_values rec = Err (InvalidResDecoded ''identity'')"
    by (simp add: sample_dialog_def dialog_new_def unparsed_def)
  with rec show ?thesis by blast
qed

end
