(* ===== verification/Futio_Error.thy ===== *)
theory Futio_Error
  imports Dialog
begin

text \<open>
  \<^verbatim>\<open>FutioError\<close> of \<^verbatim>\<open>body-image-futio/src/lib.rs\<close>. The errors of the crates \<^emph>\<open>http\<close> and
  \<^emph>\<open>hyper\<close>, and what \<^verbatim>\<open>Other\<close> boxes, are opaque causes; a \<^verbatim>\<open>Duration\<close> is in nanoseconds.
  The conversions that \<^verbatim>\<open>From\<close> gives the \<^verbatim>\<open>?\<close> operator are \<open>FBody\<close>, \<open>FHttp\<close>,
  \<open>FHyper\<close> and \<open>futio_of_io\<close>.
\<close>

datatype futio_error = FBody body_error | ResponseTimeout nat | BodyTimeout nat
  | ContentLengthTooLong nat | FHttp flaw | FHyper flaw | UnsupportedEncoding encoding
  | OpCanceled | OtherFlaw flaw | FutioFutureProof

definition futio_of_io :: "io_error \<Rightarrow> futio_error" where
  "futio_of_io e = FBody (BodyIo e)"

end
