(* ===== verification/Futio_Decode.thy ===== *)
theory Futio_Decode
  imports Futio_Error Image_Read
begin

text \<open>
  \<^verbatim>\<open>body-image-futio/src/decode.rs\<close>: which encodings the headers of a response name, and the
  decompression of its body.

  The typed headers of the \<^emph>\<open>hyperx\<close> crate are parameters (\<open>Y\<close>), as are the decoders of
  \<^emph>\<open>flate2\<close> and \<^emph>\<open>brotli\<close> (\<open>D\<close>), with the locale \<open>body_decoders\<close> for what is relied
  on: a decoder over a reader of compressed bytes is a reader of some decoded bytes, and can
  fail. The properties give the encodings as a function of the parsed headers, and the dialog
  that \<^verbatim>\<open>decode_res_body\<close> leaves on each of its ways out.
\<close>

section \<open>Encodings of the headers\<close>

text \<open>\<^verbatim>\<open>hyperx::header::Encoding\<close>; \<open>HyOther\<close> stands for what the code has no arm for.\<close>

datatype hy_encoding = HyChunked | HyBrotli | HyGzip | HyDeflate | HyCompress | HyIdentity
  | HyExt bytes | HyOther

record 'h hyperx =
  hm_get_all :: "'h \<Rightarrow> bytes \<Rightarrow> bytes list"
  hy_content_encoding :: "bytes list \<Rightarrow> flaw + hy_encoding list"
  hy_transfer_encoding :: "'h \<Rightarrow> flaw + hy_encoding list"
  hy_content_length :: "'h \<Rightarrow> (flaw + nat) option"

text \<open>The loop of \<^verbatim>\<open>parse_encodings\<close>, over the parsed values in reverse.\<close>

fun push_encodings :: "hy_encoding list \<Rightarrow> bool \<Rightarrow> encoding list \<Rightarrow> bool \<times> encoding list" where
  "push_encodings [] chunked res = (chunked, res)"
| "push_encodings (av # avs) chunked res =
     (case av of
        HyIdentity \<Rightarrow> push_encodings avs chunked res
      | HyChunked \<Rightarrow> push_encodings avs True res
      | HyDeflate \<Rightarrow> push_encodings avs chunked (res @ [DeflateEnc])
      | HyGzip \<Rightarrow> push_encodings avs chunked (res @ [GzipEnc])
      | HyExt s \<Rightarrow>
          if s = ''x-gzip'' then push_encodings avs chunked (res @ [GzipEnc])
          else push_encodings avs chunked res
      | HyBrotli \<Rightarrow> push_encodings avs chunked (res @ [BrotliEnc])
      | HyCompress \<Rightarrow> push_encodings avs chunked (res @ [CompressEnc])
      | HyOther \<Rightarrow> push_encodings avs chunked res)"

definition parse_encoding_header ::
  "'h hyperx \<Rightarrow> bytes list \<Rightarrow> encoding list \<Rightarrow> bool \<times> encoding list" where
  "parse_encoding_header Y raw res =
     (case hy_content_encoding Y raw of
        Inr encs \<Rightarrow> push_encodings (rev encs) False res
      | Inl e \<Rightarrow> (False, res))"

definition find_encodings :: "'h hyperx \<Rightarrow> 'h \<Rightarrow> encoding list" where
  "find_encodings Y headers =
     (case parse_encoding_header Y (hm_get_all Y headers ''transfer-encoding'') [] of
        (chunked, res) \<Rightarrow>
      (case parse_encoding_header Y (hm_get_all Y headers ''content-encoding'') res of
        (_, res) \<Rightarrow>
          let res = (if 1 < length res then take 1 res else res)
          in if chunked then Chunked # res else res))"

fun any_chunked :: "hy_encoding list \<Rightarrow> bool" where
  "any_chunked [] = False"
| "any_chunked (av # avs) = (if av = HyChunked then True else any_chunked avs)"

definition find_chunked :: "'h hyperx \<Rightarrow> 'h \<Rightarrow> bool" where
  "find_chunked Y headers =
     (case hy_transfer_encoding Y headers of Inr v \<Rightarrow> any_chunked v | Inl e \<Rightarrow> False)"

section \<open>Decompression\<close>

record ('r, 'd) decompressors =
  gz_new :: "'r \<Rightarrow> 'd"
  df_new :: "'r \<Rightarrow> 'd"
  bd_new :: "'r \<Rightarrow> nat \<Rightarrow> 'd"
  gz_read :: "'d reader"
  df_read :: "'d reader"
  bd_read :: "'d reader"

text \<open>
  One arm of \<^verbatim>\<open>decompress\<close>: the estimate is \<^verbatim>\<open>body.len() * u64::from(..)\<close>, and the
  decoder is dropped at the end.
\<close>

definition decode_with ::
  "'b bytes_mut \<Rightarrow> temp_fn \<Rightarrow> bool \<Rightarrow> tunables \<Rightarrow> 'd reader \<Rightarrow> 'd \<Rightarrow> nat \<Rightarrow> nat \<Rightarrow> io_script
     \<Rightarrow> (futio_error, 's body_image, io_script) outcome" where
  "decode_with bm tmp chk tune rd decoder len size_estimate w =
     bindO (Some (u64_mul chk len size_estimate, w)) (\<lambda>len_est w.
       case read_from bm rd tmp tune len_est decoder w of
         None \<Rightarrow> None
       | Some (x, (d, w')) \<Rightarrow> Some (map_err FBody x, w'))"

definition decompress ::
  "('p, 's, 'g) olio \<Rightarrow> (('s, 'g) body_reader, 'd) decompressors \<Rightarrow> 'b bytes_mut \<Rightarrow> temp_fn \<Rightarrow> bool
     \<Rightarrow> 's body_image \<Rightarrow> encoding \<Rightarrow> tunables \<Rightarrow> io_script
     \<Rightarrow> (futio_error, 's body_image, io_script) outcome" where
  "decompress fs D bm tmp chk body compression tune w =
     (let rdr = reader fs body
      in case compression of
           GzipEnc \<Rightarrow>
             decode_with bm tmp chk tune (gz_read D) (gz_new D rdr) (bi_len body)
               (size_estimate_gzip tune) w
         | DeflateEnc \<Rightarrow>
             decode_with bm tmp chk tune (df_read D) (df_new D rdr) (bi_len body)
               (size_estimate_deflate tune) w
         | BrotliEnc \<Rightarrow>
             decode_with bm tmp chk tune (bd_read D) (bd_new D rdr (buffer_size_ram tune))
               (bi_len body) (size_estimate_brotli tune) w
         | _ \<Rightarrow> Some (Err (UnsupportedEncoding compression), w))"

definition decode_res_body ::
  "('p, 's, 'g) olio \<Rightarrow> 'h hyperx \<Rightarrow> (('s, 'g) body_reader, 'd) decompressors \<Rightarrow> 'b bytes_mut
     \<Rightarrow> temp_fn \<Rightarrow> bool \<Rightarrow> tunables \<Rightarrow> ('m, 'u, 'v, 'c, 'h, 's) dialog \<Rightarrow> io_script
     \<Rightarrow> (futio_error, bool, ('m, 'u, 'v, 'c, 'h, 's) dialog \<times> io_script) outcome" where
  "decode_res_body fs Y D bm tmp chk tune d w =
     (let encodings = find_encodings Y (epi_res_headers (dlg_epi d));
          compression =
            (if encodings = [] then None
             else if last encodings \<noteq> Chunked then Some (last encodings) else None)
      in case compression of
           Some enc \<Rightarrow>
             (case decompress fs D bm tmp chk (epi_res_body (dlg_epi d)) enc tune w of
                None \<Rightarrow> None
              | Some (Inl e, w') \<Rightarrow> Some (Inl e, (d, w'))
              | Some (Inr b, w') \<Rightarrow>
                  Some (Ok True, (set_res_body_decoded d b (encodings @ [IdentityEnc]), w')))
         | None \<Rightarrow> Some (Ok False, (set_res_decoded d (encodings @ [IdentityEnc]), w)))"

section \<open>What the headers give\<close>

text \<open>The compression that a parsed value stands for.\<close>

fun compression_of :: "hy_encoding \<Rightarrow> encoding option" where
  "compression_of HyDeflate = Some DeflateEnc"
| "compression_of HyGzip = Some GzipEnc"
| "compression_of HyBrotli = Some BrotliEnc"
| "compression_of HyCompress = Some CompressEnc"
| "compression_of (HyExt s) = (if s = ''x-gzip'' then Some GzipEnc else None)"
| "compression_of _ = None"

definition parsed :: "flaw + hy_encoding list \<Rightarrow> hy_encoding list" where
  "parsed r = (case r of Inr encs \<Rightarrow> encs | Inl e \<Rightarrow> [])"

lemma push_encodings_eq:
  "push_encodings avs chunked res =
     (chunked \<or> HyChunked \<in> set avs, res @ List.map_filter compression_of avs)"
  by (induction avs arbitrary: chunked res)
    (auto simp: map_filter_simps split: hy_encoding.splits)

lemma parse_encoding_header_eq:
  "parse_encoding_header Y raw res =
     (HyChunked \<in> set (parsed (hy_content_encoding Y raw)),
      res @ List.map_filter compression_of (rev (parsed (hy_content_encoding Y raw))))"
  by (auto simp: parse_encoding_header_def parsed_def push_encodings_eq map_filter_simps
      split: sum.splits)

lemma compression_of_plain: "compression_of av = Some e \<Longrightarrow> e \<noteq> Chunked \<and> e \<noteq> IdentityEnc"
  by (cases av) (auto split: if_splits)

lemma compressions_plain:
  "c \<in> set (List.map_filter compression_of avs) \<Longrightarrow> c \<noteq> Chunked \<and> c \<noteq> IdentityEnc"
  using compression_of_plain by (auto simp: List.map_filter_def)

lemma find_encodings_eq:
  "find_encodings Y headers =
     (let te = parsed (hy_content_encoding Y (hm_get_all Y headers ''transfer-encoding''));
          ce = parsed (hy_content_encoding Y (hm_get_all Y headers ''content-encoding''))
      in (if HyChunked \<in> set te then [Chunked] else []) @
         take 1 (List.map_filter compression_of (rev te @ rev ce)))"
  by (auto simp: find_encodings_def parse_encoding_header_eq Let_def List.map_filter_def)

section \<open>The contract of a decoder\<close>

locale body_decoder =
  olio_files fs p_bytes p_patience s_bytes s_off s_patience g_bytes g_off g_patience +
  dec: read_source rd stream off patience
  for fs :: "('p, 's, 'g) olio" and p_bytes p_patience s_bytes s_off s_patience
    and g_bytes g_off g_patience and rd :: "'d reader" and stream off patience +
  fixes new :: "('s, 'g) body_reader \<Rightarrow> 'd"
    and decoded :: "bytes \<Rightarrow> bytes"
  assumes new_stream: "rd_off r = 0 \<Longrightarrow> stream (new r) = decoded (rd_bytes r) \<and> off (new r) = 0"
begin

lemma decode_with_cases:
  assumes "im_ok body" and "bytes_buf bm" and "temp_files tmp"
  shows "\<exists>(x :: (futio_error, 's body_image) result) w'.
    decode_with bm tmp chk tune rd (new (reader fs body)) (bi_len body) est w = Some (x, w') \<and>
    (case x of
       Inr b \<Rightarrow> image_holds b (decoded (im_bytes body))
     | Inl (Fail e) \<Rightarrow> \<exists>be. e = FBody be
     | Inl (Panic m) \<Rightarrow> chk)"
proof (cases "u64_mul chk (bi_len body) est :: (futio_error, nat) result")
  case (Inl f)
  then show ?thesis
    by (auto simp: decode_with_def u64_mul_def split: if_splits)
next
  case (Inr n)
  have col: "collecting rd stream off patience bm tmp"
    using assms(2,3) dec.read_source_axioms by (intro collecting.intro)
  have "stream (new (reader fs body)) = decoded (im_bytes body) \<and> off (new (reader fs body)) = 0"
    using new_stream reader_starts [OF assms(1)] by metis
  then have rest: "dec.rest (new (reader fs body)) = decoded (im_bytes body)"
    by (simp add: dec.rest_def)
  obtain x :: "(body_error, 's body_image) result" and r' w'
    where x: "read_from bm rd tmp tune n (new (reader fs body)) w = Some (x, (r', w'))"
    "case x of Inr b \<Rightarrow> image_holds b (decoded (im_bytes body)) | Inl f \<Rightarrow> \<exists>e. f = Fail e"
    using collecting.read_from_image [OF col, of tune n "new (reader fs body)" w] rest by metis
  then show ?thesis
    using Inr by (cases x) (auto simp: decode_with_def)
qed

end

text \<open>An instance: bytes that are stored as they are, and headers as lists of words.\<close>

definition stored_decompressors ::
  "((cursor \<times> nat, cursor) body_reader, (cursor \<times> nat, cursor) body_reader) decompressors" where
  "stored_decompressors =
     \<lparr>gz_new = (\<lambda>r. r), df_new = (\<lambda>r. r), bd_new = (\<lambda>r n. r),
      gz_read = body_reader_read cursor_olio, df_read = body_reader_read cursor_olio,
      bd_read = body_reader_read cursor_olio\<rparr>"

interpretation stored: body_decoder cursor_olio cur_bytes "\<lambda>_. 0" "\<lambda>s. cur_bytes (fst s)"
    "\<lambda>s. cur_pos (fst s)" "\<lambda>_. 0" cur_bytes cur_pos "\<lambda>_. 0" "body_reader_read cursor_olio"
    "reader_bytes (\<lambda>s. cur_bytes (fst s)) cur_bytes"
    "reader_nat cur_pos (\<lambda>s. cur_pos (fst s)) cur_pos"
    "reader_nat (\<lambda>_. 0) (\<lambda>_. 0) (\<lambda>_. 0)" "\<lambda>r. r" "\<lambda>bs. bs"
  by (intro body_decoder.intro cursors.olio_files_axioms cursors.bdy.read_source_axioms
      body_decoder_axioms.intro) simp

definition hy_word :: "bytes \<Rightarrow> hy_encoding" where
  "hy_word s =
     (if s = ''chunked'' then HyChunked else if s = ''br'' then HyBrotli
      else if s = ''gzip'' then HyGzip else if s = ''deflate'' then HyDeflate
      else if s = ''compress'' then HyCompress else if s = ''identity'' then HyIdentity
      else HyExt s)"

definition hy_words :: "bytes list \<Rightarrow> flaw + hy_encoding list" where
  "hy_words vs =
     (if vs = [] then Inl (Flaw ''header'')
      else Inr (concat (map (\<lambda>v. map (\<lambda>s. hy_word (trim s)) (split_commas v)) vs)))"

definition assoc_hyperx :: "assoc_map hyperx" where
  "assoc_hyperx =
     \<lparr>hm_get_all = (\<lambda>h n. values_of (assoc_iter h) n),
      hy_content_encoding = hy_words,
      hy_transfer_encoding = (\<lambda>h. hy_words (values_of (assoc_iter h) ''transfer-encoding'')),
      hy_content_length = (\<lambda>h. None)\<rparr>"

section \<open>Properties of decoding\<close>

text \<open>
  C35: The encodings found are a function of the two parsed headers: \<^verbatim>\<open>Chunked\<close> first, if it is
  among the transfer codings, then the last applied compression, one of \<^verbatim>\<open>Transfer-Encoding\<close>
  before one of \<^verbatim>\<open>Content-Encoding\<close>. So there are at most two, only the second can be a
  compression, \<^verbatim>\<open>Identity\<close> is never among them, and a header that does not parse counts as
  absent.
\<close>
theorem find_encodings_result:
  "find_encodings Y headers =
     (let te = parsed (hy_content_encoding Y (hm_get_all Y headers ''transfer-encoding''));
          ce = parsed (hy_content_encoding Y (hm_get_all Y headers ''content-encoding''))
      in (if HyChunked \<in> set te then [Chunked] else []) @
         take 1 (List.map_filter compression_of (rev te @ rev ce))) \<and>
   length (find_encodings Y headers) \<le> 2 \<and> IdentityEnc \<notin> set (find_encodings Y headers)"
  using in_set_takeD compressions_plain by (fastforce simp: find_encodings_eq Let_def)

lemma find_encodings_shape:
  obtains "find_encodings Y headers = []" | "find_encodings Y headers = [Chunked]"
  | c where "find_encodings Y headers = [c]" "c \<noteq> Chunked" "c \<noteq> IdentityEnc"
  | c where "find_encodings Y headers = [Chunked, c]" "c \<noteq> Chunked" "c \<noteq> IdentityEnc"
proof -
  define cs where "cs = List.map_filter compression_of
    (rev (parsed (hy_content_encoding Y (hm_get_all Y headers ''transfer-encoding''))) @
     rev (parsed (hy_content_encoding Y (hm_get_all Y headers ''content-encoding''))))"
  have "c \<noteq> Chunked \<and> c \<noteq> IdentityEnc" if "c \<in> set cs" for c
    using that compressions_plain unfolding cs_def by blast
  then show ?thesis
    using find_encodings_eq [of Y headers] that
    unfolding Let_def cs_def [symmetric] by (cases cs) (auto split: if_splits)
qed

definition decoded_body ::
  "(bytes \<Rightarrow> bytes) \<Rightarrow> (bytes \<Rightarrow> bytes) \<Rightarrow> (bytes \<Rightarrow> bytes) \<Rightarrow> encoding \<Rightarrow> bytes \<Rightarrow> bytes" where
  "decoded_body gunzip inflate unbrotli e bs =
     (case e of GzipEnc \<Rightarrow> gunzip bs | DeflateEnc \<Rightarrow> inflate bs | _ \<Rightarrow> unbrotli bs)"

definition decompressed :: "bool \<Rightarrow> encoding \<Rightarrow> bytes \<Rightarrow> (futio_error, 's body_image) result \<Rightarrow> bool" where
  "decompressed chk e out x =
     (case x of
        Inr b \<Rightarrow> e \<in> {GzipEnc, DeflateEnc, BrotliEnc} \<and> image_holds b out
      | Inl (Fail (UnsupportedEncoding e')) \<Rightarrow> e' = CompressEnc \<and> e = e'
      | Inl (Fail x) \<Rightarrow> \<exists>be. x = FBody be
      | Inl (Panic m) \<Rightarrow> chk)"

lemma decompressed_arm:
  assumes "\<exists>x w'. m = Some (x, w') \<and>
      (case x of Inr b \<Rightarrow> image_holds b out | Inl (Fail e) \<Rightarrow> \<exists>be. e = FBody be
       | Inl (Panic m) \<Rightarrow> chk)"
    and "n = m" and "e \<in> {GzipEnc, DeflateEnc, BrotliEnc}" and "out = out'"
  shows "\<exists>x w'. n = Some (x, w') \<and> decompressed chk e out' x"
proof -
  obtain x w' where m: "m = Some (x, w')" and x: "case x of Inr b \<Rightarrow> image_holds b out
       | Inl (Fail e) \<Rightarrow> \<exists>be. e = FBody be | Inl (Panic m) \<Rightarrow> chk"
    using assms(1) by blast
  have "decompressed chk e out' x"
    using x assms(3,4) by (cases x) (auto simp: decompressed_def split: fault.splits)
  then show ?thesis using m assms(2) by blast
qed

lemma decompress_result:
  assumes "body_decoder fs p_bytes p_patience s_bytes s_off s_patience g_bytes g_off g_patience
      (gz_read D) gz_stream gz_off gz_patience (gz_new D) gunzip"
    and "body_decoder fs p_bytes p_patience s_bytes s_off s_patience g_bytes g_off g_patience
      (df_read D) df_stream df_off df_patience (df_new D) inflate"
    and "body_decoder fs p_bytes p_patience s_bytes s_off s_patience g_bytes g_off g_patience
      (bd_read D) bd_stream bd_off bd_patience (\<lambda>r. bd_new D r (buffer_size_ram tune)) unbrotli"
    and "bytes_buf bm" and "temp_files tmp"
    and "image_ok fs s_bytes s_off body"
    and "e \<notin> {Chunked, IdentityEnc}"
  shows "\<exists>x w'. decompress fs D bm tmp chk body e tune w = Some (x, w') \<and>
    decompressed chk e (decoded_body gunzip inflate unbrotli e (image_bytes s_bytes body)) x"
proof (cases e)
  case DeflateEnc
  show ?thesis
    by (rule decompressed_arm [OF body_decoder.decode_with_cases [OF assms(2,6,4,5),
          where tune = tune and chk = chk and est = "size_estimate_deflate tune" and w = w]])
      (simp_all add: DeflateEnc decompress_def decoded_body_def)
next
  case GzipEnc
  show ?thesis
    by (rule decompressed_arm [OF body_decoder.decode_with_cases [OF assms(1,6,4,5),
          where tune = tune and chk = chk and est = "size_estimate_gzip tune" and w = w]])
      (simp_all add: GzipEnc decompress_def decoded_body_def)
next
  case BrotliEnc
  show ?thesis
    by (rule decompressed_arm [OF body_decoder.decode_with_cases [OF assms(3,6,4,5),
          where tune = tune and chk = chk and est = "size_estimate_brotli tune" and w = w]])
      (simp_all add: BrotliEnc decompress_def decoded_body_def)
qed (use assms(7) in \<open>simp_all add: decompress_def decompressed_def\<close>)

text \<open>
  C36: \<^verbatim>\<open>decode_res_body\<close> returns, whatever the decoders and the file system do. On
  \<^verbatim>\<open>Ok(true)\<close> the last encoding found is one that is supported, the body is an image of what
  that decoder makes of the old body's bytes, and the decoded list is what was found with
  \<^verbatim>\<open>Identity\<close>; on \<^verbatim>\<open>Ok(false)\<close> no compression was found and only the list is set. On an
  error the dialog is as it was; an encoding is refused only if it is \<^verbatim>\<open>Compress\<close>, and the one
  panic is the overflow check of the length estimate.
\<close>
theorem decode_res_body_result:
  assumes "body_decoder fs p_bytes p_patience s_bytes s_off s_patience g_bytes g_off g_patience
      (gz_read D) gz_stream gz_off gz_patience (gz_new D) gunzip"
    and "body_decoder fs p_bytes p_patience s_bytes s_off s_patience g_bytes g_off g_patience
      (df_read D) df_stream df_off df_patience (df_new D) inflate"
    and "body_decoder fs p_bytes p_patience s_bytes s_off s_patience g_bytes g_off g_patience
      (bd_read D) bd_stream bd_off bd_patience (\<lambda>r. bd_new D r (buffer_size_ram tune)) unbrotli"
    and "bytes_buf bm" and "temp_files tmp"
    and "image_ok fs s_bytes s_off (epi_res_body (dlg_epi d))"
    and "encs = find_encodings Y (epi_res_headers (dlg_epi d))"
  shows "\<exists>x d' w'. decode_res_body fs Y D bm tmp chk tune d w = Some (x, (d', w')) \<and>
    (case x of
       Inr True \<Rightarrow> last encs \<in> {GzipEnc, DeflateEnc, BrotliEnc} \<and>
         (\<exists>b. image_holds b (decoded_body gunzip inflate unbrotli (last encs)
             (image_bytes s_bytes (epi_res_body (dlg_epi d)))) \<and>
           d' = set_res_body_decoded d b (encs @ [IdentityEnc]))
     | Inr False \<Rightarrow> encs \<in> {[], [Chunked]} \<and> d' = set_res_decoded d (encs @ [IdentityEnc])
     | Inl (Fail (UnsupportedEncoding e)) \<Rightarrow> e = CompressEnc \<and> last encs = e \<and> d' = d
     | Inl (Fail e) \<Rightarrow> (\<exists>be. e = FBody be) \<and> d' = d
     | Inl (Panic m) \<Rightarrow> chk \<and> d' = d)"
proof (cases "encs \<in> {[], [Chunked]}")
  case True
  then show ?thesis
    using assms(7) by (auto simp: decode_res_body_def Let_def)
next
  case False
  then have encs: "encs \<noteq> []" "last encs \<noteq> Chunked" "last encs \<notin> {Chunked, IdentityEnc}"
    using assms(7) by (cases rule: find_encodings_shape [of Y "epi_res_headers (dlg_epi d)"]; simp)+
  let ?body = "epi_res_body (dlg_epi d)"
  obtain x w' where "decompress fs D bm tmp chk ?body (last encs) tune w = Some (x, w')"
    "decompressed chk (last encs)
      (decoded_body gunzip inflate unbrotli (last encs) (image_bytes s_bytes ?body)) x"
    using decompress_result [OF assms(1-6) encs(3)] by blast
  then show ?thesis
    using encs(1,2) assms(7)
    by (cases x) (auto simp: decode_res_body_def decompressed_def Let_def
        split: fault.splits futio_error.splits)
qed

definition gzip_dialog :: "(std_method, bytes, std_version, status_code, assoc_map, cursor \<times> nat) dialog" where
  "gzip_dialog =
     dialog_new
       \<lparr>pro_method = GET, pro_url = ''http://a/'', pro_req_headers = assoc_empty,
        pro_req_body = image_empty\<rparr>
       \<lparr>epi_version = V11, epi_status = status_of 200,
        epi_res_headers = assoc_append (assoc_append assoc_empty ''transfer-encoding'' ''chunked'')
          ''content-encoding'' ''br, gzip'',
        epi_res_body = \<lparr>bi_state = Ram [''ab'', ''c''], bi_len = 3\<rparr>, epi_res_decoded = []\<rparr>"

lemma gzip_dialog_encodings:
  "find_encodings assoc_hyperx (epi_res_headers (dlg_epi gzip_dialog)) = [Chunked, GzipEnc]"
  by (simp add: find_encodings_eq gzip_dialog_def dialog_new_def assoc_hyperx_def hy_words_def
      parsed_def assoc_name_Inr assoc_value_Inr name_char_def value_char_def hy_word_def trim_def
      is_space_def List.map_filter_def)

theorem decode_res_body_result_witness:
  "\<exists>x d' w'. decode_res_body cursor_olio assoc_hyperx stored_decompressors grow_buf scripted_tempfile
      True sample_tune gzip_dialog [] = Some (x, (d', w')) \<and>
    (x = Ok True \<longrightarrow> epi_res_decoded (dlg_epi d') = [Chunked, GzipEnc, IdentityEnc] \<and>
      bi_len (epi_res_body (dlg_epi d')) = 3)"
proof -
  have img: "image_ok cursor_olio (\<lambda>s. cur_bytes (fst s)) (\<lambda>s. cur_pos (fst s))
      (epi_res_body (dlg_epi gzip_dialog))"
    and bs: "image_bytes (\<lambda>s. cur_bytes (fst s)) (epi_res_body (dlg_epi gzip_dialog)) = ''abc''"
    by (simp_all add: gzip_dialog_def dialog_new_def image_ok_def image_bytes_def)
  have D: "gz_read stored_decompressors = body_reader_read cursor_olio"
    "df_read stored_decompressors = body_reader_read cursor_olio"
    "bd_read stored_decompressors = body_reader_read cursor_olio"
    "gz_new stored_decompressors = (\<lambda>r. r)" "df_new stored_decompressors = (\<lambda>r. r)"
    "(\<lambda>r. bd_new stored_decompressors r (buffer_size_ram sample_tune)) = (\<lambda>r. r)"
    by (simp_all add: stored_decompressors_def)
  note c = stored.body_decoder_axioms
  note h = decode_res_body_result [where D = stored_decompressors and tune = sample_tune, unfolded D,
      OF c c c growing.bytes_buf_axioms scripted_tmp.temp_files_axioms img
        gzip_dialog_encodings [symmetric], of True "[]"]
  then show ?thesis
    unfolding bs by (fastforce simp: set_res_body_decoded_def decoded_body_def dest: image_holdsD(3))
qed

text \<open>What \<^verbatim>\<open>decode_res_body\<close> leaves alone, and the list it sets.\<close>

lemma decode_res_body_Ok:
  assumes "decode_res_body fs Y D bm tmp chk tune d w = Some (Ok changed, (d', w'))"
  shows "dlg_pro d' = dlg_pro d" and "epi_version (dlg_epi d') = epi_version (dlg_epi d)"
    and "epi_res_headers (dlg_epi d') = epi_res_headers (dlg_epi d)"
    and "epi_res_decoded (dlg_epi d') = find_encodings Y (epi_res_headers (dlg_epi d)) @ [IdentityEnc]"
    and "find unparsed (epi_res_decoded (dlg_epi d')) = Some IdentityEnc"
proof -
  let ?encs = "find_encodings Y (epi_res_headers (dlg_epi d))"
  have *: "dlg_pro d' = dlg_pro d \<and> epi_version (dlg_epi d') = epi_version (dlg_epi d) \<and>
      epi_res_headers (dlg_epi d') = epi_res_headers (dlg_epi d) \<and>
      epi_res_decoded (dlg_epi d') = ?encs @ [IdentityEnc] \<and> CompressEnc \<notin> set ?encs"
    using assms by (cases rule: find_encodings_shape [of Y "epi_res_headers (dlg_epi d)"];
        auto simp: decode_res_body_def decompress_def set_res_decoded_def set_res_body_decoded_def
          split: if_splits option.splits sum.splits)+
  moreover have "find unparsed (?encs @ [IdentityEnc]) = Some IdentityEnc"
    using * by (cases rule: find_encodings_shape [of Y "epi_res_headers (dlg_epi d)"])
      (auto simp: unparsed_def)
  ultimately show "dlg_pro d' = dlg_pro d" "epi_version (dlg_epi d') = epi_version (dlg_epi d)"
    "epi_res_headers (dlg_epi d') = epi_res_headers (dlg_epi d)"
    "epi_res_decoded (dlg_epi d') = ?encs @ [IdentityEnc]"
    "find unparsed (epi_res_decoded (dlg_epi d')) = Some IdentityEnc"
    by simp_all
qed

text \<open>
  Every dialog that \<^verbatim>\<open>decode_res_body\<close> has returned \<^verbatim>\<open>Ok\<close> for, decoded or not, is
  written to a record that no longer converts back to a dialog: the conversion fails on the
  \<^verbatim>\<open>identity\<close> that was put on the list.
\<close>
theorem decoded_dialog_unreadable:
  assumes "http_values H X"
    and "decode_res_body fs Y D bm tmp chk tune d w = Some (Ok changed, (d', w'))"
    and "record_of_dialog H X d' = Ok rec"
    and "u_try_from X (u_to_string X (pro_url (dlg_pro d))) = Inr (pro_url (dlg_pro d))"
    and "epi_version (dlg_epi d) \<in> {HTTP_09 X, HTTP_10 X, HTTP_11 X, HTTP_2 X}"
  shows "dialog_of_record H X rec = Err (InvalidResDecoded ''identity'')"
  using http_values.dialog_record_dialog [OF assms(1,3)] assms(4,5) decode_res_body_Ok [OF assms(2)]
  by simp

theorem decoded_dialog_unreadable_witness:
  "\<exists>d' w' rec.
     decode_res_body cursor_olio assoc_hyperx stored_decompressors grow_buf scripted_tempfile True
       sample_tune (sample_dialog []) [] = Some (Ok False, (d', w')) \<and>
     record_of_dialog assoc_http std_values d' = Ok rec \<and>
     dialog_of_record assoc_http std_values rec = Err (InvalidResDecoded ''identity'')"
proof -
  let ?d = "sample_dialog [] ::
    (std_method, bytes, std_version, status_code, assoc_map, cursor \<times> nat) dialog"
  let ?d' = "sample_dialog [IdentityEnc] ::
    (std_method, bytes, std_version, status_code, assoc_map, cursor \<times> nat) dialog"
  have d: "decode_res_body cursor_olio assoc_hyperx stored_decompressors grow_buf scripted_tempfile
      True sample_tune ?d [] = Some (Ok False, (?d', []))"
    by (simp add: decode_res_body_def find_encodings_eq sample_dialog_def dialog_new_def
        assoc_hyperx_def hy_words_def parsed_def set_res_decoded_def List.map_filter_def)
  have n: "status_number (status_of 200) = 200" by (transfer, simp)
  obtain rec where rec: "record_of_dialog assoc_http std_values ?d' = Ok rec"
    by (simp add: record_of_dialog_def sample_dialog_def dialog_new_def dialog_explode_def
        meta_append_def std_values_def visible_str_def status_digits_def dec_digit_def n)
  have "u_try_from std_values (u_to_string std_values (pro_url (dlg_pro ?d))) = Inr (pro_url (dlg_pro ?d))"
    "epi_version (dlg_epi ?d) \<in> {HTTP_09 std_values, HTTP_10 std_values, HTTP_11 std_values, HTTP_2 std_values}"
    by (simp_all add: sample_dialog_def dialog_new_def std_values_def visible_str_def)
  from decoded_dialog_unreadable [OF std.http_values_axioms d rec this] d rec
  show ?thesis by blast
qed

end
