(* ===== verification/Futio_Blocking.thy ===== *)
theory Futio_Blocking
  imports Futio_Error
begin

text \<open>
  Where blocking is allowed: \<^verbatim>\<open>body-image-futio/src/blocking.rs\<close>, and what the sinks and
  streams use of \<^verbatim>\<open>std::task::Poll\<close> and of the futures of the \<^emph>\<open>blocking-permit\<close> crate.

  A \<^verbatim>\<open>BlockingArbiter\<close> is a record of its operations. What a permit's or a dispatched
  operation's future answers, poll by poll, is decided by the environment: a list of
  \<open>fut_poll\<close>, at whose end a future stays pending.
\<close>

section \<open>Poll and the environment's futures\<close>

datatype 'a poll = Ready 'a | Pending

datatype fut_poll = FutPending | FutReady | FutCanceled

type_synonym schedule = "fut_poll list"

definition next_poll :: "schedule \<Rightarrow> fut_poll \<times> schedule" where
  "next_poll q = (case q of [] \<Rightarrow> (FutPending, []) | x # q' \<Rightarrow> (x, q'))"

section \<open>Arbiters\<close>

datatype blocking = Void | BlockPending | Once | Always

record 'a arbiter =
  ar_default :: 'a
  ar_can_block :: "'a \<Rightarrow> bool \<times> 'a"
  ar_state :: "'a \<Rightarrow> blocking"

definition lenient :: "unit arbiter" where
  "lenient = \<lparr>ar_default = (), ar_can_block = (\<lambda>a. (True, a)), ar_state = (\<lambda>a. Always)\<rparr>"

fun stateful_can_block :: "blocking \<Rightarrow> bool \<times> blocking" where
  "stateful_can_block Void = (False, BlockPending)"
| "stateful_can_block BlockPending = (False, BlockPending)"
| "stateful_can_block Once = (True, Void)"
| "stateful_can_block Always = (True, Always)"

definition stateful :: "blocking arbiter" where
  "stateful = \<lparr>ar_default = Void, ar_can_block = stateful_can_block, ar_state = (\<lambda>a. a)\<rparr>"

text \<open>
  The contract: a refusal is recorded as pending, and an arbiter that allows blocking once does
  not go on to allow it.
\<close>

locale arbitration =
  fixes A :: "'a arbiter"
  assumes refused: "ar_can_block A a = (False, a') \<Longrightarrow> ar_state A a' = BlockPending"
    and allowed: "ar_can_block A a = (True, a') \<Longrightarrow> ar_state A a \<in> {Once, Always} \<and>
      ar_state A a' = (if ar_state A a = Once then Void else Always)"
begin

lemma can_block_Once: "ar_state A a = Once \<Longrightarrow> ar_can_block A a = (True, a') \<Longrightarrow> ar_state A a' = Void"
  using allowed by auto

end

interpretation len: arbitration lenient
  by unfold_locales (simp_all add: lenient_def)

interpretation sta: arbitration stateful
proof
  fix a a'
  show "ar_can_block stateful a = (False, a') \<Longrightarrow> ar_state stateful a' = BlockPending"
    by (cases a) (auto simp: stateful_def)
  show "ar_can_block stateful a = (True, a') \<Longrightarrow> ar_state stateful a \<in> {Once, Always} \<and>
      ar_state stateful a' = (if ar_state stateful a = Once then Void else Always)"
    by (cases a) (auto simp: stateful_def)
qed

lemma stateful_sel [simp]:
  "ar_default stateful = Void" "ar_can_block stateful = stateful_can_block" "ar_state stateful a = a"
  by (simp_all add: stateful_def)

lemma lenient_sel [simp]:
  "ar_default lenient = ()" "ar_can_block lenient a = (True, a)" "ar_state lenient a = Always"
  by (simp_all add: lenient_def)

end
