(* ===== verification/Futio_Buf.thy ===== *)
theory Futio_Buf
  imports Futio_Error Body_Image
begin

text \<open>
  The buffers that go through the asynchronous sinks and streams: \<^verbatim>\<open>MemMapBuf\<close>
  (\<^verbatim>\<open>mem_map_buf.rs\<close>), \<^verbatim>\<open>UniBodyBuf\<close> (\<^verbatim>\<open>uni_body_buf.rs\<close>), and the traits \<^verbatim>\<open>InputBuf\<close>
  (\<^verbatim>\<open>sink.rs\<close>) and \<^verbatim>\<open>OutputBuf\<close> (\<^verbatim>\<open>stream.rs\<close>) as records of operations with their
  contracts as locales. \<^verbatim>\<open>Bytes\<close> is represented by the bytes it holds.

  Both implementations of the traits are instances of the contracts; the properties relate a
  \<^verbatim>\<open>UniBodyBuf\<close> in either representation to the bytes it stands for.
\<close>

section \<open>MemMapBuf\<close>

record mem_map_buf =
  mm :: bytes
  mm_pos :: nat
  mm_len :: nat

definition mm_new :: "bytes \<Rightarrow> mem_map_buf" where
  "mm_new m = \<lparr>mm = m, mm_pos = 0, mm_len = length m\<rparr>"

definition mm_split_to ::
  "mem_map_buf \<Rightarrow> nat \<Rightarrow> ('e, mem_map_buf) result \<times> mem_map_buf" where
  "mm_split_to b rel =
     (if \<not> 0 < rel then (panic ''assertion failed: rel > 0'', b)
      else let abs = mm_pos b + rel
           in if \<not> abs < mm_len b then (panic ''assertion failed: abs < self.len'', b)
              else (Ok \<lparr>mm = mm b, mm_pos = mm_pos b, mm_len = abs\<rparr>, b\<lparr>mm_pos := abs\<rparr>))"

definition mm_advise_sequential ::
  "(bytes \<Rightarrow> mem_advice \<Rightarrow> io_error option) \<Rightarrow> mem_map_buf \<Rightarrow> (io_error, unit) result" where
  "mm_advise_sequential advise b =
     (case advise (mm b) AdviseSequential of Some e \<Rightarrow> Err e | None \<Rightarrow> Ok ())"

definition mm_remaining :: "mem_map_buf \<Rightarrow> nat" where
  "mm_remaining b = mm_len b - mm_pos b"

definition mm_chunk :: "mem_map_buf \<Rightarrow> bytes" where
  "mm_chunk b = take (mm_len b - mm_pos b) (drop (mm_pos b) (mm b))"

definition mm_advance :: "mem_map_buf \<Rightarrow> nat \<Rightarrow> ('e, unit) result \<times> mem_map_buf" where
  "mm_advance b rel =
     (if \<not> rel \<le> mm_remaining b then (panic ''MemMapBuf::advance past end'', b)
      else (Ok (), b\<lparr>mm_pos := mm_pos b + rel\<rparr>))"

section \<open>UniBodyBuf\<close>

datatype uni_body_buf = UniBytes bytes | UniMemMap mem_map_buf

fun uni_remaining :: "uni_body_buf \<Rightarrow> nat" where
  "uni_remaining (UniBytes b) = length b"
| "uni_remaining (UniMemMap b) = mm_remaining b"

fun uni_chunk :: "uni_body_buf \<Rightarrow> bytes" where
  "uni_chunk (UniBytes b) = b"
| "uni_chunk (UniMemMap b) = mm_chunk b"

text \<open>\<^verbatim>\<open>Bytes::advance\<close> panics past the end, as does its \<^verbatim>\<open>split_to\<close>.\<close>

fun uni_advance :: "uni_body_buf \<Rightarrow> nat \<Rightarrow> ('e, unit) result \<times> uni_body_buf" where
  "uni_advance (UniBytes b) n =
     (if n \<le> length b then (Ok (), UniBytes (drop n b))
      else (panic ''cannot advance past `remaining`'', UniBytes b))"
| "uni_advance (UniMemMap b) n = (case mm_advance b n of (r, b') \<Rightarrow> (r, UniMemMap b'))"

definition uni_split_if ::
  "uni_body_buf \<Rightarrow> nat \<Rightarrow> ('e, uni_body_buf option) result \<times> uni_body_buf" where
  "uni_split_if u mx =
     (if mx < length (uni_chunk u)
      then (case u of
          UniBytes b \<Rightarrow> (Ok (Some (UniBytes (take mx b))), UniBytes (drop mx b))
        | UniMemMap mb \<Rightarrow>
            (case mm_split_to mb mx of
               (Inl f, mb') \<Rightarrow> (Inl f, UniMemMap mb')
             | (Inr r, mb') \<Rightarrow> (Ok (Some (UniMemMap r)), UniMemMap mb')))
      else (Ok None, u))"

fun uni_into :: "uni_body_buf \<Rightarrow> bytes" where
  "uni_into (UniBytes b) = b"
| "uni_into (UniMemMap mb) = mm_chunk mb"

text \<open>A window of the map that lies within it.\<close>

fun uni_ok :: "uni_body_buf \<Rightarrow> bool" where
  "uni_ok (UniBytes b) = True"
| "uni_ok (UniMemMap b) = (mm_pos b \<le> mm_len b \<and> mm_len b \<le> length (mm b))"

lemmas mm_defs = mm_new_def mm_split_to_def mm_remaining_def mm_chunk_def mm_advance_def

lemma uni_remaining_chunk: "uni_ok u \<Longrightarrow> uni_remaining u = length (uni_chunk u)"
  by (cases u) (auto simp: mm_defs)

section \<open>InputBuf and OutputBuf\<close>

record 'b input_buf =
  ib_remaining :: "'b \<Rightarrow> nat"
  ib_as_ref :: "'b \<Rightarrow> bytes"
  ib_into :: "'b \<Rightarrow> bytes"

locale input_bufs =
  fixes I :: "'b input_buf" and valid :: "'b \<Rightarrow> bool"
  assumes remaining: "valid b \<Longrightarrow> ib_remaining I b = length (ib_as_ref I b)"
    and into: "valid b \<Longrightarrow> ib_into I b = ib_as_ref I b"

definition input_bytes :: "bytes input_buf" where
  "input_bytes = \<lparr>ib_remaining = length, ib_as_ref = (\<lambda>b. b), ib_into = (\<lambda>b. b)\<rparr>"

definition input_uni :: "uni_body_buf input_buf" where
  "input_uni = \<lparr>ib_remaining = uni_remaining, ib_as_ref = uni_chunk, ib_into = uni_into\<rparr>"

interpretation in_bytes: input_bufs input_bytes "\<lambda>_. True"
  by unfold_locales (simp_all add: input_bytes_def)

interpretation in_uni: input_bufs input_uni uni_ok
proof
  fix b
  show "uni_ok b \<Longrightarrow> ib_remaining input_uni b = length (ib_as_ref input_uni b)"
    by (simp add: input_uni_def uni_remaining_chunk)
  show "uni_ok b \<Longrightarrow> ib_into input_uni b = ib_as_ref input_uni b"
    by (cases b) (simp_all add: input_uni_def)
qed

text \<open>
  \<^verbatim>\<open>OutputBuf::from_mmap\<close> may fail with the memory advice; \<^verbatim>\<open>advise\<close> is that of the handle.
\<close>

record 'b output_buf =
  ob_from :: "bytes \<Rightarrow> 'b"
  ob_from_mmap :: "(bytes \<Rightarrow> mem_advice \<Rightarrow> io_error option) \<Rightarrow> bytes \<Rightarrow> (io_error, 'b) result"
  ob_remaining :: "'b \<Rightarrow> nat"
  ob_chunk :: "'b \<Rightarrow> bytes"

definition bytes_from_mmap ::
  "(bytes \<Rightarrow> mem_advice \<Rightarrow> io_error option) \<Rightarrow> bytes \<Rightarrow> (io_error, bytes) result" where
  "bytes_from_mmap advise mmap =
     (case tmp_advise (advise mmap) AdviseSequential (\<lambda>w. (Inr mmap, w)) () of
        (Inr b, w) \<Rightarrow> Ok b
      | (Inl e, w) \<Rightarrow> Err e)"

definition uni_from_mmap ::
  "(bytes \<Rightarrow> mem_advice \<Rightarrow> io_error option) \<Rightarrow> bytes \<Rightarrow> (io_error, uni_body_buf) result" where
  "uni_from_mmap advise mmap =
     (let buf = mm_new mmap
      in bindR (mm_advise_sequential advise buf) (\<lambda>_.
           if mm_chunk buf = [] then panic ''index out of bounds''
           else Ok (UniMemMap buf)))"

definition output_bytes :: "bytes output_buf" where
  "output_bytes =
     \<lparr>ob_from = (\<lambda>b. b), ob_from_mmap = bytes_from_mmap, ob_remaining = length, ob_chunk = (\<lambda>b. b)\<rparr>"

definition output_uni :: "uni_body_buf output_buf" where
  "output_uni =
     \<lparr>ob_from = UniBytes, ob_from_mmap = uni_from_mmap, ob_remaining = uni_remaining,
      ob_chunk = uni_chunk\<rparr>"

locale output_bufs =
  fixes B :: "'b output_buf"
  assumes from_chunk: "ob_chunk B (ob_from B bs) = bs"
    and from_mmap: "ob_from_mmap B adv m = Inr b \<Longrightarrow>
      ob_chunk B b = m \<and> ob_remaining B b = length m"
    and from_mmap_fail: "m \<noteq> [] \<Longrightarrow> ob_from_mmap B adv m = Inl f \<Longrightarrow>
      \<exists>e a. f = Fail e \<and> adv m a = Some e"

interpretation out_bytes: output_bufs output_bytes
  by unfold_locales
    (auto simp: output_bytes_def bytes_from_mmap_def tmp_advise_def split: option.splits)

interpretation out_uni: output_bufs output_uni
  by unfold_locales
    (auto simp: output_uni_def uni_from_mmap_def mm_advise_sequential_def mm_defs
      split: option.splits if_splits)

section \<open>Properties of UniBodyBuf\<close>

text \<open>
  The operations of a client on a buffer: \<^verbatim>\<open>advance\<close> and \<^verbatim>\<open>split_if\<close>, which puts the segment
  that was split off before the rest.
\<close>

datatype buf_op = Advance nat | SplitIf nat

fun run_uni :: "buf_op list \<Rightarrow> uni_body_buf \<Rightarrow> ('e, bytes list \<times> bytes) result" where
  "run_uni [] u = Ok ([], uni_chunk u)"
| "run_uni (Advance n # ops) u =
     (case uni_advance u n of
        (Inl f, u') \<Rightarrow> Inl f
      | (Inr x, u') \<Rightarrow> run_uni ops u')"
| "run_uni (SplitIf n # ops) u =
     (case uni_split_if u n of
        (Inl f, u') \<Rightarrow> Inl f
      | (Inr None, u') \<Rightarrow> run_uni ops u'
      | (Inr (Some seg), u') \<Rightarrow>
          (case run_uni ops u' of Inl f \<Rightarrow> Inl f | Inr (segs, rest) \<Rightarrow> Ok (uni_chunk seg # segs, rest)))"

text \<open>The same on plain bytes.\<close>

fun run_bytes :: "buf_op list \<Rightarrow> bytes \<Rightarrow> (bytes list \<times> bytes) option" where
  "run_bytes [] bs = Some ([], bs)"
| "run_bytes (Advance n # ops) bs =
     (if n \<le> length bs then run_bytes ops (drop n bs) else None)"
| "run_bytes (SplitIf n # ops) bs =
     (if n < length bs
      then map_option (\<lambda>(segs, rest). (take n bs # segs, rest)) (run_bytes ops (drop n bs))
      else run_bytes ops bs)"

lemma mm_split_ok:
  assumes "uni_ok (UniMemMap b)" and "0 < n" and "n < length (mm_chunk b)"
  shows "\<exists>s r. mm_split_to b n = ((Ok s :: ('e, mem_map_buf) result), r) \<and> mm_chunk s = take n (mm_chunk b) \<and>
    mm_chunk r = drop n (mm_chunk b) \<and> uni_ok (UniMemMap r)"
proof -
  let ?s = "\<lparr>mm = mm b, mm_pos = mm_pos b, mm_len = mm_pos b + n\<rparr>"
  let ?r = "b\<lparr>mm_pos := mm_pos b + n\<rparr>"
  have n: "mm_pos b + n < mm_len b" using assms(3) by (simp add: mm_chunk_def less_diff_conv add.commute)
  have "mm_split_to b n = ((Ok ?s :: ('e, mem_map_buf) result), ?r)" using assms(2) n by (simp add: mm_split_to_def Let_def)
  moreover have "mm_chunk ?s = take n (mm_chunk b)"
    using n by (simp add: mm_chunk_def take_take min_def)
  moreover have "mm_chunk ?r = drop n (mm_chunk b)"
    by (simp add: mm_chunk_def drop_take add.commute)
  ultimately show ?thesis
    using assms(1) n by (intro exI [of _ ?s] exI [of _ ?r]) simp
qed

lemma uni_split_ok:
  assumes "uni_ok u" and "0 < n" and "n < length (uni_chunk u)"
  shows "\<exists>s u'. uni_split_if u n = ((Ok (Some s) :: ('e, uni_body_buf option) result), u') \<and>
    uni_chunk s = take n (uni_chunk u) \<and>
    uni_chunk u' = drop n (uni_chunk u) \<and> uni_ok u'"
proof (cases u)
  case (UniMemMap b)
  then show ?thesis
    using mm_split_ok [of b n, where 'e = 'e] assms by (auto simp: uni_split_if_def)
qed (use assms in \<open>simp add: uni_split_if_def\<close>)

lemma uni_advance_ok:
  assumes "uni_ok u" and "n \<le> length (uni_chunk u)"
  shows "\<exists>u'. uni_advance u n = (Ok (), u') \<and> uni_chunk u' = drop n (uni_chunk u) \<and> uni_ok u'"
proof (cases u)
  case (UniMemMap b)
  have "mm_chunk (b\<lparr>mm_pos := mm_pos b + n\<rparr>) = drop n (mm_chunk b)"
    by (simp add: mm_chunk_def drop_take add.commute)
  moreover have "mm_pos b + n \<le> mm_len b" "n \<le> mm_len b - mm_pos b"
    using assms UniMemMap by (auto simp: mm_chunk_def)
  ultimately show ?thesis
    using UniMemMap assms(1) by (simp add: mm_advance_def mm_remaining_def)
qed (use assms in simp)

text \<open>
  C37: A \<^verbatim>\<open>UniBodyBuf\<close> behaves as the bytes it shows, whether it holds \<^verbatim>\<open>Bytes\<close> or a memory
  map: any advances and splits with positive sizes give the same segments and the same rest
  as on the bytes, and panic in the same case only, when an advance goes past the end.
\<close>
theorem uni_buf_refines_bytes:
  assumes "uni_ok u" and "\<forall>n. SplitIf n \<in> set ops \<longrightarrow> 0 < n"
  shows "case (run_uni ops u :: ('e, bytes list \<times> bytes) result) of
      Inr r \<Rightarrow> run_bytes ops (uni_chunk u) = Some r
    | Inl (Panic m) \<Rightarrow> run_bytes ops (uni_chunk u) = None
    | Inl (Fail e) \<Rightarrow> False"
  using assms
proof (induction ops arbitrary: u)
  case (Cons op ops)
  note IH = Cons.IH
  show ?case
  proof (cases op)
    case (Advance n)
    show ?thesis
    proof (cases "n \<le> length (uni_chunk u)")
      case True
      obtain u' where "uni_advance u n = ((Ok () :: ('e, unit) result), u')" "uni_chunk u' = drop n (uni_chunk u)" "uni_ok u'"
        using uni_advance_ok [OF Cons.prems(1) True] by blast
      then show ?thesis
        using IH [of u'] Cons.prems True Advance by (auto split: sum.splits fault.splits)
    next
      case False
      then show ?thesis
        using Cons.prems(1) Advance by (cases u) (auto simp: mm_defs)
    qed
  next
    case (SplitIf n)
    then have n: "0 < n" using Cons.prems(2) by simp
    show ?thesis
    proof (cases "n < length (uni_chunk u)")
      case True
      obtain s u' where "uni_split_if u n = ((Ok (Some s) :: ('e, _) result), u')"
        "uni_chunk s = take n (uni_chunk u)" "uni_chunk u' = drop n (uni_chunk u)" "uni_ok u'"
        using uni_split_ok [OF Cons.prems(1) n True] by blast
      then show ?thesis
        using IH [of u'] Cons.prems True SplitIf by (auto split: sum.splits fault.splits)
    next
      case False
      then show ?thesis
        using IH [of u] Cons.prems SplitIf
        by (auto simp: uni_split_if_def split: sum.splits fault.splits)
    qed
  qed
qed simp

theorem uni_buf_refines_bytes_witness:
  "case (run_uni [SplitIf 2, Advance 1, Advance 9] (UniMemMap (mm_new ''abcdef'')) :: (unit, _) result) of
     Inr r \<Rightarrow> False | Inl (Panic m) \<Rightarrow> True | Inl (Fail e) \<Rightarrow> False"
proof -
  have "uni_ok (UniMemMap (mm_new ''abcdef''))" by (simp add: mm_new_def)
  from uni_buf_refines_bytes [OF this, of "[SplitIf 2, Advance 1, Advance 9]", where 'e = unit]
  show ?thesis
    by (simp add: mm_new_def mm_chunk_def del: run_uni.simps split: sum.splits fault.splits)
qed

end
