(* ===== verification/Futio_Sink.thy ===== *)
theory Futio_Sink
  imports Futio_Blocking Futio_Buf
begin

text \<open>
  The asynchronous sinks of \<^verbatim>\<open>body-image-futio/src/sink.rs\<close>: \<^verbatim>\<open>AsyncBodySink\<close>, which
  writes a \<^verbatim>\<open>BodySink\<close> under the limits of the tunables and asks its arbiter before it blocks,
  and the two that wrap it, \<^verbatim>\<open>PermitBodySink\<close> and \<^verbatim>\<open>DispatchBodySink\<close>.

  A sink's state is explicit; the file script \<open>w\<close> and the schedule \<open>q\<close> of the permit's or the
  dispatched operation's future are the environment's. \<open>flushing_sink\<close> is the contract that all
  three meet: a poll leaves the sink as it was and is pending, or does what the plain sink does.
  From it follows what a body that is sent through a sink amounts to, whatever the schedule.
\<close>

section \<open>AsyncBodySink\<close>

record ('b, 'a, 'q) async_sink =
  as_body :: body_sink
  as_tune :: "'q futio_tunables"
  as_arbiter :: 'a
  as_buf :: "'b option"

definition async_sink_new ::
  "'a arbiter \<Rightarrow> body_sink \<Rightarrow> 'q futio_tunables \<Rightarrow> ('b, 'a, 'q) async_sink" where
  "async_sink_new A body tune =
     \<lparr>as_body = body, as_tune = tune, as_arbiter = ar_default A, as_buf = None\<rparr>"

definition async_into_inner :: "('b, 'a, 'q) async_sink \<Rightarrow> body_sink" where
  "async_into_inner s = as_body s"

text \<open>What \<^verbatim>\<open>poll_send\<close> does once blocking is allowed.\<close>

definition blocking_write ::
  "'b input_buf \<Rightarrow> temp_fn \<Rightarrow> tunables \<Rightarrow> body_sink \<Rightarrow> 'b \<Rightarrow> io_script
     \<Rightarrow> (futio_error, 'b option) result \<times> (body_sink \<times> io_script)" where
  "blocking_write I tmp tune body buf w =
     bindT
       (if sink_is_ram body
        then (case sink_write_back tmp (temp_dir tune) body w of (r, bw) \<Rightarrow> (map_err FBody r, bw))
        else (Ok (), (body, w)))
       (\<lambda>_ (body, w).
         case sink_write_all body (ib_as_ref I buf) w of
           (Inr u, bw) \<Rightarrow> (Ok None, bw)
         | (Inl (Fail e), bw) \<Rightarrow>
             if e = Interrupted then (Ok (Some buf), bw) else (Err (futio_of_io e), bw)
         | (Inl (Panic m), bw) \<Rightarrow> (panic m, bw))"

definition poll_send ::
  "'b input_buf \<Rightarrow> 'a arbiter \<Rightarrow> temp_fn \<Rightarrow> ('b, 'a, 'q) async_sink \<Rightarrow> 'b \<Rightarrow> io_script
     \<Rightarrow> (futio_error, 'b option) result \<times> (('b, 'a, 'q) async_sink \<times> io_script)" where
  "poll_send I A tmp s buf w =
     (if ib_remaining I buf = 0 then (Ok None, (s, w))
      else
        let new_len = bs_len (as_body s) + ib_remaining I buf;
            tune = image (as_tune s)
        in if max_body tune < new_len then (Err (FBody (BodyTooLong new_len)), (s, w))
           else if sink_is_ram (as_body s) \<and> new_len \<le> max_body_ram tune
           then (case sink_push (as_body s) (ib_into I buf) w of
               (r, (body, w')) \<Rightarrow>
                 (bindR (map_err futio_of_io r) (\<lambda>_. Ok None), (s\<lparr>as_body := body\<rparr>, w')))
           else (case ar_can_block A (as_arbiter s) of (allowed, a) \<Rightarrow>
             if \<not> allowed then (Ok (Some buf), (s\<lparr>as_arbiter := a\<rparr>, w))
             else (case blocking_write I tmp tune (as_body s) buf w of
                 (r, (body, w')) \<Rightarrow> (r, (s\<lparr>as_body := body, as_arbiter := a\<rparr>, w')))))"

definition poll_flush_impl ::
  "'b input_buf \<Rightarrow> 'a arbiter \<Rightarrow> temp_fn \<Rightarrow> ('b, 'a, 'q) async_sink \<Rightarrow> io_script
     \<Rightarrow> (futio_error, unit) result poll \<times> (('b, 'a, 'q) async_sink \<times> io_script)" where
  "poll_flush_impl I A tmp s w =
     (case as_buf s of
        Some buf \<Rightarrow>
          (case poll_send I A tmp (s\<lparr>as_buf := None\<rparr>) buf w of
             (Inr None, sw) \<Rightarrow> (Ready (Ok ()), sw)
           | (Inr (Some b), (s', w')) \<Rightarrow> (Pending, (s'\<lparr>as_buf := Some b\<rparr>, w'))
           | (Inl e, sw) \<Rightarrow> (Ready (Inl e), sw))
      | None \<Rightarrow> (Ready (Ok ()), (s, w)))"

definition async_send ::
  "('b, 'a, 'q) async_sink \<Rightarrow> 'b \<Rightarrow> (futio_error, unit) result \<times> ('b, 'a, 'q) async_sink" where
  "async_send s buf =
     (if as_buf s \<noteq> None then (panic ''assertion failed: self.buf.is_none()'', s)
      else (Ok (), s\<lparr>as_buf := Some buf\<rparr>))"

section \<open>PermitBodySink\<close>

text \<open>\<open>ps_permit\<close> says that a permit's future is there; its answers are the schedule's.\<close>

record ('b, 'q) permit_sink =
  ps_sink :: "('b, blocking, 'q) async_sink"
  ps_permit :: bool

definition permit_sink_new :: "body_sink \<Rightarrow> 'q futio_tunables \<Rightarrow> ('b, 'q) permit_sink" where
  "permit_sink_new body tune = \<lparr>ps_sink = async_sink_new stateful body tune, ps_permit = False\<rparr>"

definition permit_into_inner :: "('b, 'q) permit_sink \<Rightarrow> body_sink" where
  "permit_into_inner s = async_into_inner (ps_sink s)"

definition permit_start_send ::
  "('b, 'q) permit_sink \<Rightarrow> 'b \<Rightarrow> (futio_error, unit) result \<times> ('b, 'q) permit_sink" where
  "permit_start_send s buf = (case async_send (ps_sink s) buf of (r, s') \<Rightarrow> (r, s\<lparr>ps_sink := s'\<rparr>))"

text \<open>
  \<^verbatim>\<open>poll_flush\<close> with a permit's future. \<open>dbg\<close> is a build with \<^verbatim>\<open>debug_assert\<close>.
\<close>

definition permit_polled ::
  "'b input_buf \<Rightarrow> temp_fn \<Rightarrow> bool \<Rightarrow> ('b, 'q) permit_sink \<Rightarrow> io_script \<times> schedule
     \<Rightarrow> (futio_error, unit) result poll \<times> (('b, 'q) permit_sink \<times> (io_script \<times> schedule))" where
  "permit_polled I tmp dbg s wq =
     (case wq of (w, q) \<Rightarrow>
      (case next_poll q of
         (FutReady, q') \<Rightarrow>
           (case poll_flush_impl I stateful tmp ((ps_sink s)\<lparr>as_arbiter := Once\<rparr>) w of
              (res, (sink, w')) \<Rightarrow>
                (if dbg \<and> as_arbiter sink \<noteq> Void then Ready (panic ''assertion failed'') else res,
                 (\<lparr>ps_sink = sink, ps_permit = False\<rparr>, (w', q'))))
       | (FutCanceled, q') \<Rightarrow> (Ready (Err OpCanceled), (s, (w, q')))
       | (FutPending, q') \<Rightarrow> (Pending, (s, (w, q')))))"

definition permit_poll_flush ::
  "'b input_buf \<Rightarrow> temp_fn \<Rightarrow> bool \<Rightarrow> ('b, 'q) permit_sink \<Rightarrow> io_script \<times> schedule
     \<Rightarrow> (futio_error, unit) result poll \<times> (('b, 'q) permit_sink \<times> (io_script \<times> schedule))" where
  "permit_poll_flush I tmp dbg s wq =
     (if ps_permit s then permit_polled I tmp dbg s wq
      else (case wq of (w, q) \<Rightarrow>
        (case poll_flush_impl I stateful tmp (ps_sink s) w of
           (res, (sink, w')) \<Rightarrow>
             if res = Pending \<and> as_arbiter sink = BlockPending
             then (case blocking_semaphore (as_tune sink) of
                 None \<Rightarrow>
                   (Ready (panic ''blocking semaphore required!''),
                    (s\<lparr>ps_sink := sink\<rparr>, (w', q)))
               | Some sem \<Rightarrow>
                   permit_polled I tmp dbg (s\<lparr>ps_sink := sink, ps_permit := True\<rparr>) (w', q))
             else (res, (s\<lparr>ps_sink := sink\<rparr>, (w', q))))))"

section \<open>DispatchBodySink\<close>

text \<open>A dispatched operation holds the sink, whose arbiter allows blocking once.\<close>

datatype ('b, 'q) dispatch_sink =
    DispSink "('b, blocking, 'q) async_sink option"
  | DispDispatch "('b, blocking, 'q) async_sink"

definition dispatch_sink_new :: "body_sink \<Rightarrow> 'q futio_tunables \<Rightarrow> ('b, 'q) dispatch_sink" where
  "dispatch_sink_new body tune = DispSink (Some (async_sink_new stateful body tune))"

fun dispatch_into_inner :: "('b, 'q) dispatch_sink \<Rightarrow> ('e, body_sink) result" where
  "dispatch_into_inner (DispSink (Some s)) = Ok (async_into_inner s)"
| "dispatch_into_inner (DispSink None) = panic ''called `Option::unwrap()` on a `None` value''"
| "dispatch_into_inner (DispDispatch s) = panic ''Can't recover inner BodySink from dispatched!''"

fun dispatch_start_send ::
  "('b, 'q) dispatch_sink \<Rightarrow> 'b \<Rightarrow> (futio_error, unit) result \<times> ('b, 'q) dispatch_sink" where
  "dispatch_start_send (DispSink (Some s)) buf =
     (case async_send s buf of (r, s') \<Rightarrow> (r, DispSink (Some s')))"
| "dispatch_start_send (DispSink None) buf =
     (panic ''called `Option::unwrap()` on a `None` value'', DispSink None)"
| "dispatch_start_send (DispDispatch s) buf =
     (panic ''DispatchBodySink::start_send called while dispatched!'', DispDispatch s)"

definition dispatch_polled ::
  "'b input_buf \<Rightarrow> temp_fn \<Rightarrow> bool \<Rightarrow> ('b, blocking, 'q) async_sink \<Rightarrow> io_script \<times> schedule
     \<Rightarrow> (futio_error, unit) result poll \<times> (('b, 'q) dispatch_sink \<times> (io_script \<times> schedule))" where
  "dispatch_polled I tmp dbg ob wq =
     (case wq of (w, q) \<Rightarrow>
      (case next_poll q of
         (FutPending, q') \<Rightarrow> (Pending, (DispDispatch ob, (w, q')))
       | (FutCanceled, q') \<Rightarrow> (Ready (Err OpCanceled), (DispDispatch ob, (w, q')))
       | (FutReady, q') \<Rightarrow>
           (case poll_flush_impl I stateful tmp ob w of
              (res, (ob', w')) \<Rightarrow>
                if dbg \<and> as_arbiter ob' \<noteq> Void
                then (Ready (panic ''assertion failed''), (DispDispatch ob, (w', q')))
                else (res, (DispSink (Some ob'), (w', q'))))))"

text \<open>\<open>pool\<close> says that a \<^verbatim>\<open>DispatchPool\<close> is registered with the thread.\<close>

fun dispatch_poll_flush ::
  "'b input_buf \<Rightarrow> temp_fn \<Rightarrow> bool \<Rightarrow> bool \<Rightarrow> ('b, 'q) dispatch_sink \<Rightarrow> io_script \<times> schedule
     \<Rightarrow> (futio_error, unit) result poll \<times> (('b, 'q) dispatch_sink \<times> (io_script \<times> schedule))" where
  "dispatch_poll_flush I tmp dbg pool (DispSink None) wq =
     (Ready (panic ''called `Option::unwrap()` on a `None` value''), (DispSink None, wq))"
| "dispatch_poll_flush I tmp dbg pool (DispSink (Some ob)) (w, q) =
     (case poll_flush_impl I stateful tmp ob w of
        (res, (ob', w')) \<Rightarrow>
          if res = Pending \<and> as_arbiter ob' = BlockPending
          then if \<not> pool
               then (Ready (panic ''called `Result::unwrap()` on an `Err` value''),
                     (DispSink None, (w', q)))
               else dispatch_polled I tmp dbg (ob'\<lparr>as_arbiter := Once\<rparr>) (w', q)
          else (res, (DispSink (Some ob'), (w', q))))"
| "dispatch_poll_flush I tmp dbg pool (DispDispatch ob) wq = dispatch_polled I tmp dbg ob wq"

section \<open>What a poll does\<close>

text \<open>The sink without its arbiter, and whether its buffer can only be written by blocking.\<close>

definition sink_core :: "('b, 'a, 'q) async_sink \<Rightarrow> ('b, unit, 'q) async_sink" where
  "sink_core s = \<lparr>as_body = as_body s, as_tune = as_tune s, as_arbiter = (), as_buf = as_buf s\<rparr>"

definition with_arbiter :: "('b, unit, 'q) async_sink \<Rightarrow> 'a \<Rightarrow> ('b, 'a, 'q) async_sink" where
  "with_arbiter c a = \<lparr>as_body = as_body c, as_tune = as_tune c, as_arbiter = a, as_buf = as_buf c\<rparr>"

definition needs_blocking :: "'b input_buf \<Rightarrow> ('b, 'a, 'q) async_sink \<Rightarrow> bool" where
  "needs_blocking I s =
     (case as_buf s of
        None \<Rightarrow> False
      | Some b \<Rightarrow>
          let n = bs_len (as_body s) + ib_remaining I b; tune = image (as_tune s)
          in ib_remaining I b \<noteq> 0 \<and> n \<le> max_body tune \<and>
             \<not> (sink_is_ram (as_body s) \<and> n \<le> max_body_ram tune))"

lemma core_simps [simp]:
  "as_body (sink_core s) = as_body s" "as_tune (sink_core s) = as_tune s"
  "as_buf (sink_core s) = as_buf s" "sink_core (with_arbiter c a) = c"
  "with_arbiter (sink_core s) (as_arbiter s) = s" "as_arbiter (with_arbiter c a) = a"
  "sink_core (s\<lparr>as_arbiter := a\<rparr>) = sink_core s"
  "sink_core (s\<lparr>as_buf := b\<rparr>) = (sink_core s)\<lparr>as_buf := b\<rparr>"
  "as_tune (with_arbiter c a) = as_tune c"
  by (simp_all add: sink_core_def with_arbiter_def)

lemma needs_blocking_core [simp]:
  "needs_blocking I (s\<lparr>as_arbiter := a\<rparr>) = needs_blocking I s"
  "needs_blocking I (sink_core s) = needs_blocking I s"
  by (simp_all add: needs_blocking_def split: option.splits)

text \<open>
  A poll that must block and may not is pending and only tells the arbiter; any other does what
  the sink that may always block does.
\<close>

lemma poll_flush_eq:
  "poll_flush_impl I A tmp s w =
     (if needs_blocking I s \<and> \<not> fst (ar_can_block A (as_arbiter s))
      then (Pending, (s\<lparr>as_arbiter := snd (ar_can_block A (as_arbiter s))\<rparr>, w))
      else case poll_flush_impl I lenient tmp (sink_core s) w of
        (r, (c, w')) \<Rightarrow>
          (r, (with_arbiter c (if needs_blocking I s then snd (ar_can_block A (as_arbiter s))
             else as_arbiter s), w')))"
proof (cases s)
  case (fields body tune a bf)
  show ?thesis
  proof (cases bf)
    case None
    then show ?thesis
      using fields by (simp add: poll_flush_impl_def needs_blocking_def sink_core_def with_arbiter_def)
  next
    case (Some b)
    let ?n = "bs_len body + ib_remaining I b"
    obtain ok a' where can: "ar_can_block A a = (ok, a')" by (rule prod.exhaust)
    show ?thesis
    proof (cases "needs_blocking I s")
      case False
      then show ?thesis
        using fields Some
        by (auto simp: poll_flush_impl_def needs_blocking_def sink_core_def with_arbiter_def
            poll_send_def Let_def bindR.simps split: prod.splits sum.splits)
    next
      case True
      then have n: "ib_remaining I b \<noteq> 0" "\<not> max_body (image tune) < ?n"
        "\<not> (sink_is_ram body \<and> ?n \<le> max_body_ram (image tune))"
        using fields Some by (auto simp: needs_blocking_def Let_def)
      show ?thesis
        using fields Some True n can
        by (auto simp: poll_flush_impl_def poll_send_def Let_def sink_core_def with_arbiter_def
            split: prod.splits sum.splits option.splits)
    qed
  qed
qed

section \<open>The sink that may always block\<close>

locale direct_sink =
  inp: input_bufs I valid + dir: temp_files tmp for I :: "'b input_buf" and valid and tmp
begin

abbreviation direct ::
  "('b, unit, 'q) async_sink \<Rightarrow> io_script
     \<Rightarrow> (futio_error, unit) result poll \<times> (('b, unit, 'q) async_sink \<times> io_script)"
  where "direct \<equiv> poll_flush_impl I lenient tmp"

text \<open>A well-formed body within \<^verbatim>\<open>max_body\<close>, in RAM exactly up to \<^verbatim>\<open>max_body_ram\<close>.\<close>

definition sink_inv :: "('b, 'a, 'q) async_sink \<Rightarrow> bool" where
  "sink_inv s \<longleftrightarrow> sink_ok (as_body s) \<and> (\<forall>b. as_buf s = Some b \<longrightarrow> valid b)"

definition pending_bytes :: "('b, 'a, 'q) async_sink \<Rightarrow> bytes" where
  "pending_bytes s = (case as_buf s of None \<Rightarrow> [] | Some b \<Rightarrow> ib_as_ref I b)"

lemma sink_inv_core [simp]: "sink_inv (sink_core s) = sink_inv s"
  "pending_bytes (sink_core s) = pending_bytes s"
  by (simp_all add: sink_inv_def pending_bytes_def)

lemma blocking_write_cases:
  assumes "sink_ok body"
  obtains r body' w' where "blocking_write I tmp tune body b w = (r, (body', w'))"
    "case r of
       Inr x \<Rightarrow> x = None \<and> sink_ok body' \<and> \<not> sink_is_ram body' \<and>
         sink_bytes body' = sink_bytes body @ ib_as_ref I b
     | Inl x \<Rightarrow> (\<exists>e. x = Fail (FBody (BodyIo e))) \<and>
         (\<exists>n. sink_bytes body' = take n (sink_bytes body @ ib_as_ref I b))"
proof -
  obtain r1 body1 w1 where r1: "(if sink_is_ram body then sink_write_back tmp (temp_dir tune) body w
      else (Ok (), (body, w))) = (r1, (body1, w1))"
    by (metis prod.exhaust)
  have one: "case r1 of
      Inr u \<Rightarrow> sink_ok body1 \<and> sink_bytes body1 = sink_bytes body \<and> \<not> sink_is_ram body1
    | Inl x \<Rightarrow> (\<exists>e. x = Fail (BodyIo e)) \<and> sink_bytes body1 = []"
    using dir.write_back_cases [OF assms, of "temp_dir tune" w] assms r1
    by (auto split: if_splits sum.splits)
  show ?thesis
  proof (cases r1)
    case (Inl x)
    then obtain e where "x = Fail (BodyIo e)" "sink_bytes body1 = take 0 (sink_bytes body @ ib_as_ref I b)"
      using one by auto
    then show ?thesis
      using that [of "Err (FBody (BodyIo e))" body1 w1] r1 Inl
      by (auto simp: blocking_write_def split: if_splits)
  next
    case (Inr u)
    then have body1: "sink_ok body1" "sink_bytes body1 = sink_bytes body" "\<not> sink_is_ram body1"
      using one by simp_all
    obtain r2 body2 w2 where wa: "sink_write_all body1 (ib_as_ref I b) w1 = (r2, (body2, w2))"
      by (metis prod.exhaust)
    have start: "blocking_write I tmp tune body b w = (case (r2, (body2, w2)) of
        (Inr u, bw) \<Rightarrow> (Ok None, bw)
      | (Inl (Fail e), bw) \<Rightarrow>
          if e = Interrupted then (Ok (Some b), bw) else (Err (futio_of_io e), bw)
      | (Inl (Panic m), bw) \<Rightarrow> (panic m, bw))"
      using r1 Inr wa by (auto simp: blocking_write_def split: if_splits)
    show ?thesis
    proof (cases r2)
      case (Inl x)
      obtain e n where e: "x = Fail e" "e \<noteq> Interrupted"
        and n: "sink_bytes body2 = sink_bytes body1 @ take n (ib_as_ref I b)"
        using writing.push_fail [OF wa [unfolded Inl] body1(1)] by auto
      have "sink_bytes body2 = take (length (sink_bytes body) + n) (sink_bytes body @ ib_as_ref I b)"
        using n body1(2) by simp
      then show ?thesis
        using that [of "Err (futio_of_io e)" body2 w2] start Inl e
        unfolding futio_of_io_def by (auto simp del: take_append)
    next
      case (Inr u)
      have "sink_ok body2" "sink_bytes body2 = sink_bytes body1 @ ib_as_ref I b"
        using writing.push_ok [OF wa [unfolded Inr] body1(1)] by auto
      moreover have "\<not> sink_is_ram body2"
        using sink_push_cases [OF body1(1), of "ib_as_ref I b" w1] wa Inr body1(3)
        by (simp add: sink_write_all_eq_push)
      ultimately show ?thesis
        using that [of "Ok None" body2 w2] start Inr body1(2) by simp
    qed
  qed
qed

text \<open>
  A poll is never pending. It empties the buffer; a success has written it, a failure is that
  the body would be too long, or an I/O error.
\<close>

lemma direct_cases:
  assumes "sink_inv s"
  obtains x s' w' where "direct s w = (Ready x, (s', w'))" "as_buf s' = None" "as_tune s' = as_tune s"
    "case x of
       Inr u \<Rightarrow> sink_inv s' \<and> sink_bytes (as_body s') = sink_bytes (as_body s) @ pending_bytes s \<and>
         (bs_len (as_body s') \<le> max_body (image (as_tune s)) \<or> as_body s' = as_body s) \<and>
         (sink_is_ram (as_body s') \<longleftrightarrow> sink_is_ram (as_body s) \<and>
           (pending_bytes s = [] \<or> bs_len (as_body s') \<le> max_body_ram (image (as_tune s))))
     | Inl (Panic m) \<Rightarrow> False
     | Inl (Fail e) \<Rightarrow>
         e = FBody (BodyTooLong (bs_len (as_body s) + length (pending_bytes s))) \<and>
           max_body (image (as_tune s)) < bs_len (as_body s) + length (pending_bytes s) \<and>
           as_body s' = as_body s \<or>
         (\<exists>io. e = FBody (BodyIo io)) \<and>
           (\<exists>n. sink_bytes (as_body s') = take n (sink_bytes (as_body s) @ pending_bytes s))"
proof (cases "as_buf s")
  case None
  then show ?thesis
    using that [of "Ok ()" s w] assms
    by (simp add: poll_flush_impl_def pending_bytes_def)
next
  case (Some b)
  let ?s = "s\<lparr>as_buf := None\<rparr>"
  let ?body = "as_body s"
  let ?n = "bs_len ?body + length (ib_as_ref I b)"
  let ?tune = "image (as_tune s)"
  have ok: "sink_ok ?body" and "valid b"
    using assms Some by (simp_all add: sink_inv_def)
  then have b: "ib_remaining I b = length (ib_as_ref I b)" "ib_into I b = ib_as_ref I b"
    "bs_len ?body = length (sink_bytes ?body)"
    using inp.remaining inp.into by (simp_all add: sink_ok_def)
  have pend: "pending_bytes s = ib_as_ref I b" using Some by (simp add: pending_bytes_def)
  note unfold = poll_flush_impl_def poll_send_def b(1,2) Some pend
  consider (empty) "ib_as_ref I b = []"
    | (long) "ib_as_ref I b \<noteq> []" "max_body ?tune < ?n"
    | (ram) "ib_as_ref I b \<noteq> []" "?n \<le> max_body ?tune" "sink_is_ram ?body" "?n \<le> max_body_ram ?tune"
    | (fs) "ib_as_ref I b \<noteq> []" "?n \<le> max_body ?tune"
        "\<not> (sink_is_ram ?body \<and> ?n \<le> max_body_ram ?tune)"
    by linarith
  then show ?thesis
  proof cases
    case empty
    then show ?thesis
      using that [of "Ok ()" ?s w] assms by (simp add: unfold sink_inv_def)
  next
    case long
    then show ?thesis
      using that [of "Err (FBody (BodyTooLong ?n))" ?s w] by (simp add: unfold)
  next
    case ram
    obtain body where "sink_push ?body (ib_as_ref I b) w = (Ok (), (body, w))" "sink_ok body"
      "sink_bytes body = sink_bytes ?body @ ib_as_ref I b" "sink_is_ram body"
      using sink_push_cases [OF ok, of "ib_as_ref I b" w] ram(3)
      by (auto split: prod.splits sum.splits)
    then show ?thesis
      using that [of "Ok ()" "?s\<lparr>as_body := body\<rparr>" w] ram b
      by (simp add: unfold sink_inv_def sink_ok_def)
  next
    case fs
    obtain r body w' where r: "blocking_write I tmp ?tune ?body b w = (r, (body, w'))"
      "case r of
         Inr x \<Rightarrow> x = None \<and> sink_ok body \<and> \<not> sink_is_ram body \<and>
           sink_bytes body = sink_bytes ?body @ ib_as_ref I b
       | Inl x \<Rightarrow> (\<exists>e. x = Fail (FBody (BodyIo e))) \<and>
           (\<exists>n. sink_bytes body = take n (sink_bytes ?body @ ib_as_ref I b))"
      by (rule blocking_write_cases [OF ok])
    then have start: "direct s w = (case r of
        Inr x \<Rightarrow> (Ready (Ok ()), (?s\<lparr>as_body := body\<rparr>, w'))
      | Inl e \<Rightarrow> (Ready (Inl e), (?s\<lparr>as_body := body\<rparr>, w')))"
      using fs by (auto simp: unfold Let_def split: sum.splits)
    show ?thesis
    proof (cases r)
      case (Inl x)
      then obtain e where e: "x = Fail (FBody (BodyIo e))" using r(2) by auto
      have "\<exists>n. sink_bytes body = take n (sink_bytes ?body @ ib_as_ref I b)"
        using r(2) Inl by simp
      then show ?thesis
        using that [of "Inl x" "?s\<lparr>as_body := body\<rparr>" w'] start Inl e pend by simp
    next
      case (Inr x)
      then show ?thesis
        using that [of "Ok ()" "?s\<lparr>as_body := body\<rparr>" w'] start r(2) pend fs b(3)
        by (simp add: sink_inv_def sink_ok_def)
    qed
  qed
qed

lemma direct_ready:
  assumes "sink_inv s" and "direct s w = (r, (s', w'))"
  obtains x where "r = Ready x" "x \<noteq> Err OpCanceled" "as_buf s' = None" "as_tune s' = as_tune s"
proof (rule direct_cases [OF assms(1), of w])
  fix x s1 w1
  assume d: "direct s w = (Ready x, (s1, w1))" "as_buf s1 = None" "as_tune s1 = as_tune s"
    and x: "case x of
       Inr u \<Rightarrow> sink_inv s1 \<and> sink_bytes (as_body s1) = sink_bytes (as_body s) @ pending_bytes s \<and>
         (bs_len (as_body s1) \<le> max_body (image (as_tune s)) \<or> as_body s1 = as_body s) \<and>
         (sink_is_ram (as_body s1) \<longleftrightarrow> sink_is_ram (as_body s) \<and>
           (pending_bytes s = [] \<or> bs_len (as_body s1) \<le> max_body_ram (image (as_tune s))))
     | Inl (Panic m) \<Rightarrow> False
     | Inl (Fail e) \<Rightarrow>
         e = FBody (BodyTooLong (bs_len (as_body s) + length (pending_bytes s))) \<and>
           max_body (image (as_tune s)) < bs_len (as_body s) + length (pending_bytes s) \<and>
           as_body s1 = as_body s \<or>
         (\<exists>io. e = FBody (BodyIo io)) \<and>
           (\<exists>n. sink_bytes (as_body s1) = take n (sink_bytes (as_body s) @ pending_bytes s))"
  have "x \<noteq> Err OpCanceled" using x by auto
  then show ?thesis using that d assms(2) by simp
qed

lemma direct_flushed:
  assumes "sink_inv s" and "direct s w = (Ready (Ok u), (s', w'))"
  shows "sink_inv s' \<and> as_buf s' = None \<and> as_tune s' = as_tune s \<and>
    sink_bytes (as_body s') = sink_bytes (as_body s) @ pending_bytes s \<and>
    (bs_len (as_body s') \<le> max_body (image (as_tune s)) \<or> as_body s' = as_body s) \<and>
    (sink_is_ram (as_body s') \<longleftrightarrow> sink_is_ram (as_body s) \<and>
      (pending_bytes s = [] \<or> bs_len (as_body s') \<le> max_body_ram (image (as_tune s))))"
  by (rule direct_cases [OF assms(1), of w]) (use assms(2) in simp)

lemma direct_failed:
  assumes "sink_inv s" and "direct s w = (Ready (Inl f), (s', w'))"
  shows "f = Fail (FBody (BodyTooLong (length (sink_bytes (as_body s) @ pending_bytes s)))) \<and>
      max_body (image (as_tune s)) < length (sink_bytes (as_body s) @ pending_bytes s) \<and>
      as_body s' = as_body s \<or>
    (\<exists>io. f = Fail (FBody (BodyIo io))) \<and>
      (\<exists>n. sink_bytes (as_body s') = take n (sink_bytes (as_body s) @ pending_bytes s))"
proof -
  have len: "bs_len (as_body s) = length (sink_bytes (as_body s))"
    using assms(1) by (simp add: sink_inv_def sink_ok_def)
  show ?thesis
    by (rule direct_cases [OF assms(1), of w])
      (use assms(2) in \<open>auto simp: len simp del: take_append split: fault.splits\<close>)
qed

end

end
