(* ===== verification/Futio_Send.thy ===== *)
theory Futio_Send
  imports Futio_Sink
begin

text \<open>
  Sending a body through the sinks of \<^verbatim>\<open>Futio_Sink\<close>: the contract \<open>flushing_sink\<close> that the three
  of them meet, a client that sends buffers, and what the body then holds. Whatever the schedule of
  permits or dispatched operations, a client sees the plain sink.
\<close>

section \<open>The contract of the three sinks\<close>

text \<open>
  \<open>script w\<close> is the file system's part of the environment. A poll that is pending, or that was
  canceled, has left the plain sink inside as it was; any other has done what the plain sink does.
\<close>

locale flushing_sink =
  direct_sink I valid tmp for I :: "'b input_buf" and valid and tmp +
  fixes poll :: "'k \<Rightarrow> 'w \<Rightarrow> (futio_error, unit) result poll \<times> ('k \<times> 'w)"
    and send :: "'k \<Rightarrow> 'b \<Rightarrow> (futio_error, unit) result \<times> 'k"
    and core :: "'k \<Rightarrow> ('b, unit, 'q) async_sink"
    and script :: "'w \<Rightarrow> io_script"
    and good :: "'k \<Rightarrow> bool"
  assumes poll_pending: "good k \<Longrightarrow> sink_inv (core k) \<Longrightarrow> poll k w = (Pending, (k', w')) \<Longrightarrow>
      good k' \<and> core k' = core k \<and> script w' = script w"
    and poll_ready: "good k \<Longrightarrow> sink_inv (core k) \<Longrightarrow> poll k w = (Ready x, (k', w')) \<Longrightarrow>
      x = Err OpCanceled \<and> core k' = core k \<and> script w' = script w \<or>
      good k' \<and> direct (core k) (script w) = (Ready x, (core k', script w'))"
    and send_ok: "good k \<Longrightarrow> as_buf (core k) = None \<Longrightarrow>
      \<exists>k'. send k b = (Ok (), k') \<and> good k' \<and> core k' = (core k)\<lparr>as_buf := Some b\<rparr>"

text \<open>
  A client that sends buffers: it polls until the sink is ready, sends the next one, and polls
  until the last is flushed, at most \<open>n\<close> polls in all.
\<close>

fun drive ::
  "('k \<Rightarrow> 'w \<Rightarrow> (futio_error, unit) result poll \<times> ('k \<times> 'w))
     \<Rightarrow> ('k \<Rightarrow> 'b \<Rightarrow> (futio_error, unit) result \<times> 'k) \<Rightarrow> nat \<Rightarrow> 'b list \<Rightarrow> 'k \<Rightarrow> 'w
     \<Rightarrow> (futio_error, unit) result poll \<times> ('k \<times> 'w)" where
  "drive poll send 0 bufs k w = (Pending, (k, w))"
| "drive poll send (Suc n) bufs k w =
     (case poll k w of
        (Pending, (k', w')) \<Rightarrow> drive poll send n bufs k' w'
      | (Ready (Inl e), kw) \<Rightarrow> (Ready (Inl e), kw)
      | (Ready (Inr u), (k', w')) \<Rightarrow>
          (case bufs of
             [] \<Rightarrow> (Ready (Ok ()), (k', w'))
           | b # bs \<Rightarrow>
               (case send k' b of
                  (Inl e, k'') \<Rightarrow> (Ready (Inl e), (k'', w'))
                | (Inr u, k'') \<Rightarrow> drive poll send n bs k'' w')))"

context flushing_sink
begin

lemma poll_cases [consumes 2, case_names pending canceled flushed failed]:
  assumes "good k" and "sink_inv (core k)"
  obtains (pending) k' w' where "poll k w = (Pending, (k', w'))" "good k'" "core k' = core k"
      "script w' = script w"
  | (canceled) k' w' where "poll k w = (Ready (Err OpCanceled), (k', w'))" "core k' = core k"
      "script w' = script w"
  | (flushed) k' w' where "poll k w = (Ready (Ok ()), (k', w'))" "good k'"
      "direct (core k) (script w) = (Ready (Ok ()), (core k', script w'))"
      "as_buf (core k') = None" "sink_inv (core k')"
  | (failed) e k' w' where "poll k w = (Ready (Inl e), (k', w'))" "good k'"
      "direct (core k) (script w) = (Ready (Inl e), (core k', script w'))" "as_buf (core k') = None"
      "e \<noteq> Fail OpCanceled"
proof (cases "poll k w")
  case (fields r k' w')
  show ?thesis
  proof (cases r)
    case Pending
    then show ?thesis using pending poll_pending [OF assms] fields by blast
  next
    case (Ready x)
    then have p: "poll k w = (Ready x, (k', w'))" using fields by simp
    show ?thesis
    proof (cases x)
      case (Inl e)
      show ?thesis
      proof (cases "good k' \<and> direct (core k) (script w) = (Ready x, (core k', script w'))")
        case True
        then have "x \<noteq> Err OpCanceled" "as_buf (core k') = None"
          by (auto elim: direct_ready [OF assms(2)])
        then show ?thesis using True failed [of e k' w'] p Inl by auto
      next
        case False
        then show ?thesis using poll_ready [OF assms p] p canceled by blast
      qed
    next
      case (Inr u)
      then have d: "direct (core k) (script w) = (Ready (Ok ()), (core k', script w'))" and "good k'"
        using poll_ready [OF assms p] by auto
      moreover have "as_buf (core k') = None" "sink_inv (core k')"
        using direct_flushed [OF assms(2) d] by simp_all
      ultimately show ?thesis using flushed [of k' w'] p Inr by simp
    qed
  qed
qed

text \<open>Sending through the sink is sending through the plain one.\<close>

lemma drive_refines:
  assumes "good k" and "sink_inv (core k)" and "\<And>b. b \<in> set bufs \<Longrightarrow> valid b"
    and "drive poll send n bufs k w = (Ready x, (k', w'))" and "x \<noteq> Err OpCanceled"
  shows "drive direct async_send (Suc (length bufs)) bufs (core k) (script w) =
    (Ready x, (core k', script w')) \<and> good k' \<and> as_buf (core k') = None"
  using assms
proof (induction n arbitrary: bufs k w)
  case (Suc n)
  from Suc.prems(1,2) show ?case
  proof (cases rule: poll_cases [where w = w])
    case (pending k1 w1)
    then show ?thesis using Suc.IH [of k1 bufs w1] Suc.prems by simp
  next
    case (canceled k1 w1)
    then show ?thesis using Suc.prems by simp
  next
    case (failed e k1 w1)
    then show ?thesis using Suc.prems by auto
  next
    case (flushed k1 w1)
    show ?thesis
    proof (cases bufs)
      case Nil
      then show ?thesis using flushed Suc.prems by auto
    next
      case (Cons b bs)
      obtain k2 where k2: "send k1 b = (Ok (), k2)" "good k2" "core k2 = (core k1)\<lparr>as_buf := Some b\<rparr>"
        using send_ok [OF flushed(2,4)] by blast
      have "sink_inv (core k2)" using flushed(5) Suc.prems(3) Cons k2(3) by (simp add: sink_inv_def)
      then have "drive direct async_send (Suc (length bs)) bs (core k2) (script w1) =
          (Ready x, (core k', script w')) \<and> good k' \<and> as_buf (core k') = None"
        using Suc.IH [of k2 bs w1] Suc.prems k2 flushed(1) Cons by simp
      moreover have "async_send (core k1) b = (Ok (), (core k1)\<lparr>as_buf := Some b\<rparr>)"
        using flushed(4) by (simp add: async_send_def)
      ultimately show ?thesis
        using flushed(3) k2(3) Cons by simp
    qed
  qed
qed simp

end

text \<open>
  A sink whose polls each use up at most one answer of the schedule, and are pending only for it.
\<close>

locale progressing_sink = flushing_sink +
  fixes sched :: "'w \<Rightarrow> schedule"
  assumes poll_sched: "good k \<Longrightarrow> sink_inv (core k) \<Longrightarrow> poll k w = (r, (k', w')) \<Longrightarrow>
    (case r of
       Pending \<Rightarrow> sched w = [] \<or> sched w = FutPending # sched w'
     | Ready x \<Rightarrow>
         if x = Err OpCanceled then sched w = FutCanceled # sched w'
         else sched w' = sched w \<or> sched w = FutReady # sched w')"
begin

lemma drive_completes:
  assumes "good k" and "sink_inv (core k)" and "\<And>b. b \<in> set bufs \<Longrightarrow> valid b"
    and "FutCanceled \<notin> set (sched w)" and "length bufs < length (filter ((=) FutReady) (sched w))"
  shows "\<exists>n x k' w'. drive poll send n bufs k w = (Ready x, (k', w')) \<and> x \<noteq> Err OpCanceled"
  using assms
proof (induction "length bufs + length (sched w)" arbitrary: bufs k w rule: less_induct)
  case less
  from less.prems(1,2) show ?case
  proof (cases rule: poll_cases [where w = w])
    case (pending k1 w1)
    then have q: "sched w = FutPending # sched w1"
      using poll_sched [OF less.prems(1,2) pending(1)] less.prems(5) by auto
    then obtain n x k' w' where "drive poll send n bufs k1 w1 = (Ready x, (k', w'))"
      "x \<noteq> Err OpCanceled"
      using less.hyps [of bufs w1 k1] less.prems pending by auto
    then show ?thesis using pending(1) by (intro exI [of _ "Suc n"]) simp
  next
    case (canceled k1 w1)
    then show ?thesis
      using poll_sched [OF less.prems(1,2) canceled(1)] less.prems(4) by simp
  next
    case (failed e k1 w1)
    then show ?thesis by (intro exI [of _ 1]) simp
  next
    case (flushed k1 w1)
    show ?thesis
    proof (cases bufs)
      case Nil
      then show ?thesis using flushed(1) by (intro exI [of _ 1]) simp
    next
      case (Cons b bs)
      obtain k2 where k2: "send k1 b = (Ok (), k2)" "good k2" "core k2 = (core k1)\<lparr>as_buf := Some b\<rparr>"
        using send_ok [OF flushed(2,4)] by blast
      have inv: "sink_inv (core k2)"
        using flushed(5) less.prems(3) Cons k2(3) by (simp add: sink_inv_def)
      have q: "sched w1 = sched w \<or> sched w = FutReady # sched w1"
        using poll_sched [OF less.prems(1,2) flushed(1)] less.prems(4) by auto
      then have "length bs < length (filter ((=) FutReady) (sched w1))"
        and "FutCanceled \<notin> set (sched w1)" and "length (sched w1) \<le> length (sched w)"
        using less.prems(4,5) Cons by auto
      then obtain n x k' w' where "drive poll send n bs k2 w1 = (Ready x, (k', w'))"
        "x \<noteq> Err OpCanceled"
        using less.hyps [of bs w1 k2] less.prems(3) k2(2) inv Cons by auto
      then show ?thesis using flushed(1) k2(1) Cons by (intro exI [of _ "Suc n"]) simp
    qed
  qed
qed

end

section \<open>The sinks meet it\<close>

definition permit_good :: "'b input_buf \<Rightarrow> ('b, 'q) permit_sink \<Rightarrow> bool" where
  "permit_good I s \<longleftrightarrow> blocking_semaphore (as_tune (ps_sink s)) \<noteq> None \<and>
     (if ps_permit s then as_arbiter (ps_sink s) = BlockPending \<and> needs_blocking I (ps_sink s)
      else as_arbiter (ps_sink s) = Void)"

definition dispatch_core :: "('b, 'q) dispatch_sink \<Rightarrow> ('b, unit, 'q) async_sink" where
  "dispatch_core s =
     (case s of DispSink (Some ob) \<Rightarrow> sink_core ob | DispDispatch ob \<Rightarrow> sink_core ob
      | DispSink None \<Rightarrow> undefined)"

definition dispatch_good :: "'b input_buf \<Rightarrow> ('b, 'q) dispatch_sink \<Rightarrow> bool" where
  "dispatch_good I s =
     (case s of
        DispSink None \<Rightarrow> False
      | DispSink (Some ob) \<Rightarrow> as_arbiter ob = Void
      | DispDispatch ob \<Rightarrow> as_arbiter ob = Once \<and> needs_blocking I ob)"

lemma dispatch_simps [simp]:
  "dispatch_core (DispSink (Some ob)) = sink_core ob" "dispatch_core (DispDispatch ob) = sink_core ob"
  "dispatch_good I (DispSink None) = False"
  "dispatch_good I (DispSink (Some ob)) = (as_arbiter ob = Void)"
  "dispatch_good I (DispDispatch ob) = (as_arbiter ob = Once \<and> needs_blocking I ob)"
  by (simp_all add: dispatch_core_def dispatch_good_def)

context direct_sink
begin

lemma plain_progressing: "progressing_sink I valid tmp direct async_send (\<lambda>s. s) (\<lambda>w. w) (\<lambda>s. True) (\<lambda>w. [])"
proof
  fix k :: "('b, unit, 'q) async_sink" and w r k' w'
  assume "sink_inv k" and "direct k w = (r, (k', w'))"
  then show "case r of Pending \<Rightarrow> [] = [] \<or> [] = FutPending # []
     | Ready x \<Rightarrow> if x = Err OpCanceled then [] = FutCanceled # [] else [] = [] \<or> [] = FutReady # []"
    by (rule direct_ready) simp
next
  fix k :: "('b, unit, 'q) async_sink" and w k' w'
  assume "sink_inv k" and "direct k w = (Pending, (k', w'))"
  then show "True \<and> k' = k \<and> w' = w"
    by (rule direct_ready) simp
qed (auto simp: async_send_def)

text \<open>A poll of a stateful sink that may block once, and one that may not block yet.\<close>

lemma once_poll:
  assumes "sink_inv s" and "needs_blocking I s" and "as_arbiter s = Once"
  obtains x c w' where "poll_flush_impl I stateful tmp s w = (Ready x, (with_arbiter c Void, w'))"
    "direct (sink_core s) w = (Ready x, (c, w'))" "as_tune c = as_tune s"
proof -
  obtain x c w' where d: "direct (sink_core s) w = (Ready x, (c, w'))" "as_tune c = as_tune s"
    using direct_cases [of "sink_core s" w] assms(1) by (metis core_simps(2) sink_inv_core(1))
  have "poll_flush_impl I stateful tmp s w = (Ready x, (with_arbiter c Void, w'))"
    using poll_flush_eq [of I stateful tmp s w] assms(2,3) d(1) by simp
  then show ?thesis using that d by blast
qed

lemma void_poll:
  assumes "sink_inv s" and "as_arbiter s = Void"
  obtains (blocks) "poll_flush_impl I stateful tmp s w = (Pending, (s\<lparr>as_arbiter := BlockPending\<rparr>, w))"
      "needs_blocking I s"
  | (polled) x c w' where "poll_flush_impl I stateful tmp s w = (Ready x, (with_arbiter c Void, w'))"
    "direct (sink_core s) w = (Ready x, (c, w'))" "as_tune c = as_tune s"
proof (cases "needs_blocking I s")
  case True
  then show ?thesis
    using blocks poll_flush_eq [of I stateful tmp s w] assms(2) by simp
next
  case False
  obtain x c w' where d: "direct (sink_core s) w = (Ready x, (c, w'))" "as_tune c = as_tune s"
    using direct_cases [of "sink_core s" w] assms(1) by (metis core_simps(2) sink_inv_core(1))
  then have "poll_flush_impl I stateful tmp s w = (Ready x, (with_arbiter c Void, w'))"
    using poll_flush_eq [of I stateful tmp s w] False assms(2) by simp
  then show ?thesis using polled d by blast
qed

lemma permit_polled_sched:
  assumes "permit_polled I tmp dbg s (w, q) = (r, (s', (w', q')))"
    and "sink_inv (ps_sink s)" and "needs_blocking I (ps_sink s)"
    and "as_arbiter (ps_sink s) = BlockPending" and "blocking_semaphore (as_tune (ps_sink s)) \<noteq> None"
    and "ps_permit s"
  shows "case r of
      Pending \<Rightarrow> s' = s \<and> w' = w \<and> (q = [] \<or> q = FutPending # q')
    | Ready x \<Rightarrow>
        x = Err OpCanceled \<and> s' = s \<and> w' = w \<and> q = FutCanceled # q' \<or>
        permit_good I s' \<and> q = FutReady # q' \<and>
          direct (sink_core (ps_sink s)) w = (Ready x, (sink_core (ps_sink s'), w'))"
proof -
  let ?ob = "(ps_sink s)\<lparr>as_arbiter := Once\<rparr>"
  obtain x c w1 where one: "poll_flush_impl I stateful tmp ?ob w = (Ready x, (with_arbiter c Void, w1))"
    "direct (sink_core ?ob) w = (Ready x, (c, w1))" "as_tune c = as_tune ?ob"
  proof (rule once_poll)
    show "sink_inv ?ob" using assms(2) by (simp add: sink_inv_def)
  qed (use assms(3) in simp_all)
  show ?thesis
  proof (cases q)
    case Nil
    then show ?thesis using assms(1) by (auto simp: permit_polled_def next_poll_def)
  next
    case (Cons a as)
    then show ?thesis
      using assms(1,5,6) one
      by (cases a) (auto simp: permit_polled_def next_poll_def permit_good_def)
  qed
qed

lemma permit_poll_sched:
  assumes "permit_good I s" and "sink_inv (ps_sink s)"
    and "permit_poll_flush I tmp dbg s (w, q) = (r, (s', (w', q')))"
  shows "case r of
      Pending \<Rightarrow> permit_good I s' \<and> sink_core (ps_sink s') = sink_core (ps_sink s) \<and> w' = w \<and>
        (q = [] \<or> q = FutPending # q')
    | Ready x \<Rightarrow>
        x = Err OpCanceled \<and> sink_core (ps_sink s') = sink_core (ps_sink s) \<and> w' = w \<and>
          q = FutCanceled # q' \<or>
        permit_good I s' \<and> (q' = q \<or> q = FutReady # q') \<and>
          direct (sink_core (ps_sink s)) w = (Ready x, (sink_core (ps_sink s'), w'))"
proof (cases "ps_permit s")
  case True
  then have p: "permit_polled I tmp dbg s (w, q) = (r, (s', (w', q')))"
    using assms(3) by (simp add: permit_poll_flush_def)
  show ?thesis
    using permit_polled_sched [OF p assms(2)] assms(1) True
    by (auto simp: permit_good_def split: poll.splits)
next
  case False
  then have g: "as_arbiter (ps_sink s) = Void" "blocking_semaphore (as_tune (ps_sink s)) \<noteq> None"
    using assms(1) by (simp_all add: permit_good_def)
  from assms(2) g(1) show ?thesis
  proof (cases rule: void_poll [where w = w])
    case blocks
    let ?s = "s\<lparr>ps_sink := (ps_sink s)\<lparr>as_arbiter := BlockPending\<rparr>, ps_permit := True\<rparr>"
    have p: "permit_polled I tmp dbg ?s (w, q) = (r, (s', (w', q')))"
      using assms(3) False blocks(1) g(2) by (auto simp: permit_poll_flush_def)
    have "sink_inv (ps_sink ?s)" using assms(2) by (simp add: sink_inv_def)
    from permit_polled_sched [OF p this] blocks(2) g(2) show ?thesis
      by (auto simp: permit_good_def split: poll.splits)
  next
    case (polled x c w1)
    then show ?thesis
      using assms(3) False g by (auto simp: permit_poll_flush_def permit_good_def)
  qed
qed

lemma permit_progressing:
  "progressing_sink I valid tmp (permit_poll_flush I tmp dbg) permit_start_send
     (\<lambda>s. sink_core (ps_sink s)) fst (permit_good I) snd"
proof
  fix k :: "('b, 'q) permit_sink" and wq :: "io_script \<times> schedule" and k' wq'
  assume h: "permit_good I k" "sink_inv (sink_core (ps_sink k))"
    "permit_poll_flush I tmp dbg k wq = (Pending, (k', wq'))"
  then show "permit_good I k' \<and> sink_core (ps_sink k') = sink_core (ps_sink k) \<and> fst wq' = fst wq"
    using permit_poll_sched [of k dbg "fst wq" "snd wq" Pending k' "fst wq'" "snd wq'"] by simp
next
  fix k :: "('b, 'q) permit_sink" and wq :: "io_script \<times> schedule" and x k' wq'
  assume h: "permit_good I k" "sink_inv (sink_core (ps_sink k))"
    "permit_poll_flush I tmp dbg k wq = (Ready x, (k', wq'))"
  then show "x = Err OpCanceled \<and> sink_core (ps_sink k') = sink_core (ps_sink k) \<and> fst wq' = fst wq \<or>
      permit_good I k' \<and> direct (sink_core (ps_sink k)) (fst wq) =
        (Ready x, (sink_core (ps_sink k'), fst wq'))"
    using permit_poll_sched [of k dbg "fst wq" "snd wq" "Ready x" k' "fst wq'" "snd wq'"] by auto
next
  fix k :: "('b, 'q) permit_sink" and b
  assume "permit_good I k" and "as_buf (sink_core (ps_sink k)) = None"
  then show "\<exists>k'. permit_start_send k b = (Ok (), k') \<and> permit_good I k' \<and>
      sink_core (ps_sink k') = (sink_core (ps_sink k))\<lparr>as_buf := Some b\<rparr>"
    by (auto simp: permit_start_send_def async_send_def permit_good_def needs_blocking_def
        split: if_splits)
next
  fix k :: "('b, 'q) permit_sink" and wq :: "io_script \<times> schedule" and r k' wq'
  assume h: "permit_good I k" "sink_inv (sink_core (ps_sink k))"
    "permit_poll_flush I tmp dbg k wq = (r, (k', wq'))"
  then show "case r of Pending \<Rightarrow> snd wq = [] \<or> snd wq = FutPending # snd wq'
     | Ready x \<Rightarrow> if x = Err OpCanceled then snd wq = FutCanceled # snd wq'
         else snd wq' = snd wq \<or> snd wq = FutReady # snd wq'"
    using permit_poll_sched [of k dbg "fst wq" "snd wq" r k' "fst wq'" "snd wq'"]
      direct_ready [of "sink_core (ps_sink k)" "fst wq" r "sink_core (ps_sink k')" "fst wq'"]
    by (auto split: poll.splits)
qed

lemma dispatch_polled_sched:
  assumes "dispatch_polled I tmp dbg ob (w, q) = (r, (s', (w', q')))"
    and "sink_inv ob" and "needs_blocking I ob" and "as_arbiter ob = Once"
  shows "case r of
      Pending \<Rightarrow> s' = DispDispatch ob \<and> w' = w \<and> (q = [] \<or> q = FutPending # q')
    | Ready x \<Rightarrow>
        x = Err OpCanceled \<and> s' = DispDispatch ob \<and> w' = w \<and> q = FutCanceled # q' \<or>
        dispatch_good I s' \<and> q = FutReady # q' \<and>
          direct (sink_core ob) w = (Ready x, (dispatch_core s', w'))"
proof -
  obtain x c w1 where one: "poll_flush_impl I stateful tmp ob w = (Ready x, (with_arbiter c Void, w1))"
    "direct (sink_core ob) w = (Ready x, (c, w1))"
    using once_poll [OF assms(2-4)] by metis
  show ?thesis
  proof (cases q)
    case Nil
    then show ?thesis using assms(1) by (auto simp: dispatch_polled_def next_poll_def)
  next
    case (Cons a as)
    then show ?thesis
      using assms(1) one
      by (cases a) (auto simp: dispatch_polled_def next_poll_def)
  qed
qed

lemma dispatch_poll_sched:
  assumes "dispatch_good I s" and "sink_inv (dispatch_core s)"
    and "dispatch_poll_flush I tmp dbg True s (w, q) = (r, (s', (w', q')))"
  shows "case r of
      Pending \<Rightarrow> dispatch_good I s' \<and> dispatch_core s' = dispatch_core s \<and> w' = w \<and>
        (q = [] \<or> q = FutPending # q')
    | Ready x \<Rightarrow>
        x = Err OpCanceled \<and> dispatch_core s' = dispatch_core s \<and> w' = w \<and> q = FutCanceled # q' \<or>
        dispatch_good I s' \<and> (q' = q \<or> q = FutReady # q') \<and>
          direct (dispatch_core s) w = (Ready x, (dispatch_core s', w'))"
proof (cases s)
  case (DispDispatch ob)
  then have g: "as_arbiter ob = Once" "needs_blocking I ob" "sink_inv ob"
    and p: "dispatch_polled I tmp dbg ob (w, q) = (r, (s', (w', q')))"
    using assms by simp_all
  show ?thesis
    using dispatch_polled_sched [OF p g(3,2,1)] assms(1) DispDispatch
    by (auto split: poll.splits)
next
  case (DispSink so)
  then obtain ob where so: "so = Some ob" using assms(1) by (cases so) auto
  then have g: "as_arbiter ob = Void" "sink_inv ob" and core: "dispatch_core s = sink_core ob"
    using assms(1,2) DispSink by simp_all
  from g(2,1) show ?thesis
  proof (cases rule: void_poll [where w = w])
    case blocks
    let ?ob = "ob\<lparr>as_arbiter := Once\<rparr>"
    have p: "dispatch_polled I tmp dbg ?ob (w, q) = (r, (s', (w', q')))"
      using assms(3) DispSink so blocks(1) by simp
    have "sink_inv ?ob" using g(2) by (simp add: sink_inv_def)
    from dispatch_polled_sched [OF p this] blocks(2) show ?thesis
      by (auto simp: core split: poll.splits)
  next
    case (polled x c w1)
    then show ?thesis
      using assms(3) DispSink so by (auto simp: core)
  qed
qed

lemma dispatch_progressing:
  "progressing_sink I valid tmp (dispatch_poll_flush I tmp dbg True) dispatch_start_send
     dispatch_core fst (dispatch_good I) snd"
proof
  fix k :: "('b, 'q) dispatch_sink" and wq :: "io_script \<times> schedule" and k' wq'
  assume "dispatch_good I k" "sink_inv (dispatch_core k)"
    "dispatch_poll_flush I tmp dbg True k wq = (Pending, (k', wq'))"
  then show "dispatch_good I k' \<and> dispatch_core k' = dispatch_core k \<and> fst wq' = fst wq"
    using dispatch_poll_sched [of k dbg "fst wq" "snd wq" Pending k' "fst wq'" "snd wq'"] by simp
next
  fix k :: "('b, 'q) dispatch_sink" and wq :: "io_script \<times> schedule" and x k' wq'
  assume "dispatch_good I k" "sink_inv (dispatch_core k)"
    "dispatch_poll_flush I tmp dbg True k wq = (Ready x, (k', wq'))"
  then show "x = Err OpCanceled \<and> dispatch_core k' = dispatch_core k \<and> fst wq' = fst wq \<or>
      dispatch_good I k' \<and> direct (dispatch_core k) (fst wq) = (Ready x, (dispatch_core k', fst wq'))"
    using dispatch_poll_sched [of k dbg "fst wq" "snd wq" "Ready x" k' "fst wq'" "snd wq'"] by auto
next
  fix k :: "('b, 'q) dispatch_sink" and b
  assume "dispatch_good I k" and "as_buf (dispatch_core k) = None"
  then show "\<exists>k'. dispatch_start_send k b = (Ok (), k') \<and> dispatch_good I k' \<and>
      dispatch_core k' = (dispatch_core k)\<lparr>as_buf := Some b\<rparr>"
    by (cases k rule: dispatch_into_inner.cases)
      (auto simp: async_send_def needs_blocking_def)
next
  fix k :: "('b, 'q) dispatch_sink" and wq :: "io_script \<times> schedule" and r k' wq'
  assume "dispatch_good I k" "sink_inv (dispatch_core k)"
    "dispatch_poll_flush I tmp dbg True k wq = (r, (k', wq'))"
  then show "case r of Pending \<Rightarrow> snd wq = [] \<or> snd wq = FutPending # snd wq'
     | Ready x \<Rightarrow> if x = Err OpCanceled then snd wq = FutCanceled # snd wq'
         else snd wq' = snd wq \<or> snd wq = FutReady # snd wq'"
    using dispatch_poll_sched [of k dbg "fst wq" "snd wq" r k' "fst wq'" "snd wq'"]
      direct_ready [of "dispatch_core k" "fst wq" r "dispatch_core k'" "fst wq'"]
    by (auto split: poll.splits)
qed

end

text \<open>
  What a list of buffers makes of a body: all of it is there, within the limits, or it has stopped
  at some prefix.
\<close>

definition sent :: "tunables \<Rightarrow> bytes \<Rightarrow> body_sink \<Rightarrow> body_sink \<Rightarrow> bool" where
  "sent tune full body body' \<longleftrightarrow> sink_bytes body' = full \<and>
     (length full \<le> max_body tune \<or> body' = body) \<and>
     (sink_is_ram body' \<longleftrightarrow> sink_is_ram body \<and>
       (full = sink_bytes body \<or> length full \<le> max_body_ram tune))"

definition stopped :: "tunables \<Rightarrow> bytes \<Rightarrow> futio_error fault \<Rightarrow> body_sink \<Rightarrow> bool" where
  "stopped tune full f body' \<longleftrightarrow>
     ((\<exists>n. f = Fail (FBody (BodyTooLong n)) \<and> max_body tune < n \<and> n \<le> length full) \<or>
      (\<exists>io. f = Fail (FBody (BodyIo io)))) \<and>
     (\<exists>n. sink_bytes body' = take n full)"

lemma stopped_more:
  assumes "stopped tune full f body"
  shows "stopped tune (full @ r) f body"
proof -
  obtain n where "sink_bytes body = take n full" using assms by (auto simp: stopped_def)
  then have "sink_bytes body = take (min n (length full)) (full @ r)" by (simp add: min_def)
  then show ?thesis using assms by (auto simp: stopped_def simp del: take_append)
qed

lemma sent_trans:
  assumes "sent tune (sink_bytes s @ p) s s1" and "sent tune (sink_bytes s @ p @ r) s1 s2"
  shows "sent tune (sink_bytes s @ p @ r) s s2"
  using assms by (cases "p = []"; cases "r = []") (auto simp: sent_def)

context direct_sink
begin

lemma direct_sent:
  assumes "sink_inv s" and "direct s w = (Ready (Ok u), (s', w'))"
  shows "sent (image (as_tune s)) (sink_bytes (as_body s) @ pending_bytes s) (as_body s) (as_body s')"
  using direct_flushed [OF assms] by (auto simp: sent_def sink_inv_def sink_ok_def)

lemma direct_stopped:
  assumes "sink_inv s" and "direct s w = (Ready (Inl f), (s', w'))"
  shows "stopped (image (as_tune s)) (sink_bytes (as_body s) @ pending_bytes s) f (as_body s')"
proof -
  have "\<exists>n. sink_bytes (as_body s) = take n (sink_bytes (as_body s) @ pending_bytes s)"
    by (rule exI [of _ "length (sink_bytes (as_body s))"]) simp
  then show ?thesis
    using direct_failed [OF assms] unfolding stopped_def by (metis order_refl)
qed

lemma direct_drive:
  assumes "sink_inv s" and "\<And>b. b \<in> set bufs \<Longrightarrow> valid b"
    and "full = sink_bytes (as_body s) @ pending_bytes s @ concat (map (ib_as_ref I) bufs)"
    and "tune = image (as_tune s)"
  shows "\<exists>x s' w'. drive direct async_send (Suc (length bufs)) bufs s w = (Ready x, (s', w')) \<and>
    (case x of
       Inr u \<Rightarrow> sink_inv s' \<and> sent tune full (as_body s) (as_body s')
     | Inl f \<Rightarrow> stopped tune full f (as_body s'))"
  using assms
proof (induction bufs arbitrary: s w)
  case Nil
  obtain r s' w' where d: "direct s w = (r, (s', w'))" by (metis prod.exhaust)
  obtain x where r: "r = Ready x" by (rule direct_ready [OF Nil.prems(1) d])
  show ?case
    using direct_stopped [OF Nil.prems(1), of w _ s' w'] direct_sent [OF Nil.prems(1), of w _ s' w']
      direct_flushed [OF Nil.prems(1), of w _ s' w'] d r Nil.prems(3,4)
    by (cases x) simp_all
next
  case (Cons b bs)
  obtain r s1 w1 where d: "direct s w = (r, (s1, w1))" by (metis prod.exhaust)
  obtain x where r: "r = Ready x" by (rule direct_ready [OF Cons.prems(1) d])
  show ?case
  proof (cases x)
    case (Inl f)
    have "stopped tune full f (as_body s1)"
      using stopped_more [OF direct_stopped [OF Cons.prems(1), of w f s1 w1]] d r Inl Cons.prems(3,4)
      by simp
    then show ?thesis
      using d r Inl by (intro exI [of _ "Inl f"] exI [of _ s1] exI [of _ w1]) simp
  next
    case (Inr u)
    note h = direct_flushed [OF Cons.prems(1), of w u s1 w1, unfolded d r Inr, simplified]
    let ?s = "s1\<lparr>as_buf := Some b\<rparr>"
    have step: "drive direct async_send (Suc (length (b # bs))) (b # bs) s w =
        drive direct async_send (Suc (length bs)) bs ?s w1"
      using d r Inr h by (simp add: async_send_def)
    have inv: "sink_inv ?s" using h Cons.prems(2) by (simp add: sink_inv_def)
    have full: "full = sink_bytes (as_body ?s) @ pending_bytes ?s @ concat (map (ib_as_ref I) bs)"
      using Cons.prems(3) h by (simp add: pending_bytes_def)
    have tune: "tune = image (as_tune ?s)" using Cons.prems(4) h by simp
    obtain x s' w' where
      x: "drive direct async_send (Suc (length bs)) bs ?s w1 = (Ready x, (s', w'))"
        "case x of Inr u \<Rightarrow> sink_inv s' \<and> sent tune full (as_body ?s) (as_body s')
         | Inl f \<Rightarrow> stopped tune full f (as_body s')"
      using Cons.IH [OF inv _ full tune, of w1] Cons.prems(2) by fastforce
    have "sent tune full (as_body s) (as_body s')" if "sent tune full (as_body s1) (as_body s')"
      using sent_trans [OF direct_sent [OF Cons.prems(1), of w u s1 w1, unfolded d r Inr, OF refl]]
        that Cons.prems(3,4) by simp
    then show ?thesis
      unfolding step using x by (intro exI [of _ x] exI [of _ s'] exI [of _ w'])
      (cases x; simp del: drive.simps)
  qed
qed

end

interpretation plain_bytes: direct_sink input_bytes "\<lambda>_. True" scripted_tempfile
  by (intro direct_sink.intro in_bytes.input_bufs_axioms scripted_tmp.temp_files_axioms)

interpretation plain_uni: direct_sink input_uni uni_ok scripted_tempfile
  by (intro direct_sink.intro in_uni.input_bufs_axioms scripted_tmp.temp_files_axioms)

interpretation plain: progressing_sink input_bytes "\<lambda>_. True" scripted_tempfile
    "poll_flush_impl input_bytes lenient scripted_tempfile" async_send "\<lambda>s. s" "\<lambda>w. w" "\<lambda>s. True" "\<lambda>w. []"
  by (rule plain_bytes.plain_progressing)

interpretation permits: progressing_sink input_bytes "\<lambda>_. True" scripted_tempfile
    "permit_poll_flush input_bytes scripted_tempfile True" permit_start_send
    "\<lambda>s. sink_core (ps_sink s)" fst "permit_good input_bytes" snd
  by (rule plain_bytes.permit_progressing)

interpretation dispatches: progressing_sink input_uni uni_ok scripted_tempfile
    "dispatch_poll_flush input_uni scripted_tempfile True True" dispatch_start_send
    dispatch_core fst "dispatch_good input_uni" snd
  by (rule plain_uni.dispatch_progressing)

lemma new_sinks [simp]:
  "sink_core (ps_sink (permit_sink_new body tune)) = async_sink_new lenient body tune"
  "dispatch_core (dispatch_sink_new body tune) = async_sink_new lenient body tune"
  "dispatch_good I (dispatch_sink_new body tune)"
  "permit_good I (permit_sink_new body tune) \<longleftrightarrow> blocking_semaphore tune \<noteq> None"
  by (simp_all add: permit_sink_new_def dispatch_sink_new_def async_sink_new_def sink_core_def
      permit_good_def)

context direct_sink
begin

lemma new_inv:
  "sink_ok body \<Longrightarrow> sink_inv (async_sink_new A body tune)"
  "pending_bytes (async_sink_new A body tune) = []"
  by (simp_all add: sink_inv_def async_sink_new_def pending_bytes_def)

end

end
