(* ===== verification/Futio_Forward.thy ===== *)
theory Futio_Forward
  imports Futio_Send
begin

text \<open>
  The properties of the asynchronous sinks: what a body is that was sent through them, that the
  two sinks that wait for permits or for dispatched operations refine the plain one whatever their
  schedule, and that they finish when the schedule lets them.
\<close>

section \<open>Properties of the asynchronous sinks\<close>

text \<open>
  C30: Buffers that are sent through an \<^verbatim>\<open>AsyncBodySink\<close> are flushed or refused within one poll
  for each and one more. On success the body holds what it held followed by all buffers, in order;
  it is within \<^verbatim>\<open>max_body\<close> (unless nothing was added), and a body in RAM has been written back
  to a file exactly if it has outgrown \<^verbatim>\<open>max_body_ram\<close>. The only errors are \<^verbatim>\<open>BodyTooLong\<close>, with
  a length beyond \<^verbatim>\<open>max_body\<close>, and I/O errors; the body then holds a prefix, and no input panics.
\<close>
theorem sink_sends_body:
  fixes bufs :: "'b list" and tune :: "'q futio_tunables"
  assumes "input_bufs I valid" and "temp_files tmp" and "sink_ok body" and "\<forall>b\<in>set bufs. valid b"
    and "full = sink_bytes body @ concat (map (ib_as_ref I) bufs)"
  shows "\<exists>x s' w'.
    drive (poll_flush_impl I lenient tmp) async_send (Suc (length bufs)) bufs
      (async_sink_new lenient body tune) w = (Ready x, (s', w')) \<and>
    (case x of
       Inr u \<Rightarrow> sink_ok (as_body s') \<and> sink_bytes (async_into_inner s') = full \<and>
         (length full \<le> max_body (image tune) \<or> as_body s' = body) \<and>
         (sink_is_ram (as_body s') \<longleftrightarrow> sink_is_ram body \<and>
           (full = sink_bytes body \<or> length full \<le> max_body_ram (image tune)))
     | Inl f \<Rightarrow>
         ((\<exists>n. f = Fail (FBody (BodyTooLong n)) \<and> max_body (image tune) < n \<and> n \<le> length full) \<or>
          (\<exists>io. f = Fail (FBody (BodyIo io)))) \<and>
         (\<exists>n. sink_bytes (as_body s') = take n full))"
proof -
  have d: "direct_sink I valid tmp" using assms(1,2) by (rule direct_sink.intro)
  let ?s = "async_sink_new lenient body tune :: ('b, unit, 'q) async_sink"
  have s: "as_body ?s = body" "image tune = image (as_tune ?s)" by (simp_all add: async_sink_new_def)
  have "full = sink_bytes (as_body ?s) @ direct_sink.pending_bytes I ?s @ concat (map (ib_as_ref I) bufs)"
    using assms(5) by (simp add: direct_sink.new_inv(2) [OF d] s(1))
  from direct_sink.direct_drive [OF d direct_sink.new_inv(1) [OF d assms(3)] _ this s(2), of w]
  obtain x s' w' where x: "drive (poll_flush_impl I lenient tmp) async_send (Suc (length bufs)) bufs ?s w =
      (Ready x, (s', w'))"
    "case x of Inr u \<Rightarrow> direct_sink.sink_inv valid s' \<and> sent (image tune) full (as_body ?s) (as_body s')
     | Inl f \<Rightarrow> stopped (image tune) full f (as_body s')"
    using assms(4) by blast
  then show ?thesis
    using s(1)
    by (intro exI [of _ x] exI [of _ s'] exI [of _ w'])
      (cases x, auto simp: direct_sink.sink_inv_def [OF d] async_into_inner_def sent_def stopped_def)
qed

definition sample_futio :: "'q blocking_policy \<Rightarrow> 'q futio_tunables" where
  "sample_futio p =
     (futio_tunables_new ''/tmp'')
       \<lparr>image := (tunables_new ''/tmp'')\<lparr>max_body_ram := 3, max_body := 10\<rparr>, blocking_policy := p\<rparr>"

theorem sink_sends_body_witness:
  "\<exists>x s' w'.
    drive (poll_flush_impl input_bytes lenient scripted_tempfile) async_send 3 [''abc'', ''defgh'']
      (async_sink_new lenient sink_empty (sample_futio (Direct :: unit blocking_policy))) [] =
        (Ready x, (s', w')) \<and>
    (x = Ok () \<longrightarrow> sink_bytes (as_body s') = ''abcdefgh'' \<and> \<not> sink_is_ram (as_body s'))"
proof -
  have n: "Suc (length [''abc'', ''defgh'']) = 3" by simp
  have v: "\<forall>b\<in>set [''abc'', ''defgh'']. True" by simp
  let ?full = "sink_bytes sink_empty @ concat (map (ib_as_ref input_bytes) [''abc'', ''defgh''])"
  have full: "?full = ''abcdefgh''" by (simp add: input_bytes_def)
  have sink_ok: "sink_ok sink_empty" by simp
  from sink_sends_body [OF in_bytes.input_bufs_axioms scripted_tmp.temp_files_axioms sink_ok v refl,
      of "sample_futio (Direct :: unit blocking_policy)" "[]", unfolded n full]
  show ?thesis
    by (elim ex_forward conj_forward)
      (auto simp: sample_futio_def async_into_inner_def simp del: drive.simps split: sum.splits)
qed

text \<open>
  C28: A body sent through a \<^verbatim>\<open>PermitBodySink\<close>, whatever its permits' futures answer and however
  often the client polls: once it is done (and no permit was canceled) the result and the body are
  exactly those of the \<^verbatim>\<open>AsyncBodySink\<close> that may always block. In particular the buffers arrive
  in order, each once, the sink does not panic, and its debug assertion holds.
\<close>
theorem permit_sink_refines:
  assumes "input_bufs I valid" and "temp_files tmp" and "sink_ok body" and "\<forall>b\<in>set bufs. valid b"
    and "blocking_policy tune = Permit sem"
    and "drive (permit_poll_flush I tmp dbg) permit_start_send n bufs (permit_sink_new body tune)
      (w, q) = (Ready x, (k', (w', q')))"
    and "x \<noteq> Err OpCanceled"
  shows "\<exists>s'. drive (poll_flush_impl I lenient tmp) async_send (Suc (length bufs)) bufs
      (async_sink_new lenient body tune) w = (Ready x, (s', w')) \<and>
    permit_into_inner k' = async_into_inner s'"
proof -
  have d: "direct_sink I valid tmp" using assms(1,2) by (rule direct_sink.intro)
  note p = direct_sink.permit_progressing [OF d, of dbg, THEN progressing_sink.axioms(1)]
  have g: "permit_good I (permit_sink_new body tune)"
    using assms(5) by (simp add: blocking_semaphore_def)
  have "direct_sink.sink_inv valid (sink_core (ps_sink (permit_sink_new body tune)))"
    using direct_sink.new_inv(1) [OF d assms(3)] by simp
  from flushing_sink.drive_refines [OF p g this _ assms(6,7)]
  show ?thesis
    using assms(4)
    by (auto simp: permit_into_inner_def async_into_inner_def simp del: drive.simps)
qed

lemma sample_futio_sel [simp]:
  "max_body (image (sample_futio p)) = 10" "max_body_ram (image (sample_futio p)) = 3"
  "blocking_policy (sample_futio p) = p"
  "blocking_semaphore (sample_futio p) = (case p of Permit q \<Rightarrow> Some q | _ \<Rightarrow> None)"
  by (simp_all add: sample_futio_def blocking_semaphore_def)

lemmas sink_run_simps = poll_flush_impl_def poll_send_def blocking_write_def async_send_def
  async_sink_new_def permit_sink_new_def permit_poll_flush_def permit_polled_def
  permit_start_send_def dispatch_sink_new_def dispatch_polled_def next_poll_def input_bytes_def
  input_uni_def sink_empty_def sink_with_ram_buffers_def sink_is_ram_def sink_push_def
  sink_write_back_def sink_write_all_def scripted_tempfile_def file_put_def put_at_def

theorem permit_sink_refines_witness:
  "\<exists>k' w' q' s'.
    drive (permit_poll_flush input_bytes scripted_tempfile True) permit_start_send (Suc (Suc (Suc 0)))
      [''abcde''] (permit_sink_new sink_empty (sample_futio (Permit ()))) ([], [FutPending, FutReady]) =
        (Ready (Ok ()), (k', (w', q'))) \<and>
    drive (poll_flush_impl input_bytes lenient scripted_tempfile) async_send (Suc (length [''abcde'']))
      [''abcde''] (async_sink_new lenient sink_empty (sample_futio (Permit ()))) [] =
        (Ready (Ok ()), (s', w')) \<and>
    permit_into_inner k' = async_into_inner s'"
proof -
  obtain k' w' q' where run: "drive (permit_poll_flush input_bytes scripted_tempfile True)
      permit_start_send (Suc (Suc (Suc 0))) [''abcde'']
      (permit_sink_new sink_empty (sample_futio (Permit ()))) ([], [FutPending, FutReady]) =
    (Ready (Ok ()), (k', (w', q')))"
    by (simp add: sink_run_simps Let_def)
  have v: "\<forall>b\<in>set [''abcde'']. True" and e: "sink_ok sink_empty" by simp_all
  show ?thesis
    using permit_sink_refines [OF in_bytes.input_bufs_axioms scripted_tmp.temp_files_axioms e v _ run]
      run by auto
qed

text \<open>
  C32: The same for a \<^verbatim>\<open>DispatchBodySink\<close> on a thread with a \<^verbatim>\<open>DispatchPool\<close>: however the dispatched
  operations are scheduled, a finished run has the result and the body of the plain sink, and the
  body can then be taken out.
\<close>
theorem dispatch_sink_refines:
  assumes "input_bufs I valid" and "temp_files tmp" and "sink_ok body" and "\<forall>b\<in>set bufs. valid b"
    and "drive (dispatch_poll_flush I tmp dbg True) dispatch_start_send n bufs
      (dispatch_sink_new body tune) (w, q) = (Ready x, (k', (w', q')))"
    and "x \<noteq> Err OpCanceled"
  shows "\<exists>s'. drive (poll_flush_impl I lenient tmp) async_send (Suc (length bufs)) bufs
      (async_sink_new lenient body tune) w = (Ready x, (s', w')) \<and>
    dispatch_into_inner k' = (Ok (async_into_inner s') :: ('e, body_sink) result)"
proof -
  have d: "direct_sink I valid tmp" using assms(1,2) by (rule direct_sink.intro)
  note p = direct_sink.dispatch_progressing [OF d, of dbg, THEN progressing_sink.axioms(1)]
  have i: "direct_sink.sink_inv valid (dispatch_core (dispatch_sink_new body tune))"
    using direct_sink.new_inv(1) [OF d assms(3)] by simp
  have "drive (poll_flush_impl I lenient tmp) async_send (Suc (length bufs)) bufs
      (async_sink_new lenient body tune) w = (Ready x, (dispatch_core k', w')) \<and>
    dispatch_good I k' \<and> as_buf (dispatch_core k') = None"
    using flushing_sink.drive_refines [OF p _ i _ assms(5,6)] assms(4)
    by (simp del: drive.simps)
  moreover from this have "dispatch_into_inner k' = (Ok (as_body (dispatch_core k')) :: ('e, body_sink) result)"
    by (cases k' rule: dispatch_into_inner.cases)
      (auto simp: needs_blocking_def async_into_inner_def simp del: drive.simps)
  ultimately show ?thesis by (auto simp: async_into_inner_def simp del: drive.simps)
qed

theorem dispatch_sink_refines_witness:
  "\<exists>k' w' q' s'.
    drive (dispatch_poll_flush input_bytes scripted_tempfile True True) dispatch_start_send
      (Suc (Suc (Suc 0))) [''abcde'']
      (dispatch_sink_new sink_empty (sample_futio (Dispatch :: unit blocking_policy)))
      ([], [FutPending, FutReady]) = (Ready (Ok ()), (k', (w', q'))) \<and>
    drive (poll_flush_impl input_bytes lenient scripted_tempfile) async_send (Suc (length [''abcde'']))
      [''abcde''] (async_sink_new lenient sink_empty (sample_futio (Dispatch :: unit blocking_policy)))
      [] = (Ready (Ok ()), (s', w')) \<and>
    dispatch_into_inner k' = (Ok (async_into_inner s') :: (unit, body_sink) result)"
proof -
  obtain k' w' q' where run: "drive (dispatch_poll_flush input_bytes scripted_tempfile True True)
      dispatch_start_send (Suc (Suc (Suc 0))) [''abcde'']
      (dispatch_sink_new sink_empty (sample_futio (Dispatch :: unit blocking_policy)))
      ([], [FutPending, FutReady]) = (Ready (Ok ()), (k', (w', q')))"
    by (simp add: sink_run_simps Let_def)
  have v: "\<forall>b\<in>set [''abcde'']. True" and e: "sink_ok sink_empty" by simp_all
  show ?thesis
    using dispatch_sink_refines [OF in_bytes.input_bufs_axioms scripted_tmp.temp_files_axioms e v run,
        where 'e = unit] run by auto
qed

text \<open>
  Neither sink gets stuck: if the schedule cancels nothing and grants more permits than there
  are buffers, then some number of polls sees the body through to a result.
\<close>
theorem permit_sink_completes:
  assumes "input_bufs I valid" and "temp_files tmp" and "sink_ok body" and "\<forall>b\<in>set bufs. valid b"
    and "FutCanceled \<notin> set q" and "length bufs < length (filter ((=) FutReady) q)"
  shows "(\<forall>sem. blocking_policy tune = Permit sem \<longrightarrow>
      (\<exists>n x kw. drive (permit_poll_flush I tmp dbg) permit_start_send n bufs
        (permit_sink_new body tune) (w, q) = (Ready x, kw) \<and> x \<noteq> Err OpCanceled)) \<and>
    (\<exists>n x kw. drive (dispatch_poll_flush I tmp dbg True) dispatch_start_send n bufs
      (dispatch_sink_new body tune) (w, q) = (Ready x, kw) \<and> x \<noteq> Err OpCanceled)"
proof -
  have d: "direct_sink I valid tmp" using assms(1,2) by (rule direct_sink.intro)
  have i: "direct_sink.sink_inv valid (sink_core (ps_sink (permit_sink_new body tune)))"
    "direct_sink.sink_inv valid (dispatch_core (dispatch_sink_new body tune))"
    using direct_sink.new_inv(1) [OF d assms(3)] by simp_all
  note p = progressing_sink.drive_completes [OF direct_sink.permit_progressing [OF d], of
      "permit_sink_new body tune" bufs "(w, q)" dbg]
  note s = progressing_sink.drive_completes [OF direct_sink.dispatch_progressing [OF d], of
      "dispatch_sink_new body tune" bufs "(w, q)" dbg]
  show ?thesis
  proof (intro conjI allI impI)
    fix sem assume "blocking_policy tune = Permit sem"
    then have "permit_good I (permit_sink_new body tune)" by (simp add: blocking_semaphore_def)
    from p [OF this i(1)] show "\<exists>n x kw. drive (permit_poll_flush I tmp dbg) permit_start_send n bufs
        (permit_sink_new body tune) (w, q) = (Ready x, kw) \<and> x \<noteq> Err OpCanceled"
      using assms(4-6) by auto
  next
    from s [OF _ i(2)] show "\<exists>n x kw. drive (dispatch_poll_flush I tmp dbg True) dispatch_start_send n
        bufs (dispatch_sink_new body tune) (w, q) = (Ready x, kw) \<and> x \<noteq> Err OpCanceled"
      using assms(4-6) by auto
  qed
qed

theorem permit_sink_completes_witness:
  "\<exists>n x kw. drive (permit_poll_flush input_bytes scripted_tempfile True) permit_start_send n
     [''abcde''] (permit_sink_new sink_empty (sample_futio (Permit ())))
     ([], [FutReady, FutPending, FutReady]) = (Ready x, kw) \<and> x \<noteq> Err OpCanceled"
proof -
  have v: "\<forall>b\<in>set [''abcde'']. True" and e: "sink_ok sink_empty" by simp_all
  show ?thesis
    using permit_sink_completes [OF in_bytes.input_bufs_axioms scripted_tmp.temp_files_axioms e v,
        of "[FutReady, FutPending, FutReady]" "sample_futio (Permit ())" True "[]"]
    by simp
qed

end
