(* ===== verification/Futio_Stream.thy ===== *)
theory Futio_Stream
  imports Futio_Blocking Futio_Buf
begin

text \<open>
  The asynchronous streams of \<^verbatim>\<open>body-image-futio/src/stream.rs\<close>: \<^verbatim>\<open>AsyncBodyImage\<close>, which
  delivers an image in items and asks its arbiter before it blocks, and the two that wrap it,
  \<^verbatim>\<open>PermitBodyImage\<close> and \<^verbatim>\<open>DispatchBodyImage\<close>, with their \<^verbatim>\<open>http_body::Body\<close> methods.

  A poll that reads a file may retry for ever, hence the options. An item that is a panic is
  \<open>Inl (Panic m)\<close>. The I/O error that the \<^emph>\<open>blocking-permit\<close> crate makes of a cancellation is the
  parameter \<open>cio\<close>.
\<close>

section \<open>AsyncBodyImage\<close>

datatype 's async_body_state = StRam "bytes list" | StFile 's | StMemMap "bytes option"

record ('s, 'a, 'q) async_image =
  ai_state :: "'s async_body_state"
  ai_len :: nat
  ai_consumed :: nat
  ai_tune :: "'q futio_tunables"
  ai_arbiter :: 'a

definition async_image_new ::
  "('p, 's, 'g) olio \<Rightarrow> 'a arbiter \<Rightarrow> 's body_image \<Rightarrow> 'q futio_tunables \<Rightarrow> ('s, 'a, 'q) async_image" where
  "async_image_new fs A body tune =
     \<lparr>ai_state = (case explode_image fs body of
          ExRam v \<Rightarrow> StRam v | ExFsRead rs \<Rightarrow> StFile rs | ExMemMap m \<Rightarrow> StMemMap (Some m)),
      ai_len = bi_len body, ai_consumed = 0, ai_tune = tune, ai_arbiter = ar_default A\<rparr>"

text \<open>What the loop over \<^verbatim>\<open>rs.read\<close> ends with.\<close>

partial_function (option) read_retry :: "'r reader \<Rightarrow> 'r \<Rightarrow> nat \<Rightarrow> ((io_error + bytes) \<times> 'r) option" where
  "read_retry rd r k =
     (case rd r k of
        (Inr bs, r') \<Rightarrow> Some (Inr bs, r')
      | (Inl e, r') \<Rightarrow> if e = Interrupted then read_retry rd r' k else Some (Inl e, r'))"

type_synonym 'b item = "(io_error, 'b) result option"

definition poll_impl ::
  "('p, 's, 'g) olio \<Rightarrow> 'b output_buf \<Rightarrow> bool \<Rightarrow> 'a arbiter \<Rightarrow> ('s, 'a, 'q) async_image
     \<Rightarrow> ('b item poll \<times> ('s, 'a, 'q) async_image) option" where
  "poll_impl fs B chk A s =
     (case u64_sub chk (ai_len s) (ai_consumed s) of
        Inl f \<Rightarrow> Some (Ready (Some (Inl f)), s)
      | Inr avail \<Rightarrow>
          if avail = 0 then Some (Ready None, s)
          else (case ai_state s of
              StRam v \<Rightarrow>
                (case v of
                   b # bs \<Rightarrow>
                     Some (Ready (Some (Ok (ob_from B b))),
                       s\<lparr>ai_state := StRam bs, ai_consumed := ai_consumed s + length b\<rparr>)
                 | [] \<Rightarrow> Some (Ready None, s))
            | StFile rs \<Rightarrow>
                (case ar_can_block A (ai_arbiter s) of (ok, a) \<Rightarrow>
                  if \<not> ok then Some (Pending, s\<lparr>ai_arbiter := a\<rparr>)
                  else (case read_retry (rs_read fs) rs (min (buffer_size_fs (image (ai_tune s))) avail) of
                      None \<Rightarrow> None
                    | Some (Inr bs, rs') \<Rightarrow>
                        if bs = []
                        then Some (Ready None, s\<lparr>ai_arbiter := a, ai_state := StFile rs'\<rparr>)
                        else Some (Ready (Some (Ok (ob_from B bs))),
                          s\<lparr>ai_arbiter := a, ai_state := StFile rs',
                            ai_consumed := ai_consumed s + length bs\<rparr>)
                    | Some (Inl e, rs') \<Rightarrow>
                        Some (Ready (Some (Err e)), s\<lparr>ai_arbiter := a, ai_state := StFile rs'\<rparr>)))
            | StMemMap ob \<Rightarrow>
                (case ar_can_block A (ai_arbiter s) of (ok, a) \<Rightarrow>
                  if \<not> ok then Some (Pending, s\<lparr>ai_arbiter := a\<rparr>)
                  else (case ob of
                      Some mb \<Rightarrow>
                        (case ob_from_mmap B (mh_advise fs) mb of
                           Inr buf \<Rightarrow>
                             Some (Ready (Some (Ok buf)),
                               s\<lparr>ai_arbiter := a, ai_state := StMemMap None,
                                 ai_consumed := ai_consumed s + ob_remaining B buf\<rparr>)
                         | Inl f \<Rightarrow>
                             Some (Ready (Some (Inl f)),
                               s\<lparr>ai_arbiter := a, ai_state := StMemMap None\<rparr>))
                    | None \<Rightarrow> Some (Ready None, s\<lparr>ai_arbiter := a\<rparr>)))))"

text \<open>\<^verbatim>\<open>http_body::Body\<close>: \<^verbatim>\<open>size_hint\<close> is exact.\<close>

definition size_hint :: "('s, 'a, 'q) async_image \<Rightarrow> nat" where
  "size_hint s = ai_len s"

definition is_end_stream :: "('s, 'a, 'q) async_image \<Rightarrow> bool" where
  "is_end_stream s \<longleftrightarrow> ai_len s \<le> ai_consumed s"

section \<open>PermitBodyImage\<close>

record ('s, 'q) permit_image =
  pi_image :: "('s, blocking, 'q) async_image"
  pi_permit :: bool

definition permit_image_new ::
  "('p, 's, 'g) olio \<Rightarrow> 's body_image \<Rightarrow> 'q futio_tunables \<Rightarrow> ('s, 'q) permit_image" where
  "permit_image_new fs body tune =
     \<lparr>pi_image = async_image_new fs stateful body tune, pi_permit = False\<rparr>"

definition permit_next_polled ::
  "('p, 's, 'g) olio \<Rightarrow> 'b output_buf \<Rightarrow> bool \<Rightarrow> bool \<Rightarrow> io_error \<Rightarrow> ('s, 'q) permit_image \<Rightarrow> schedule
     \<Rightarrow> ('b item poll \<times> (('s, 'q) permit_image \<times> schedule)) option" where
  "permit_next_polled fs B chk dbg cio s q =
     (case next_poll q of
        (FutPending, q') \<Rightarrow> Some (Pending, (s, q'))
      | (FutCanceled, q') \<Rightarrow> Some (Ready (Some (Err cio)), (s, q'))
      | (FutReady, q') \<Rightarrow>
          (case poll_impl fs B chk stateful ((pi_image s)\<lparr>ai_arbiter := Once\<rparr>) of
             None \<Rightarrow> None
           | Some (res, img) \<Rightarrow>
               Some (if dbg \<and> ai_arbiter img \<noteq> Void then Ready (Some (panic ''assertion failed'')) else res,
                 (\<lparr>pi_image = img, pi_permit = False\<rparr>, q'))))"

definition permit_poll_next ::
  "('p, 's, 'g) olio \<Rightarrow> 'b output_buf \<Rightarrow> bool \<Rightarrow> bool \<Rightarrow> io_error \<Rightarrow> ('s, 'q) permit_image \<Rightarrow> schedule
     \<Rightarrow> ('b item poll \<times> (('s, 'q) permit_image \<times> schedule)) option" where
  "permit_poll_next fs B chk dbg cio s q =
     (if pi_permit s then permit_next_polled fs B chk dbg cio s q
      else (case poll_impl fs B chk stateful (pi_image s) of
          None \<Rightarrow> None
        | Some (res, img) \<Rightarrow>
            if res = Pending \<and> ai_arbiter img = BlockPending
            then (case blocking_semaphore (ai_tune img) of
                None \<Rightarrow>
                  Some (Ready (Some (panic ''blocking semaphore required!'')),
                    (s\<lparr>pi_image := img\<rparr>, q))
              | Some sem \<Rightarrow>
                  permit_next_polled fs B chk dbg cio (s\<lparr>pi_image := img, pi_permit := True\<rparr>) q)
            else Some (res, (s\<lparr>pi_image := img\<rparr>, q))))"

definition permit_size_hint :: "('s, 'q) permit_image \<Rightarrow> nat" where
  "permit_size_hint s = size_hint (pi_image s)"

definition permit_is_end_stream :: "('s, 'q) permit_image \<Rightarrow> bool" where
  "permit_is_end_stream s = is_end_stream (pi_image s)"

section \<open>DispatchBodyImage\<close>

datatype ('s, 'q) dispatch_image_state =
    DimImage "('s, blocking, 'q) async_image option"
  | DimDispatch "('s, blocking, 'q) async_image"

record ('s, 'q) dispatch_image =
  di_state :: "('s, 'q) dispatch_image_state"
  di_len :: nat

definition dispatch_image_new ::
  "('p, 's, 'g) olio \<Rightarrow> 's body_image \<Rightarrow> 'q futio_tunables \<Rightarrow> ('s, 'q) dispatch_image" where
  "dispatch_image_new fs body tune =
     \<lparr>di_state = DimImage (Some (async_image_new fs stateful body tune)), di_len = bi_len body\<rparr>"

definition dispatch_next_polled ::
  "('p, 's, 'g) olio \<Rightarrow> 'b output_buf \<Rightarrow> bool \<Rightarrow> bool \<Rightarrow> io_error \<Rightarrow> nat \<Rightarrow> ('s, blocking, 'q) async_image
     \<Rightarrow> schedule \<Rightarrow> ('b item poll \<times> (('s, 'q) dispatch_image \<times> schedule)) option" where
  "dispatch_next_polled fs B chk dbg cio len ob q =
     (case next_poll q of
        (FutPending, q') \<Rightarrow> Some (Pending, (\<lparr>di_state = DimDispatch ob, di_len = len\<rparr>, q'))
      | (FutCanceled, q') \<Rightarrow>
          Some (Ready (Some (Err cio)), (\<lparr>di_state = DimDispatch ob, di_len = len\<rparr>, q'))
      | (FutReady, q') \<Rightarrow>
          (case poll_impl fs B chk stateful ob of
             None \<Rightarrow> None
           | Some (res, ob') \<Rightarrow>
               if dbg \<and> ai_arbiter ob' \<noteq> Void
               then Some (Ready (Some (panic ''assertion failed'')),
                 (\<lparr>di_state = DimDispatch ob, di_len = len\<rparr>, q'))
               else Some (res, (\<lparr>di_state = DimImage (Some ob'), di_len = len\<rparr>, q'))))"

definition dispatch_poll_next ::
  "('p, 's, 'g) olio \<Rightarrow> 'b output_buf \<Rightarrow> bool \<Rightarrow> bool \<Rightarrow> io_error \<Rightarrow> bool \<Rightarrow> ('s, 'q) dispatch_image
     \<Rightarrow> schedule \<Rightarrow> ('b item poll \<times> (('s, 'q) dispatch_image \<times> schedule)) option" where
  "dispatch_poll_next fs B chk dbg cio pool s q =
     (case di_state s of
        DimImage None \<Rightarrow>
          Some (Ready (Some (panic ''called `Option::unwrap()` on a `None` value'')), (s, q))
      | DimImage (Some ob) \<Rightarrow>
          (case poll_impl fs B chk stateful ob of
             None \<Rightarrow> None
           | Some (res, ob') \<Rightarrow>
               if res = Pending \<and> ai_arbiter ob' = BlockPending
               then if \<not> pool
                    then Some (Ready (Some (panic ''called `Result::unwrap()` on an `Err` value'')),
                      (s\<lparr>di_state := DimImage None\<rparr>, q))
                    else dispatch_next_polled fs B chk dbg cio (di_len s) (ob'\<lparr>ai_arbiter := Once\<rparr>) q
               else Some (res, (s\<lparr>di_state := DimImage (Some ob')\<rparr>, q)))
      | DimDispatch ob \<Rightarrow> dispatch_next_polled fs B chk dbg cio (di_len s) ob q)"

definition dispatch_size_hint :: "('s, 'q) dispatch_image \<Rightarrow> nat" where
  "dispatch_size_hint s = di_len s"

definition dispatch_is_end_stream :: "('s, 'q) dispatch_image \<Rightarrow> ('e, bool) result" where
  "dispatch_is_end_stream s =
     (case di_state s of
        DimImage (Some ob) \<Rightarrow> Ok (is_end_stream ob)
      | DimImage None \<Rightarrow> panic ''called `Option::unwrap()` on a `None` value''
      | DimDispatch ob \<Rightarrow> Ok False)"

section \<open>What a poll does\<close>

definition image_core :: "('s, 'a, 'q) async_image \<Rightarrow> ('s, unit, 'q) async_image" where
  "image_core s = \<lparr>ai_state = ai_state s, ai_len = ai_len s, ai_consumed = ai_consumed s,
     ai_tune = ai_tune s, ai_arbiter = ()\<rparr>"

definition image_with :: "('s, unit, 'q) async_image \<Rightarrow> 'a \<Rightarrow> ('s, 'a, 'q) async_image" where
  "image_with c a = \<lparr>ai_state = ai_state c, ai_len = ai_len c, ai_consumed = ai_consumed c,
     ai_tune = ai_tune c, ai_arbiter = a\<rparr>"

text \<open>The next item can only be had by blocking.\<close>

definition blocked :: "bool \<Rightarrow> ('s, 'a, 'q) async_image \<Rightarrow> bool" where
  "blocked chk s \<longleftrightarrow>
     (case u64_sub chk (ai_len s) (ai_consumed s) :: (io_error, nat) result of
        Inl f \<Rightarrow> False | Inr avail \<Rightarrow> avail \<noteq> 0) \<and>
     (case ai_state s of StRam v \<Rightarrow> False | _ \<Rightarrow> True)"

lemma image_core_simps [simp]:
  "image_core (image_with c a) = c" "image_with (image_core s) (ai_arbiter s) = s"
  "ai_arbiter (image_with c a) = a" "image_core (s\<lparr>ai_arbiter := a\<rparr>) = image_core s"
  "ai_tune (image_with c a) = ai_tune c" "ai_tune (image_core s) = ai_tune s"
  "blocked chk (s\<lparr>ai_arbiter := a\<rparr>) = blocked chk s" "blocked chk (image_core s) = blocked chk s"
  by (simp_all add: image_core_def image_with_def blocked_def)

lemma poll_impl_eq:
  "poll_impl fs B chk A s =
     (if blocked chk s \<and> \<not> fst (ar_can_block A (ai_arbiter s))
      then Some (Pending, s\<lparr>ai_arbiter := snd (ar_can_block A (ai_arbiter s))\<rparr>)
      else case poll_impl fs B chk lenient (image_core s) of
        None \<Rightarrow> None
      | Some (r, c) \<Rightarrow>
          Some (r, image_with c (if blocked chk s then snd (ar_can_block A (ai_arbiter s))
            else ai_arbiter s)))"
proof (cases s)
  case (fields st len cons tune a)
  obtain ok a' where can: "ar_can_block A a = (ok, a')" by (rule prod.exhaust)
  show ?thesis
    using fields can
    by (cases st; cases "u64_sub chk len cons :: (io_error, nat) result")
      (auto simp: poll_impl_def blocked_def image_core_def image_with_def
        split: list.splits option.splits sum.splits prod.splits)
qed

lemma lenient_never_pending: "poll_impl fs B chk lenient s \<noteq> Some (Pending, s')"
  by (auto simp: poll_impl_def split: sum.splits if_splits async_body_state.splits list.splits
      option.splits prod.splits)

lemma poll_impl_tune: "poll_impl fs B chk A s = Some (r, s') \<Longrightarrow> ai_tune s' = ai_tune s"
  by (auto simp: poll_impl_def split: sum.splits if_splits async_body_state.splits list.splits
      option.splits prod.splits)

text \<open>A stateful image that may block once, and one that may not block yet.\<close>

lemma once_next:
  assumes "blocked chk s" and "ai_arbiter s = Once"
  shows "poll_impl fs B chk stateful s =
    map_option (\<lambda>(r, c). (r, image_with c Void)) (poll_impl fs B chk lenient (image_core s))"
  using assms by (subst poll_impl_eq) (auto split: option.splits prod.splits)

lemma void_next:
  assumes "ai_arbiter s = Void"
  shows "poll_impl fs B chk stateful s =
    (if blocked chk s then Some (Pending, s\<lparr>ai_arbiter := BlockPending\<rparr>)
     else map_option (\<lambda>(r, c). (r, image_with c Void)) (poll_impl fs B chk lenient (image_core s)))"
  using assms by (subst poll_impl_eq) (auto split: option.splits prod.splits)

end
