(* ===== verification/Futio_Collect.thy ===== *)
theory Futio_Collect
  imports Futio_Stream
begin

text \<open>
  Reading an image through the streams of \<^verbatim>\<open>Futio_Stream\<close>: a client that collects items, the
  contract \<open>polling_stream\<close> that the two streams that wait for permits or dispatched operations
  meet, and what the items amount to: the image's bytes, whatever its state and the schedule.
\<close>

section \<open>A client\<close>

text \<open>At most \<open>n\<close> polls; the items that were ready, and how it ended.\<close>

fun collect ::
  "('k \<Rightarrow> 'w \<Rightarrow> ('b item poll \<times> ('k \<times> 'w)) option) \<Rightarrow> nat \<Rightarrow> 'k \<Rightarrow> 'w
     \<Rightarrow> ('b list \<times> io_error fault option poll \<times> ('k \<times> 'w)) option" where
  "collect poll 0 k w = Some ([], Pending, (k, w))"
| "collect poll (Suc n) k w =
     (case poll k w of
        None \<Rightarrow> None
      | Some (Pending, (k', w')) \<Rightarrow> collect poll n k' w'
      | Some (Ready None, kw) \<Rightarrow> Some ([], Ready None, kw)
      | Some (Ready (Some (Inl f)), kw) \<Rightarrow> Some ([], Ready (Some f), kw)
      | Some (Ready (Some (Inr b)), (k', w')) \<Rightarrow>
          (case collect poll n k' w' of
             None \<Rightarrow> None
           | Some (bs, end', kw) \<Rightarrow> Some (b # bs, end', kw)))"

definition plain_next ::
  "('p, 's, 'g) olio \<Rightarrow> 'b output_buf \<Rightarrow> bool \<Rightarrow> ('s, unit, 'q) async_image \<Rightarrow> unit
     \<Rightarrow> ('b item poll \<times> (('s, unit, 'q) async_image \<times> unit)) option" where
  "plain_next fs B chk s u = map_option (\<lambda>(r, s'). (r, (s', ()))) (poll_impl fs B chk lenient s)"

lemma plain_next_eq:
  "poll_impl fs B chk lenient s = Some (r, c) \<Longrightarrow> plain_next fs B chk s () = Some (r, (c, ()))"
  "poll_impl fs B chk lenient s = None \<Longrightarrow> plain_next fs B chk s () = None"
  by (simp_all add: plain_next_def)

text \<open>Once the end is reached, more polls would not have been made.\<close>

lemma collect_more:
  "collect poll n k w = Some (items, Ready e, kw) \<Longrightarrow> n \<le> m \<Longrightarrow>
     collect poll m k w = Some (items, Ready e, kw)"
proof (induction n arbitrary: m k w items)
  case (Suc n)
  then obtain m' where m: "m = Suc m'" "n \<le> m'" by (cases m) auto
  show ?case
    using Suc.prems(1) Suc.IH [OF _ m(2)]
    by (auto simp: m(1) split: option.splits prod.splits poll.splits sum.splits)
qed simp

section \<open>The contract of the waiting streams\<close>

locale polling_stream =
  fixes fs :: "('p, 's, 'g) olio" and B :: "'b output_buf" and chk :: bool
    and poll :: "'k \<Rightarrow> schedule \<Rightarrow> ('b item poll \<times> ('k \<times> schedule)) option"
    and core :: "'k \<Rightarrow> ('s, unit, 'q) async_image"
    and good :: "'k \<Rightarrow> bool"
  assumes poll_some: "good k \<Longrightarrow> FutCanceled \<notin> set q \<Longrightarrow> poll k q = Some (r, (k', q')) \<Longrightarrow>
      good k' \<and>
      (r = Pending \<and> core k' = core k \<and> (q = [] \<and> q' = [] \<or> q = FutPending # q') \<or>
       poll_impl fs B chk lenient (core k) = Some (r, core k') \<and> (q' = q \<or> q = FutReady # q'))"
    and poll_none: "good k \<Longrightarrow> FutCanceled \<notin> set q \<Longrightarrow> poll k q = None \<Longrightarrow>
      poll_impl fs B chk lenient (core k) = None"
begin

lemma poll_cases [consumes 2, case_names diverged waiting ended broken item]:
  assumes "good k" and "FutCanceled \<notin> set q"
  obtains (diverged) "poll k q = None" "poll_impl fs B chk lenient (core k) = None"
  | (waiting) k' q' where "poll k q = Some (Pending, (k', q'))" "good k'" "core k' = core k"
      "q = [] \<and> q' = [] \<or> q = FutPending # q'"
  | (ended) k' q' where "poll k q = Some (Ready None, (k', q'))" "good k'"
      "poll_impl fs B chk lenient (core k) = Some (Ready None, core k')"
  | (broken) f k' q' where "poll k q = Some (Ready (Some (Inl f)), (k', q'))" "good k'"
      "poll_impl fs B chk lenient (core k) = Some (Ready (Some (Inl f)), core k')"
  | (item) b k' q' where "poll k q = Some (Ready (Some (Inr b)), (k', q'))" "good k'"
      "poll_impl fs B chk lenient (core k) = Some (Ready (Some (Inr b)), core k')"
      "q' = q \<or> q = FutReady # q'"
proof (cases "poll k q")
  case None
  show ?thesis by (rule diverged [OF None poll_none [OF assms None]])
next
  case (Some x)
  obtain r k' q' where "x = (r, (k', q'))" by (metis prod.exhaust)
  then have p: "poll k q = Some (r, (k', q'))" using Some by simp
  note h = poll_some [OF assms p]
  show ?thesis
  proof (cases r)
    case Pending
    then show ?thesis
      using h p waiting lenient_never_pending [of fs B chk "core k" "core k'"] by blast
  next
    case (Ready it)
    then have h: "good k'" "poll_impl fs B chk lenient (core k) = Some (Ready it, core k')"
      "q' = q \<or> q = FutReady # q'"
      using h by auto
    show ?thesis
    proof (cases it)
      case None
      then show ?thesis using ended [of k' q'] p Ready h by simp
    next
      case (Some y)
      then show ?thesis
        using broken [of _ k' q'] item [of _ k' q'] p Ready h by (cases y) auto
    qed
  qed
qed

text \<open>What it delivers, the plain stream delivers; and with permits enough, the other way round.\<close>

lemma collect_refines:
  assumes "good k" and "FutCanceled \<notin> set q"
    and "collect poll n k q = Some (items, Ready e, (k', q'))"
  shows "\<exists>m. collect (plain_next fs B chk) m (core k) () = Some (items, Ready e, (core k', ()))"
  using assms
proof (induction n arbitrary: k q items)
  case (Suc n)
  from Suc.prems(1,2) show ?case
  proof (cases rule: poll_cases)
    case diverged
    then show ?thesis using Suc.prems by simp
  next
    case (waiting k1 q1)
    then have "FutCanceled \<notin> set q1" using Suc.prems(2) by auto
    then show ?thesis using Suc.IH [of k1 q1 items] Suc.prems waiting by simp
  next
    case (ended k1 q1)
    then show ?thesis
      using Suc.prems by (intro exI [of _ 1]) (simp add: plain_next_eq)
  next
    case (broken f k1 q1)
    then show ?thesis
      using Suc.prems by (intro exI [of _ 1]) (simp add: plain_next_eq)
  next
    case (item b k1 q1)
    then obtain bs where bs: "collect poll n k1 q1 = Some (bs, Ready e, (k', q'))" "items = b # bs"
      using Suc.prems(3) by (auto split: option.splits)
    moreover have "FutCanceled \<notin> set q1" using item(4) Suc.prems(2) by auto
    ultimately obtain m where
      "collect (plain_next fs B chk) m (core k1) () = Some (bs, Ready e, (core k', ()))"
      using Suc.IH [of k1 q1 bs] item(2) by blast
    then show ?thesis
      using item(3) bs(2) by (intro exI [of _ "Suc m"]) (simp add: plain_next_eq)
  qed
qed simp

text \<open>The poll that ended a run.\<close>

lemma collect_last:
  assumes "good k" and "FutCanceled \<notin> set q"
    and "collect poll n k q = Some (items, Ready e, (k', q'))"
  shows "good k' \<and> (\<exists>k1 q1 r. good k1 \<and> FutCanceled \<notin> set q1 \<and>
    poll k1 q1 = Some (Ready r, (k', q')))"
  using assms
proof (induction n arbitrary: k q items)
  case (Suc n)
  from Suc.prems(1,2) show ?case
  proof (cases rule: poll_cases)
    case diverged
    then show ?thesis using Suc.prems by simp
  next
    case (waiting k1 q1)
    then have "FutCanceled \<notin> set q1" using Suc.prems(2) by auto
    then show ?thesis using Suc.IH [of k1 q1 items] Suc.prems waiting by simp
  next
    case (ended k1 q1)
    then show ?thesis using Suc.prems by auto
  next
    case (broken f k1 q1)
    then show ?thesis using Suc.prems by auto
  next
    case (item b k1 q1)
    then obtain bs where "collect poll n k1 q1 = Some (bs, Ready e, (k', q'))"
      using Suc.prems(3) by (auto split: option.splits)
    moreover have "FutCanceled \<notin> set q1" using item(4) Suc.prems(2) by auto
    ultimately show ?thesis using Suc.IH [of k1 q1 bs] item(2) by blast
  qed
qed simp

lemma collect_completes:
  assumes "good k" and "FutCanceled \<notin> set q" and "m \<le> length (filter ((=) FutReady) q)"
    and "collect (plain_next fs B chk) m (core k) () = Some (items, Ready e, (c, ()))"
  shows "\<exists>n k' q'. collect poll n k q = Some (items, Ready e, (k', q')) \<and> core k' = c \<and> good k'"
  using assms
proof (induction "m + length q" arbitrary: m k q items rule: less_induct)
  case less
  then obtain m' where m: "m = Suc m'" by (cases m) auto
  from less.prems(1,2) show ?case
  proof (cases rule: poll_cases)
    case diverged
    then show ?thesis using less.prems(4) m by (simp add: plain_next_eq)
  next
    case (waiting k1 q1)
    then have q: "q = FutPending # q1" using less.prems(3) m by auto
    then obtain n k' q' where "collect poll n k1 q1 = Some (items, Ready e, (k', q'))"
      "core k' = c" "good k'"
      using less.hyps [of m q1 k1 items] less.prems waiting by auto
    then show ?thesis using waiting(1) by (intro exI [of _ "Suc n"]) simp
  next
    case (ended k1 q1)
    then show ?thesis
      using less.prems(4) m by (intro exI [of _ 1]) (simp add: plain_next_eq)
  next
    case (broken f k1 q1)
    then show ?thesis
      using less.prems(4) m by (intro exI [of _ 1]) (simp add: plain_next_eq)
  next
    case (item b k1 q1)
    then obtain bs where bs: "collect (plain_next fs B chk) m' (core k1) () = Some (bs, Ready e, (c, ()))"
      "items = b # bs"
      using less.prems(4) m by (auto simp: plain_next_eq split: option.splits)
    have "FutCanceled \<notin> set q1" "m' \<le> length (filter ((=) FutReady) q1)" "m' + length q1 < m + length q"
      using item(4) less.prems(2,3) m by auto
    then obtain n k' q' where "collect poll n k1 q1 = Some (bs, Ready e, (k', q'))" "core k' = c" "good k'"
      using less.hyps [of m' q1 k1 bs] item(2) bs(1) by blast
    then show ?thesis using item(1) bs(2) by (intro exI [of _ "Suc n"]) simp
  qed
qed

end

section \<open>Both streams meet it\<close>

definition permit_image_good :: "bool \<Rightarrow> ('s, 'q) permit_image \<Rightarrow> bool" where
  "permit_image_good chk s \<longleftrightarrow> blocking_semaphore (ai_tune (pi_image s)) \<noteq> None \<and>
     (if pi_permit s then ai_arbiter (pi_image s) = BlockPending \<and> blocked chk (pi_image s)
      else ai_arbiter (pi_image s) = Void)"

definition dispatch_image_core :: "('s, 'q) dispatch_image \<Rightarrow> ('s, unit, 'q) async_image" where
  "dispatch_image_core s =
     (case di_state s of DimImage (Some ob) \<Rightarrow> image_core ob | DimDispatch ob \<Rightarrow> image_core ob
      | DimImage None \<Rightarrow> undefined)"

definition dispatch_image_good :: "bool \<Rightarrow> ('s, 'q) dispatch_image \<Rightarrow> bool" where
  "dispatch_image_good chk s =
     (case di_state s of
        DimImage None \<Rightarrow> False
      | DimImage (Some ob) \<Rightarrow> ai_arbiter ob = Void
      | DimDispatch ob \<Rightarrow> ai_arbiter ob = Once \<and> blocked chk ob)"

lemma permit_next_ok:
  assumes "permit_image_good chk s" and "pi_permit s" and "FutCanceled \<notin> set q"
  shows "case permit_next_polled fs B chk dbg cio s q of
      None \<Rightarrow> poll_impl fs B chk lenient (image_core (pi_image s)) = None
    | Some (r, (s', q')) \<Rightarrow> permit_image_good chk s' \<and>
        (r = Pending \<and> s' = s \<and> (q = [] \<and> q' = [] \<or> q = FutPending # q') \<or>
         poll_impl fs B chk lenient (image_core (pi_image s)) = Some (r, image_core (pi_image s')) \<and>
         q = FutReady # q')"
proof -
  have g: "blocked chk (pi_image s)" "blocking_semaphore (ai_tune (pi_image s)) \<noteq> None"
    using assms(1,2) by (simp_all add: permit_image_good_def)
  have o': "poll_impl fs B chk stateful ((pi_image s)\<lparr>ai_arbiter := Once\<rparr>) =
      map_option (\<lambda>(r, c). (r, image_with c Void)) (poll_impl fs B chk lenient (image_core (pi_image s)))"
    using once_next [of chk "(pi_image s)\<lparr>ai_arbiter := Once\<rparr>" fs B] g(1) by simp
  show ?thesis
  proof (cases q)
    case Nil
    then show ?thesis using assms(1) by (simp add: permit_next_polled_def next_poll_def)
  next
    case (Cons a as)
    then show ?thesis
      using assms g(2) o' poll_impl_tune [of fs B chk lenient "image_core (pi_image s)"]
      by (cases a) (auto simp: permit_next_polled_def next_poll_def permit_image_good_def
          split: option.splits)
  qed
qed

lemma permit_step:
  assumes good: "permit_image_good chk s" and q: "FutCanceled \<notin> set q"
  shows "case permit_poll_next fs B chk dbg cio s q of
      None \<Rightarrow> poll_impl fs B chk lenient (image_core (pi_image s)) = None
    | Some (r, (s', q')) \<Rightarrow> permit_image_good chk s' \<and>
        (r = Pending \<and> image_core (pi_image s') = image_core (pi_image s) \<and>
           (q = [] \<and> q' = [] \<or> q = FutPending # q') \<or>
         poll_impl fs B chk lenient (image_core (pi_image s)) = Some (r, image_core (pi_image s')) \<and>
         (q' = q \<or> q = FutReady # q'))"
proof (cases "pi_permit s")
  case True
  then show ?thesis
    using permit_next_ok [OF good True q, of fs B dbg cio]
    by (auto simp: permit_poll_next_def split: option.splits)
next
  case False
  then have g: "ai_arbiter (pi_image s) = Void" "blocking_semaphore (ai_tune (pi_image s)) \<noteq> None"
    using good by (simp_all add: permit_image_good_def)
  show ?thesis
  proof (cases "blocked chk (pi_image s)")
    case True
    let ?s = "s\<lparr>pi_image := (pi_image s)\<lparr>ai_arbiter := BlockPending\<rparr>, pi_permit := True\<rparr>"
    have "permit_image_good chk ?s" using True g(2) by (simp add: permit_image_good_def)
    from permit_next_ok [OF this _ q, of fs B dbg cio] show ?thesis
      using True False g by (auto simp: permit_poll_next_def void_next split: option.splits)
  next
    case not_blocked: False
    then show ?thesis
      using False g poll_impl_tune [of fs B chk lenient "image_core (pi_image s)"]
      by (auto simp: permit_poll_next_def void_next permit_image_good_def split: option.splits)
  qed
qed

lemma permit_polling:
  "polling_stream fs B chk (permit_poll_next fs B chk dbg cio)
     (\<lambda>s. image_core (pi_image s)) (permit_image_good chk)"
proof
  fix k q r k' q'
  assume "permit_image_good chk k" "FutCanceled \<notin> set q"
    "permit_poll_next fs B chk dbg cio k q = Some (r, (k', q'))"
  then show "permit_image_good chk k' \<and>
      (r = Pending \<and> image_core (pi_image k') = image_core (pi_image k) \<and>
        (q = [] \<and> q' = [] \<or> q = FutPending # q') \<or>
       poll_impl fs B chk lenient (image_core (pi_image k)) = Some (r, image_core (pi_image k')) \<and>
       (q' = q \<or> q = FutReady # q'))"
    using permit_step [of chk k q fs B dbg cio] by simp
next
  fix k q
  assume "permit_image_good chk k" "FutCanceled \<notin> set q" "permit_poll_next fs B chk dbg cio k q = None"
  then show "poll_impl fs B chk lenient (image_core (pi_image k)) = None"
    using permit_step [of chk k q fs B dbg cio] by simp
qed

lemma dispatch_image_simps [simp]:
  "dispatch_image_core \<lparr>di_state = DimImage (Some ob), di_len = n\<rparr> = image_core ob"
  "dispatch_image_core \<lparr>di_state = DimDispatch ob, di_len = n\<rparr> = image_core ob"
  "dispatch_image_core (s\<lparr>di_state := DimImage (Some ob)\<rparr>) = image_core ob"
  "dispatch_image_good chk \<lparr>di_state = DimImage (Some ob), di_len = n\<rparr> \<longleftrightarrow> ai_arbiter ob = Void"
  "dispatch_image_good chk \<lparr>di_state = DimDispatch ob, di_len = n\<rparr> \<longleftrightarrow>
     ai_arbiter ob = Once \<and> blocked chk ob"
  "dispatch_image_good chk (s\<lparr>di_state := DimImage (Some ob)\<rparr>) \<longleftrightarrow> ai_arbiter ob = Void"
  by (simp_all add: dispatch_image_core_def dispatch_image_good_def)

lemma dispatch_next_ok:
  assumes "ai_arbiter ob = Once" and "blocked chk ob" and "FutCanceled \<notin> set q"
  shows "case dispatch_next_polled fs B chk dbg cio len ob q of
      None \<Rightarrow> poll_impl fs B chk lenient (image_core ob) = None
    | Some (r, (s', q')) \<Rightarrow> dispatch_image_good chk s' \<and>
        (r = Pending \<and> dispatch_image_core s' = image_core ob \<and>
           (q = [] \<and> q' = [] \<or> q = FutPending # q') \<or>
         poll_impl fs B chk lenient (image_core ob) = Some (r, dispatch_image_core s') \<and>
         q = FutReady # q')"
proof (cases q)
  case Nil
  then show ?thesis using assms by (simp add: dispatch_next_polled_def next_poll_def)
next
  case (Cons a as)
  then show ?thesis
    using assms by (cases a) (auto simp: dispatch_next_polled_def next_poll_def once_next split: option.splits)
qed

lemma dispatch_step:
  assumes good: "dispatch_image_good chk s" and q: "FutCanceled \<notin> set q"
  shows "case dispatch_poll_next fs B chk dbg cio True s q of
      None \<Rightarrow> poll_impl fs B chk lenient (dispatch_image_core s) = None
    | Some (r, (s', q')) \<Rightarrow> dispatch_image_good chk s' \<and>
        (r = Pending \<and> dispatch_image_core s' = dispatch_image_core s \<and>
           (q = [] \<and> q' = [] \<or> q = FutPending # q') \<or>
         poll_impl fs B chk lenient (dispatch_image_core s) = Some (r, dispatch_image_core s') \<and>
         (q' = q \<or> q = FutReady # q'))"
proof (cases "di_state s")
  case (DimDispatch ob)
  then have g: "ai_arbiter ob = Once" "blocked chk ob" and c: "dispatch_image_core s = image_core ob"
    using good by (simp_all add: dispatch_image_good_def dispatch_image_core_def)
  show ?thesis
    using dispatch_next_ok [OF g q, of fs B dbg cio "di_len s"] DimDispatch
    by (auto simp: dispatch_poll_next_def c split: option.splits)
next
  case (DimImage so)
  then obtain ob where so: "so = Some ob"
    using good by (cases so) (auto simp: dispatch_image_good_def)
  then have g: "ai_arbiter ob = Void" and c: "dispatch_image_core s = image_core ob"
    using good DimImage by (simp_all add: dispatch_image_good_def dispatch_image_core_def)
  show ?thesis
  proof (cases "blocked chk ob")
    case True
    from dispatch_next_ok [OF _ _ q, of "ob\<lparr>ai_arbiter := Once\<rparr>" chk fs B dbg cio "di_len s"]
    show ?thesis
      using True g DimImage so
      by (auto simp: dispatch_poll_next_def void_next c split: option.splits)
  next
    case False
    then show ?thesis
      using g DimImage so by (auto simp: dispatch_poll_next_def void_next c split: option.splits)
  qed
qed

lemma dispatch_polling:
  "polling_stream fs B chk (dispatch_poll_next fs B chk dbg cio True)
     dispatch_image_core (dispatch_image_good chk)"
proof
  fix k q r k' q'
  assume "dispatch_image_good chk k" "FutCanceled \<notin> set q"
    "dispatch_poll_next fs B chk dbg cio True k q = Some (r, (k', q'))"
  then show "dispatch_image_good chk k' \<and>
      (r = Pending \<and> dispatch_image_core k' = dispatch_image_core k \<and>
        (q = [] \<and> q' = [] \<or> q = FutPending # q') \<or>
       poll_impl fs B chk lenient (dispatch_image_core k) = Some (r, dispatch_image_core k') \<and>
       (q' = q \<or> q = FutReady # q'))"
    using dispatch_step [of chk k q fs B dbg cio] by simp
next
  fix k q
  assume "dispatch_image_good chk k" "FutCanceled \<notin> set q"
    "dispatch_poll_next fs B chk dbg cio True k q = None"
  then show "poll_impl fs B chk lenient (dispatch_image_core k) = None"
    using dispatch_step [of chk k q fs B dbg cio] by simp
qed

interpretation permit_images: polling_stream cursor_olio output_bytes True
    "permit_poll_next cursor_olio output_bytes True True (OtherIo 0)"
    "\<lambda>s. image_core (pi_image s)" "permit_image_good True"
  by (rule permit_polling)

interpretation dispatch_images: polling_stream cursor_olio output_uni True
    "dispatch_poll_next cursor_olio output_uni True True (OtherIo 0) True"
    dispatch_image_core "dispatch_image_good True"
  by (rule dispatch_polling)

section \<open>What the plain stream delivers\<close>

context steady_source
begin

lemma read_retry_ok:
  assumes "0 < k"
  shows "\<exists>bs r'. read_retry rd r k = Some (Inr bs, r') \<and> advanced r (length bs) r' \<and>
    length bs \<le> k \<and> rest r = bs @ rest r' \<and> (bs = [] \<longrightarrow> rest r = [])"
proof (induction "patience r" arbitrary: r rule: less_induct)
  case less
  show ?case
  proof (cases rule: read_cases [of r k])
    case (interrupted r')
    obtain bs r'' where "read_retry rd r' k = Some (Inr bs, r'')" "advanced r' (length bs) r''"
      "length bs \<le> k" "rest r' = bs @ rest r''" "bs = [] \<longrightarrow> rest r' = []"
      using less [OF interrupted(3)] by blast
    then show ?thesis
      using interrupted advanced_trans [of r 0 r' "length bs" r'']
      by (simp add: read_retry.simps [of rd r])
  next
    case (eof r')
    then show ?thesis using assms by (simp add: read_retry.simps [of rd r])
  next
    case (some b bs r')
    then show ?thesis by (simp add: read_retry.simps [of rd r])
  qed
qed

end

locale image_streams =
  olio_files fs p_bytes p_patience s_bytes s_off s_patience g_bytes g_off g_patience +
  out: output_bufs B
  for fs :: "('p, 's, 'g) olio" and p_bytes p_patience s_bytes s_off s_patience
    and g_bytes g_off g_patience and B :: "'b output_buf"
begin

text \<open>The bytes still to come, and a bound for the polls that deliver them.\<close>

definition stream_rest :: "('s, unit, 'q) async_image \<Rightarrow> bytes" where
  "stream_rest s =
     (case ai_state s of
        StRam v \<Rightarrow> concat v | StFile rs \<Rightarrow> slc.rest rs
      | StMemMap (Some m) \<Rightarrow> m | StMemMap None \<Rightarrow> [])"

definition stream_polls :: "('s, unit, 'q) async_image \<Rightarrow> nat" where
  "stream_polls s = (case ai_state s of StRam v \<Rightarrow> length v | _ \<Rightarrow> length (stream_rest s))"

definition stream_ok :: "('s, unit, 'q) async_image \<Rightarrow> bool" where
  "stream_ok s \<longleftrightarrow> ai_consumed s + length (stream_rest s) \<le> ai_len s \<and>
     0 < buffer_size_fs (image (ai_tune s)) \<and>
     (\<forall>m. ai_state s = StMemMap (Some m) \<longrightarrow> ai_consumed s + length m = ai_len s)"

text \<open>One poll: the end, a failure to advise, or an item.\<close>

definition stepped :: "bool \<Rightarrow> ('s, unit, 'q) async_image \<Rightarrow> bool" where
  "stepped chk s \<longleftrightarrow>
     (\<exists>s'. poll_impl fs B chk lenient s = Some (Ready None, s') \<and> stream_rest s = [] \<and>
        ai_consumed s' = ai_consumed s \<and> ai_len s' = ai_len s) \<or>
     (\<exists>e m a s'. poll_impl fs B chk lenient s = Some (Ready (Some (Err e)), s') \<and>
        mh_advise fs m a = Some e) \<or>
     (\<exists>b s'. poll_impl fs B chk lenient s = Some (Ready (Some (Ok b)), s') \<and> stream_ok s' \<and>
        stream_rest s = ob_chunk B b @ stream_rest s' \<and> stream_polls s' < stream_polls s \<and>
        ai_consumed s' = ai_consumed s + length (ob_chunk B b) \<and> ai_len s' = ai_len s)"

lemma avail_sub:
  "stream_ok s \<Longrightarrow>
     u64_sub chk (ai_len s) (ai_consumed s) = (Ok (ai_len s - ai_consumed s) :: (io_error, nat) result)"
  by (simp add: stream_ok_def)

lemma ram_stepped:
  assumes "stream_ok s" and "ai_consumed s < ai_len s" and "ai_state s = StRam v"
  shows "stepped chk s"
proof (cases v)
  case Nil
  then show ?thesis
    using assms by (simp add: stepped_def poll_impl_def stream_rest_def avail_sub)
next
  case (Cons b bs)
  let ?s = "s\<lparr>ai_state := StRam bs, ai_consumed := ai_consumed s + length b\<rparr>"
  have "poll_impl fs B chk lenient s = Some (Ready (Some (Ok (ob_from B b))), ?s)"
    using assms Cons by (simp add: poll_impl_def avail_sub)
  then show ?thesis
    using assms Cons
    by (simp add: stepped_def stream_ok_def stream_rest_def stream_polls_def out.from_chunk)
qed

lemma file_stepped:
  assumes "stream_ok s" and "ai_consumed s < ai_len s" and "ai_state s = StFile rs"
  shows "stepped chk s"
proof -
  let ?k = "min (buffer_size_fs (image (ai_tune s))) (ai_len s - ai_consumed s)"
  have "0 < ?k" using assms by (simp add: stream_ok_def)
  from slc.read_retry_ok [OF this, of rs] obtain bs rs' where
    rd: "read_retry (rs_read fs) rs ?k = Some (Inr bs, rs')" "slc.rest rs = bs @ slc.rest rs'"
      "bs = [] \<longrightarrow> slc.rest rs = []"
    by blast
  show ?thesis
  proof (cases "bs = []")
    case True
    then show ?thesis
      using assms rd by (simp add: stepped_def poll_impl_def stream_rest_def avail_sub)
  next
    case False
    let ?s = "s\<lparr>ai_arbiter := (), ai_state := StFile rs', ai_consumed := ai_consumed s + length bs\<rparr>"
    have "poll_impl fs B chk lenient s = Some (Ready (Some (Ok (ob_from B bs))), ?s)"
      using assms rd(1) False by (simp add: poll_impl_def avail_sub)
    then show ?thesis
      using assms rd(2) False
      by (simp add: stepped_def stream_ok_def stream_rest_def stream_polls_def out.from_chunk)
  qed
qed

lemma mem_map_stepped:
  assumes "stream_ok s" and "ai_consumed s < ai_len s" and "ai_state s = StMemMap om"
  shows "stepped chk s"
proof (cases om)
  case None
  then show ?thesis
    using assms by (simp add: stepped_def poll_impl_def stream_rest_def avail_sub)
next
  case (Some m)
  then have m: "m \<noteq> []" "length m = ai_len s - ai_consumed s"
    using assms by (auto simp: stream_ok_def)
  show ?thesis
  proof (cases "ob_from_mmap B (mh_advise fs) m")
    case (Inr b)
    let ?s = "s\<lparr>ai_arbiter := (), ai_state := StMemMap None,
      ai_consumed := ai_consumed s + ob_remaining B b\<rparr>"
    have "poll_impl fs B chk lenient s = Some (Ready (Some (Ok b)), ?s)"
      using assms Some Inr by (simp add: poll_impl_def avail_sub)
    then show ?thesis
      using assms Some m out.from_mmap [OF Inr]
      by (simp add: stepped_def stream_ok_def stream_rest_def stream_polls_def)
  next
    case (Inl f)
    then obtain e a where "f = Fail e" "mh_advise fs m a = Some e"
      using out.from_mmap_fail [OF m(1) Inl] by blast
    then show ?thesis
      using assms Some Inl by (auto simp: stepped_def poll_impl_def avail_sub)
  qed
qed

lemma plain_stepped:
  assumes "stream_ok s"
  shows "stepped chk s"
proof (cases "ai_consumed s < ai_len s")
  case True
  then show ?thesis
    using assms by (cases "ai_state s") (auto intro: ram_stepped file_stepped mem_map_stepped)
next
  case False
  then have "length (stream_rest s) = 0" using assms unfolding stream_ok_def by linarith
  then show ?thesis using False avail_sub [OF assms] by (simp add: stepped_def poll_impl_def)
qed

lemma plain_step:
  assumes "stream_ok s"
  obtains (ended) s' where "poll_impl fs B chk lenient s = Some (Ready None, s')"
      "stream_rest s = []" "ai_consumed s' = ai_consumed s" "ai_len s' = ai_len s"
  | (broken) e m a s' where "poll_impl fs B chk lenient s = Some (Ready (Some (Err e)), s')"
      "mh_advise fs m a = Some e"
  | (item) b s' where "poll_impl fs B chk lenient s = Some (Ready (Some (Ok b)), s')" "stream_ok s'"
      "stream_rest s = ob_chunk B b @ stream_rest s'" "stream_polls s' < stream_polls s"
      "ai_consumed s' = ai_consumed s + length (ob_chunk B b)" "ai_len s' = ai_len s"
  using plain_stepped [OF assms, of chk] unfolding stepped_def by (elim disjE exE conjE) blast+

lemma plain_collect:
  assumes "stream_ok s"
  shows "\<exists>items e s'.
    collect (plain_next fs B chk) (Suc (stream_polls s)) s () = Some (items, Ready e, (s', ())) \<and>
    length items \<le> stream_polls s \<and>
    (case e of
       None \<Rightarrow> concat (map (ob_chunk B) items) = stream_rest s \<and>
         ai_consumed s' = ai_consumed s + length (stream_rest s) \<and> ai_len s' = ai_len s
     | Some f \<Rightarrow> (\<exists>n. concat (map (ob_chunk B) items) = take n (stream_rest s)) \<and>
         (\<exists>io m a. f = Fail io \<and> mh_advise fs m a = Some io))"
  using assms
proof (induction "stream_polls s" arbitrary: s rule: less_induct)
  case less
  show ?case
  proof (cases rule: plain_step [OF less.prems, of chk])
    case 1
    then show ?thesis by (auto simp: plain_next_eq)
  next
    case (2 e m a s')
    then show ?thesis by (auto simp: plain_next_eq intro: exI [of _ 0])
  next
    case (3 b s')
    obtain items e s'' where
      c: "collect (plain_next fs B chk) (Suc (stream_polls s')) s' () = Some (items, Ready e, (s'', ()))"
      "length items \<le> stream_polls s'" and
      h: "case e of
       None \<Rightarrow> concat (map (ob_chunk B) items) = stream_rest s' \<and>
         ai_consumed s'' = ai_consumed s' + length (stream_rest s') \<and> ai_len s'' = ai_len s'
     | Some f \<Rightarrow> (\<exists>n. concat (map (ob_chunk B) items) = take n (stream_rest s')) \<and>
         (\<exists>io m a. f = Fail io \<and> mh_advise fs m a = Some io)"
      using less.hyps [OF 3(4,2)] by blast
    have "collect (plain_next fs B chk) (stream_polls s) s' () = Some (items, Ready e, (s'', ()))"
      using collect_more [OF c(1), of "stream_polls s"] 3(4) by simp
    then have "collect (plain_next fs B chk) (Suc (stream_polls s)) s () = Some (b # items, Ready e, (s'', ()))"
      using 3(1) by (simp add: plain_next_eq)
    moreover have "case e of
       None \<Rightarrow> concat (map (ob_chunk B) (b # items)) = stream_rest s \<and>
         ai_consumed s'' = ai_consumed s + length (stream_rest s) \<and> ai_len s'' = ai_len s
     | Some f \<Rightarrow> (\<exists>n. concat (map (ob_chunk B) (b # items)) = take n (stream_rest s)) \<and>
         (\<exists>io m a. f = Fail io \<and> mh_advise fs m a = Some io)"
    proof (cases e)
      case (Some f)
      then obtain n where "concat (map (ob_chunk B) items) = take n (stream_rest s')" using h by auto
      then have "concat (map (ob_chunk B) (b # items)) = take (length (ob_chunk B b) + n) (stream_rest s)"
        using 3(3) by simp
      then have "\<exists>n. concat (map (ob_chunk B) (b # items)) = take n (stream_rest s)" by blast
      then show ?thesis using h Some by simp
    qed (use h 3(3,5,6) in simp)
    ultimately show ?thesis using c(2) 3(4) by auto
  qed
qed

lemma new_stream:
  assumes "im_ok b" and "0 < buffer_size_fs (image tune)"
  shows "stream_ok (async_image_new fs lenient b tune)"
    and "stream_rest (async_image_new fs lenient b tune) = im_bytes b"
proof -
  have "stream_rest (async_image_new fs lenient b tune) = im_bytes b \<and>
      stream_ok (async_image_new fs lenient b tune)"
    using assms slice_new
    by (cases "bi_state b")
      (auto simp: async_image_new_def explode_image_def stream_rest_def stream_ok_def image_ok_def
        image_bytes_def slc.rest_def)
  then show "stream_ok (async_image_new fs lenient b tune)"
    and "stream_rest (async_image_new fs lenient b tune) = im_bytes b" by simp_all
qed

lemma file_stream:
  assumes "0 < len" and "0 < buffer_size_fs (image tune)"
  shows "stream_ok (async_image_new fs lenient (image_from_file f len) tune)"
    and "stream_rest (async_image_new fs lenient (image_from_file f len) tune) = take len (content f)"
  using assms slice_new
  by (auto simp: async_image_new_def explode_image_def stream_rest_def stream_ok_def
      image_from_file_def slc.rest_def)

text \<open>A well-formed image needs a permit for each chunk in RAM, or for each byte at most.\<close>

lemma stream_polls_new:
  assumes "im_ok b"
  shows "stream_polls (async_image_new fs lenient b tune) =
    (case bi_state b of Ram v \<Rightarrow> length v | _ \<Rightarrow> bi_len b)"
  using assms slice_new
  by (cases "bi_state b")
    (auto simp: stream_polls_def async_image_new_def explode_image_def stream_rest_def image_ok_def
      image_bytes_def slc.rest_def)

end

interpretation cursor_streams: image_streams cursor_olio cur_bytes "\<lambda>_. 0"
    "\<lambda>s. cur_bytes (fst s)" "\<lambda>s. cur_pos (fst s)" "\<lambda>_. 0" cur_bytes cur_pos "\<lambda>_. 0" output_bytes
  by (intro image_streams.intro cursors.olio_files_axioms out_bytes.output_bufs_axioms)

lemma new_images [simp]:
  "image_core (pi_image (permit_image_new fs b tune)) = async_image_new fs lenient b tune"
  "dispatch_image_core (dispatch_image_new fs b tune) = async_image_new fs lenient b tune"
  "permit_image_good chk (permit_image_new fs b tune) \<longleftrightarrow> blocking_semaphore tune \<noteq> None"
  "dispatch_image_good chk (dispatch_image_new fs b tune)"
  by (simp_all add: permit_image_new_def dispatch_image_new_def async_image_new_def image_core_def
      permit_image_good_def dispatch_image_core_def dispatch_image_good_def)

lemma is_end_stream_core [simp]: "is_end_stream (image_core s) = is_end_stream s"
  by (simp add: is_end_stream_def image_core_def)

section \<open>Properties of the asynchronous streams\<close>

text \<open>
  C31: Polling an \<^verbatim>\<open>AsyncBodyImage\<close> over a well-formed image in any of its states comes to an end,
  without a panic. Unless the memory advice on a memory map fails, the items are, in order, exactly
  the bytes of the image, and \<^verbatim>\<open>is_end_stream\<close> then holds.
\<close>
theorem image_stream_bytes:
  assumes "olio_files fs p_bytes p_patience s_bytes s_off s_patience g_bytes g_off g_patience"
    and "output_bufs B" and "image_ok fs s_bytes s_off b" and "0 < buffer_size_fs (image tune)"
  shows "\<exists>n items e s'.
    collect (plain_next fs B chk) n (async_image_new fs lenient b tune) () =
      Some (items, Ready e, (s', ())) \<and>
    (case e of
       None \<Rightarrow> concat (map (ob_chunk B) items) = image_bytes s_bytes b \<and> is_end_stream s'
     | Some f \<Rightarrow> (\<exists>k. concat (map (ob_chunk B) items) = take k (image_bytes s_bytes b)) \<and>
         (\<exists>io m a. f = Fail io \<and> mh_advise fs m a = Some io))"
proof -
  have str: "image_streams fs p_bytes p_patience s_bytes s_off s_patience g_bytes g_off g_patience B"
    using assms(1,2) by (rule image_streams.intro)
  let ?s = "async_image_new fs lenient b tune"
  note new = image_streams.new_stream [OF str assms(3,4)]
  have len: "ai_len ?s = length (image_bytes s_bytes b)" "ai_consumed ?s = 0"
    using assms(3) by (simp_all add: async_image_new_def image_ok_def)
  obtain items e s' where c: "collect (plain_next fs B chk) (Suc (image_streams.stream_polls s_bytes s_off ?s))
      ?s () = Some (items, Ready e, (s', ()))"
    and h: "case e of
       None \<Rightarrow> concat (map (ob_chunk B) items) = image_streams.stream_rest s_bytes s_off ?s \<and>
         ai_consumed s' = ai_consumed ?s + length (image_streams.stream_rest s_bytes s_off ?s) \<and>
         ai_len s' = ai_len ?s
     | Some f \<Rightarrow> (\<exists>n. concat (map (ob_chunk B) items) = take n (image_streams.stream_rest s_bytes s_off ?s)) \<and>
         (\<exists>io m a. f = Fail io \<and> mh_advise fs m a = Some io)"
    using image_streams.plain_collect [OF str new(1), of chk] by blast
  show ?thesis
    using c h unfolding new(2) len
    by (intro exI [of _ "Suc (image_streams.stream_polls s_bytes s_off ?s)"] exI [of _ items]
        exI [of _ e] exI [of _ s']) (cases e, auto simp: is_end_stream_def)
qed

theorem image_stream_bytes_witness:
  "\<exists>n items e s'.
    collect (plain_next cursor_olio output_bytes True) n
      (async_image_new cursor_olio lenient
        (image_from_file \<lparr>content = ''abcdef'', fpos = 0\<rparr> 6)
        ((futio_tunables_new ''/tmp'' :: unit futio_tunables)
          \<lparr>image := (tunables_new ''/tmp'')\<lparr>buffer_size_fs := 4\<rparr>\<rparr>)) () =
      Some (items, Ready e, (s', ())) \<and> (e = None \<longrightarrow> concat items = ''abcdef'')"
proof -
  let ?b = "image_from_file \<lparr>content = ''abcdef'', fpos = 0\<rparr> 6 :: (cursor \<times> nat) body_image"
  let ?t = "(futio_tunables_new ''/tmp'' :: unit futio_tunables)
    \<lparr>image := (tunables_new ''/tmp'')\<lparr>buffer_size_fs := 4\<rparr>\<rparr>"
  have b: "image_ok cursor_olio (\<lambda>s. cur_bytes (fst s)) (\<lambda>s. cur_pos (fst s)) ?b"
    and bs: "image_bytes (\<lambda>s. cur_bytes (fst s)) ?b = ''abcdef''"
    by (simp_all add: image_from_file_def image_ok_def image_bytes_def)
  have t: "0 < buffer_size_fs (image ?t)" by simp
  have chunk: "ob_chunk output_bytes = (\<lambda>b. b)" by (simp add: output_bytes_def)
  from image_stream_bytes [OF cursors.olio_files_axioms out_bytes.output_bufs_axioms b t, of True]
  show ?thesis
    unfolding bs chunk map_ident
    by (elim ex_forward conj_forward) (auto split: option.splits)
qed

text \<open>
  C29: Whatever its permits' futures answer, short of cancelling, and however often it is polled: the
  items and the end that a \<^verbatim>\<open>PermitBodyImage\<close> gives are those of the \<^verbatim>\<open>AsyncBodyImage\<close> that may
  always block, and its \<^verbatim>\<open>is_end_stream\<close> agrees. It never panics where that one does not, and its
  debug assertion holds.
\<close>
theorem permit_stream_refines:
  assumes "blocking_policy tune = Permit sem" and "FutCanceled \<notin> set q"
    and "collect (permit_poll_next fs B chk dbg cio) n (permit_image_new fs b tune) q =
      Some (items, Ready e, (k', q'))"
  shows "\<exists>m s'. collect (plain_next fs B chk) m (async_image_new fs lenient b tune) () =
      Some (items, Ready e, (s', ())) \<and> permit_is_end_stream k' = is_end_stream s'"
proof -
  have g: "permit_image_good chk (permit_image_new fs b tune)"
    using assms(1) by (simp add: blocking_semaphore_def)
  obtain m where "collect (plain_next fs B chk) m (async_image_new fs lenient b tune) () =
      Some (items, Ready e, (image_core (pi_image k'), ()))"
    using polling_stream.collect_refines [OF permit_polling g assms(2,3)] by auto
  then show ?thesis
    by (intro exI [of _ m] exI [of _ "image_core (pi_image k')"])
      (simp add: permit_is_end_stream_def)
qed

definition sample_file_image :: "(cursor \<times> nat) body_image" where
  "sample_file_image = \<lparr>bi_state = FsRead \<lparr>content = ''abc'', fpos = 0\<rparr>, bi_len = 3\<rparr>"

lemma sample_file_image_ok:
  "image_ok cursor_olio (\<lambda>s. cur_bytes (fst s)) (\<lambda>s. cur_pos (fst s)) sample_file_image"
  "image_bytes (\<lambda>s. cur_bytes (fst s)) sample_file_image = ''abc''"
  by (simp_all add: sample_file_image_def image_ok_def image_bytes_def)

definition sample_stream_tune :: "'q blocking_policy \<Rightarrow> 'q futio_tunables" where
  "sample_stream_tune p = (futio_tunables_new ''/tmp'')\<lparr>blocking_policy := p\<rparr>"

lemma sample_stream_tune_sel [simp]:
  "0 < buffer_size_fs (image (sample_stream_tune p))" "blocking_policy (sample_stream_tune p) = p"
  "3 \<le> buffer_size_fs (image (sample_stream_tune p))"
  by (simp_all add: sample_stream_tune_def futio_tunables_new_def tunables_new_def)

lemma waiting_collects:
  assumes "olio_files fs p_bytes p_patience s_bytes s_off s_patience g_bytes g_off g_patience"
    and "output_bufs B" and "image_ok fs s_bytes s_off b" and "0 < buffer_size_fs (image tune)"
    and "polling_stream fs B chk poll core good"
    and "good k" and "core k = async_image_new fs lenient b tune" and "FutCanceled \<notin> set q"
    and "(case bi_state b of Ram v \<Rightarrow> length v | _ \<Rightarrow> bi_len b) < length (filter ((=) FutReady) q)"
  shows "\<exists>n items e k' q'. collect poll n k q = Some (items, Ready e, (k', q')) \<and>
    (e = None \<longrightarrow> concat (map (ob_chunk B) items) = image_bytes s_bytes b) \<and>
    (\<forall>f. e = Some f \<longrightarrow> (\<exists>io m a. f = Fail io \<and> mh_advise fs m a = Some io))"
proof -
  have str: "image_streams fs p_bytes p_patience s_bytes s_off s_patience g_bytes g_off g_patience B"
    using assms(1,2) by (rule image_streams.intro)
  let ?s = "async_image_new fs lenient b tune"
  note new = image_streams.new_stream [OF str assms(3,4)]
  obtain items e s' where
    c: "collect (plain_next fs B chk) (Suc (image_streams.stream_polls s_bytes s_off ?s)) ?s () =
      Some (items, Ready e, (s', ()))" and
    h: "case e of
       None \<Rightarrow> concat (map (ob_chunk B) items) = image_streams.stream_rest s_bytes s_off ?s \<and>
         ai_consumed s' = ai_consumed ?s + length (image_streams.stream_rest s_bytes s_off ?s) \<and>
         ai_len s' = ai_len ?s
     | Some f \<Rightarrow> (\<exists>n. concat (map (ob_chunk B) items) = take n (image_streams.stream_rest s_bytes s_off ?s)) \<and>
         (\<exists>io m a. f = Fail io \<and> mh_advise fs m a = Some io)"
    using image_streams.plain_collect [OF str new(1), of chk] by blast
  have "Suc (image_streams.stream_polls s_bytes s_off ?s) \<le> length (filter ((=) FutReady) q)"
    using assms(9) image_streams.stream_polls_new [OF str assms(3), of tune] by simp
  from polling_stream.collect_completes [OF assms(5,6,8) this] c assms(7)
  obtain n k' q' where "collect poll n k q = Some (items, Ready e, (k', q'))" by metis
  moreover have "e = None \<longrightarrow> concat (map (ob_chunk B) items) = image_bytes s_bytes b"
    using h new(2) by auto
  moreover have "\<forall>f. e = Some f \<longrightarrow> (\<exists>io m a. f = Fail io \<and> mh_advise fs m a = Some io)"
    using h by auto
  ultimately show ?thesis by blast
qed

lemma sample_stream_sel [simp]:
  "bi_state sample_file_image = FsRead \<lparr>content = ''abc'', fpos = 0\<rparr>" "bi_len sample_file_image = 3"
  "mh_advise cursor_olio m a = None"
  by (simp_all add: sample_file_image_def cursor_olio_def)

lemmas cursor_collects = waiting_collects [OF cursors.olio_files_axioms _ sample_file_image_ok(1)
    sample_stream_tune_sel(1)]

theorem permit_stream_refines_witness:
  "\<exists>n items k' q' m s'.
    collect (permit_poll_next cursor_olio output_bytes True True (OtherIo 0)) n
      (permit_image_new cursor_olio sample_file_image (sample_stream_tune (Permit ())))
      (FutPending # replicate 4 FutReady) = Some (items, Ready None, (k', q')) \<and>
    collect (plain_next cursor_olio output_bytes True) m
      (async_image_new cursor_olio lenient sample_file_image (sample_stream_tune (Permit ()))) () =
      Some (items, Ready None, (s', ())) \<and>
    concat items = ''abc'' \<and> permit_is_end_stream k' = is_end_stream s'"
proof -
  have pol: "blocking_policy (sample_stream_tune (Permit ())) = Permit ()" by simp
  have q: "FutCanceled \<notin> set (FutPending # replicate 4 FutReady)" by simp
  have good: "permit_image_good True
      (permit_image_new cursor_olio sample_file_image (sample_stream_tune (Permit ())))"
    by (simp add: blocking_semaphore_def)
  obtain n items k' q' where run:
    "collect (permit_poll_next cursor_olio output_bytes True True (OtherIo 0)) n
      (permit_image_new cursor_olio sample_file_image (sample_stream_tune (Permit ())))
      (FutPending # replicate 4 FutReady) = Some (items, Ready None, (k', q'))"
    and e: "concat (map (ob_chunk output_bytes) items) = ''abc''"
    using cursor_collects [OF out_bytes.output_bufs_axioms
        permit_polling [of cursor_olio output_bytes True True "OtherIo 0"] good new_images(1) q]
    by (auto simp: sample_file_image_ok(2))
  then have "concat items = ''abc''" by (simp add: output_bytes_def)
  then show ?thesis using permit_stream_refines [OF pol q run] run by blast
qed

lemma dispatch_settled:
  assumes "dispatch_poll_next fs B chk dbg cio True s q = Some (Ready r, (s', q'))"
    and "dispatch_image_good chk s" and "FutCanceled \<notin> set q"
  shows "dispatch_is_end_stream s' = (Ok (is_end_stream (dispatch_image_core s')) :: ('e, bool) result)"
proof -
  have "\<exists>ob. di_state s' = DimImage (Some ob)"
  proof (cases q)
    case Nil
    with assms show ?thesis
      by (auto simp: dispatch_poll_next_def dispatch_next_polled_def next_poll_def dispatch_image_good_def
          split: dispatch_image_state.splits option.splits if_splits prod.splits)
  next
    case (Cons a as)
    with assms show ?thesis
      by (cases a; auto simp: dispatch_poll_next_def dispatch_next_polled_def next_poll_def
          dispatch_image_good_def void_next once_next
          split: dispatch_image_state.splits option.splits if_splits prod.splits)
  qed
  then show ?thesis by (auto simp: dispatch_is_end_stream_def dispatch_image_core_def)
qed

text \<open>
  C33: The same for a \<^verbatim>\<open>DispatchBodyImage\<close> on a thread with a \<^verbatim>\<open>DispatchPool\<close>: however the dispatched
  operations are scheduled, a finished stream has given the items and the end of the plain one,
  and \<^verbatim>\<open>is_end_stream\<close> then agrees and does not panic.
\<close>
theorem dispatch_stream_refines:
  assumes "FutCanceled \<notin> set q"
    and "collect (dispatch_poll_next fs B chk dbg cio True) n (dispatch_image_new fs b tune) q =
      Some (items, Ready e, (k', q'))"
  shows "\<exists>m s'. collect (plain_next fs B chk) m (async_image_new fs lenient b tune) () =
      Some (items, Ready e, (s', ())) \<and>
    dispatch_is_end_stream k' = (Ok (is_end_stream s') :: ('e, bool) result)"
proof -
  have g: "dispatch_image_good chk (dispatch_image_new fs b tune)" by simp
  obtain m where "collect (plain_next fs B chk) m (async_image_new fs lenient b tune) () =
      Some (items, Ready e, (dispatch_image_core k', ()))"
    using polling_stream.collect_refines [OF dispatch_polling g assms] by auto
  moreover have "dispatch_is_end_stream k' = (Ok (is_end_stream (dispatch_image_core k')) :: ('e, bool) result)"
    using polling_stream.collect_last [OF dispatch_polling g assms] dispatch_settled by blast
  ultimately show ?thesis by blast
qed

theorem dispatch_stream_refines_witness:
  "\<exists>n items k' q' m s'.
    collect (dispatch_poll_next cursor_olio output_bytes True True (OtherIo 0) True) n
      (dispatch_image_new cursor_olio sample_file_image (sample_stream_tune (Dispatch :: unit blocking_policy)))
      (FutPending # replicate 4 FutReady) = Some (items, Ready None, (k', q')) \<and>
    collect (plain_next cursor_olio output_bytes True) m
      (async_image_new cursor_olio lenient sample_file_image
        (sample_stream_tune (Dispatch :: unit blocking_policy))) () =
      Some (items, Ready None, (s', ())) \<and>
    concat items = ''abc'' \<and> dispatch_is_end_stream k' = (Ok (is_end_stream s') :: (unit, bool) result)"
proof -
  have q: "FutCanceled \<notin> set (FutPending # replicate 4 FutReady)" by simp
  have good: "dispatch_image_good True
      (dispatch_image_new cursor_olio sample_file_image (sample_stream_tune (Dispatch :: unit blocking_policy)))"
    by simp
  obtain n items k' q' where run:
    "collect (dispatch_poll_next cursor_olio output_bytes True True (OtherIo 0) True) n
      (dispatch_image_new cursor_olio sample_file_image (sample_stream_tune (Dispatch :: unit blocking_policy)))
      (FutPending # replicate 4 FutReady) = Some (items, Ready None, (k', q'))"
    and e: "concat (map (ob_chunk output_bytes) items) = ''abc''"
    using cursor_collects [OF out_bytes.output_bufs_axioms
        dispatch_polling [of cursor_olio output_bytes True True "OtherIo 0"] good new_images(2) q]
    by (auto simp: sample_file_image_ok(2))
  then have "concat items = ''abc''" by (simp add: output_bytes_def)
  then show ?thesis using dispatch_stream_refines [OF q run, where 'e = unit] run by blast
qed

text \<open>
  C34: Neither waiting stream gets stuck: if the schedule cancels nothing and grants more permits than
  the image has chunks in RAM, or bytes elsewhere, then some number of polls reads the stream to its
  end, and unless memory advice fails the items are the bytes of the image.
\<close>
theorem waiting_streams_complete:
  assumes "olio_files fs p_bytes p_patience s_bytes s_off s_patience g_bytes g_off g_patience"
    and "output_bufs B" and "image_ok fs s_bytes s_off b" and "0 < buffer_size_fs (image tune)"
    and "FutCanceled \<notin> set q"
    and "(case bi_state b of Ram v \<Rightarrow> length v | _ \<Rightarrow> bi_len b) < length (filter ((=) FutReady) q)"
    and "\<And>m a. mh_advise fs m a = None"
  shows "(\<forall>sem. blocking_policy tune = Permit sem \<longrightarrow>
      (\<exists>n items kq. collect (permit_poll_next fs B chk dbg cio) n (permit_image_new fs b tune) q =
        Some (items, Ready None, kq) \<and> concat (map (ob_chunk B) items) = image_bytes s_bytes b)) \<and>
    (\<exists>n items kq. collect (dispatch_poll_next fs B chk dbg cio True) n (dispatch_image_new fs b tune) q =
      Some (items, Ready None, kq) \<and> concat (map (ob_chunk B) items) = image_bytes s_bytes b)"
proof (intro conjI allI impI)
  note w = waiting_collects [OF assms(1-4) _ _ _ assms(5,6)]
  show "\<exists>n items kq. collect (permit_poll_next fs B chk dbg cio) n (permit_image_new fs b tune) q =
      Some (items, Ready None, kq) \<and> concat (map (ob_chunk B) items) = image_bytes s_bytes b"
    if "blocking_policy tune = Permit sem" for sem
  proof -
    have "permit_image_good chk (permit_image_new fs b tune)"
      using that by (simp add: blocking_semaphore_def)
    from w [OF permit_polling this new_images(1)] assms(7) show ?thesis
      by (metis not_None_eq option.distinct(1))
  qed
  from w [OF dispatch_polling new_images(4) new_images(2)] assms(7)
  show "\<exists>n items kq. collect (dispatch_poll_next fs B chk dbg cio True) n (dispatch_image_new fs b tune) q =
      Some (items, Ready None, kq) \<and> concat (map (ob_chunk B) items) = image_bytes s_bytes b"
    by (metis not_None_eq option.distinct(1))
qed

theorem waiting_streams_complete_witness:
  "\<exists>n items kq.
    collect (dispatch_poll_next cursor_olio output_bytes True True (OtherIo 0) True) n
      (dispatch_image_new cursor_olio sample_file_image (sample_stream_tune (Dispatch :: unit blocking_policy)))
      (FutPending # replicate 4 FutReady) = Some (items, Ready None, kq) \<and> concat items = ''abc''"
proof -
  have q: "FutCanceled \<notin> set (FutPending # replicate 4 FutReady)" by simp
  from waiting_streams_complete [OF cursors.olio_files_axioms out_bytes.output_bufs_axioms
      sample_file_image_ok(1) sample_stream_tune_sel(1) q, of Dispatch True True "OtherIo 0"]
  show ?thesis by (simp add: output_bytes_def sample_file_image_ok(2))
qed

text \<open>
  The length given to \<^verbatim>\<open>from_file\<close> need not be the file's. A stream over such an image gives the
  file's bytes up to that length; when the file is shorter, the stream still ends, with no error,
  and only \<^verbatim>\<open>is_end_stream\<close>, which stays false, tells that bytes are missing.
\<close>
theorem file_stream_any_length:
  assumes "olio_files fs p_bytes p_patience s_bytes s_off s_patience g_bytes g_off g_patience"
    and "output_bufs B" and "0 < len" and "0 < buffer_size_fs (image tune)"
    and "\<And>m a. mh_advise fs m a = None"
  shows "\<exists>n items s'.
    collect (plain_next fs B chk) n (async_image_new fs lenient (image_from_file f len) tune) () =
      Some (items, Ready None, (s', ())) \<and>
    concat (map (ob_chunk B) items) = take len (content f) \<and>
    (is_end_stream s' \<longleftrightarrow> len \<le> length (content f))"
proof -
  have str: "image_streams fs p_bytes p_patience s_bytes s_off s_patience g_bytes g_off g_patience B"
    using assms(1,2) by (rule image_streams.intro)
  let ?s = "async_image_new fs lenient (image_from_file f len) tune"
  note new = image_streams.file_stream [OF str assms(3,4), of f]
  have len: "ai_len ?s = len" "ai_consumed ?s = 0"
    using assms(3) by (simp_all add: async_image_new_def image_from_file_def)
  obtain items s' where "collect (plain_next fs B chk) (Suc (image_streams.stream_polls s_bytes s_off ?s))
      ?s () = Some (items, Ready None, (s', ()))"
    "concat (map (ob_chunk B) items) = take len (content f)"
    "ai_consumed s' = length (take len (content f))" "ai_len s' = len"
    using image_streams.plain_collect [OF str new(1), of chk] assms(5)
    by (auto simp: new(2) len split: option.splits)
  then show ?thesis
    by (intro exI [of _ "Suc (image_streams.stream_polls s_bytes s_off ?s)"] exI [of _ items]
        exI [of _ s']) (auto simp: is_end_stream_def)
qed

theorem file_stream_any_length_witness:
  "\<exists>n items s'.
    collect (plain_next cursor_olio output_bytes True) n
      (async_image_new cursor_olio lenient (image_from_file \<lparr>content = ''abc'', fpos = 0\<rparr> 5)
        (sample_stream_tune (Direct :: unit blocking_policy))) () =
      Some (items, Ready None, (s', ())) \<and> concat items = ''abc'' \<and> \<not> is_end_stream s'"
  using file_stream_any_length [OF cursors.olio_files_axioms out_bytes.output_bufs_axioms, of 5
      "sample_stream_tune (Direct :: unit blocking_policy)" True "\<lparr>content = ''abc'', fpos = 0\<rparr>"]
  by (simp add: output_bytes_def)

end
