(* ===== verification/Read_Guard.thy ===== *)
theory Read_Guard
  imports Barc_Read
begin

text \<open>
  Readers that behave only in some of their states, as a decoder does that stands in an intact
  stream. \<open>guarded\<close> is such a reader made harmless in its other states: the lemmas of the
  libraries on sources apply to it, and every loop of \<open>Image_Read\<close> and \<open>Barc_Read\<close> that
  starts in a good state and returns with the guarded reader returns the same with the reader
  itself.
\<close>

definition guarded :: "('r \<Rightarrow> bool) \<Rightarrow> 'r reader \<Rightarrow> 'r reader" where
  "guarded sound rd r k = (if sound r then rd r k else (Inr [], r))"

lemma guarded_sound [simp]: "sound r \<Longrightarrow> guarded sound rd r k = rd r k"
  by (simp add: guarded_def)

locale sound_reader =
  fixes rd :: "'r reader" and sound :: "'r \<Rightarrow> bool"
  assumes keeps: "sound r \<Longrightarrow> rd r k = (v, r') \<Longrightarrow> sound r'"
begin

abbreviation "grd \<equiv> guarded sound rd"

text \<open>What is read in a good state ends in a good state, and the guard was not needed.\<close>

definition same_run :: "('e, 'a, 'r) outcome \<Rightarrow> ('e, 'a, 'r) outcome \<Rightarrow> bool" where
  "same_run m m' \<longleftrightarrow> (\<forall>x r. m = Some (x, r) \<longrightarrow> m' = Some (x, r) \<and> sound r)"

definition same_run_io :: "('e, 'a, 'r \<times> io_script) outcome \<Rightarrow> ('e, 'a, 'r \<times> io_script) outcome \<Rightarrow> bool" where
  "same_run_io m m' \<longleftrightarrow> (\<forall>x r w. m = Some (x, (r, w)) \<longrightarrow> m' = Some (x, (r, w)) \<and> sound r)"

lemma same_run_refl: "sound r \<Longrightarrow> same_run (Some (x, r)) (Some (x, r))"
  by (simp add: same_run_def)

lemma same_run_io_refl: "sound r \<Longrightarrow> same_run_io (Some (x, (r, w))) (Some (x, (r, w)))"
  by (simp add: same_run_io_def)

lemma same_run_bind:
  assumes "same_run m m'" and "\<And>a r. sound r \<Longrightarrow> same_run (f a r) (f' a r)"
  shows "same_run (bindO m f) (bindO m' f')"
  using assms by (cases "(m, f)" rule: bindO.cases) (auto simp: same_run_def)

lemma same_run_io_bind:
  assumes "same_run_io m m'" and "\<And>a r w. sound r \<Longrightarrow> same_run_io (f a (r, w)) (f' a (r, w))"
  shows "same_run_io (bindO m f) (bindO m' f')"
  using assms by (cases "(m, f)" rule: bindO.cases) (auto simp: same_run_io_def)

lemma same_run_map_err: "same_run m m' \<Longrightarrow> same_run (map_errO g m) (map_errO g m')"
  by (cases "(g, m)" rule: map_errO.cases) (auto simp: same_run_def)

lemma same_run_io_map_err: "same_run_io m m' \<Longrightarrow> same_run_io (map_errO g m) (map_errO g m')"
  by (cases "(g, m)" rule: map_errO.cases) (auto simp: same_run_io_def)

lemma same_run_lift: "same_run m m' \<Longrightarrow> same_run_io (lift_io m w) (lift_io m' w)"
  by (auto simp: same_run_def same_run_io_def lift_io_def split: option.splits)

lemma read_exact_loop_guard:
  "sound r \<Longrightarrow> same_run (read_exact_loop grd acc r k) (read_exact_loop rd acc r k)"
proof -
  have "rd0 = grd \<longrightarrow> sound r \<longrightarrow> read_exact_loop rd acc r k = Some y \<and> sound (snd y)"
    if "read_exact_loop rd0 acc r k = Some y" for rd0 y
    using _ that
  proof (rule read_exact_loop.raw_induct [where P = "\<lambda>rd0 acc r k y.
      rd0 = grd \<longrightarrow> sound r \<longrightarrow> read_exact_loop rd acc r k = Some y \<and> sound (snd y)"])
    fix loop rd0 acc r k y
    assume IH: "\<And>rd0 acc r k y. loop rd0 acc r k = Some y \<Longrightarrow>
        rd0 = grd \<longrightarrow> sound r \<longrightarrow> read_exact_loop rd acc r k = Some y \<and> sound (snd y)"
      and run: "(if k = 0 then Some (Ok acc, r)
        else case rd0 r k of
          (Inr bs, r') \<Rightarrow>
            if bs = [] then Some (Err UnexpectedEof, r') else loop rd0 (acc @ bs) r' (k - length bs)
        | (Inl e, r') \<Rightarrow> if e = Interrupted then loop rd0 acc r' k else Some (Err e, r')) = Some y"
    show "rd0 = grd \<longrightarrow> sound r \<longrightarrow> read_exact_loop rd acc r k = Some y \<and> sound (snd y)"
    proof (intro impI)
      assume g: "rd0 = grd" and r: "sound r"
      obtain v r' where v: "rd r k = (v, r')" by (rule prod.exhaust)
      note r' = keeps [OF r v]
      show "read_exact_loop rd acc r k = Some y \<and> sound (snd y)"
        using run IH [of rd0 _ r'] r' g v r
        by (subst read_exact_loop.simps) (auto split: sum.splits if_splits)
    qed
  qed
  then show "sound r \<Longrightarrow> ?thesis" by (fastforce simp: same_run_def)
qed

lemma fill_buf_guard:
  "sound r \<Longrightarrow> same_run (fill_buf bm grd buf r) (fill_buf bm rd buf r)"
proof -
  have "rd0 = grd \<longrightarrow> sound r \<longrightarrow> fill_buf bm rd buf r = Some y \<and> sound (snd y)"
    if "fill_buf bm rd0 buf r = Some y" for rd0 y
    using _ that
  proof (rule fill_buf.raw_induct [where P = "\<lambda>bm rd0 buf r y.
      rd0 = grd \<longrightarrow> sound r \<longrightarrow> fill_buf bm rd buf r = Some y \<and> sound (snd y)"])
    fix loop and bm :: "'b bytes_mut" and rd0 buf r y
    assume IH: "\<And>bm rd0 buf r y. loop bm rd0 buf r = Some y \<Longrightarrow>
        rd0 = grd \<longrightarrow> sound r \<longrightarrow> fill_buf bm rd buf r = Some y \<and> sound (snd y)"
      and run: "(case bm_chunk bm buf of (k, buf) \<Rightarrow>
        (case rd0 r k of
           (Inr bs, r') \<Rightarrow>
             if bs = [] then Some (Ok buf, r')
             else if bm_remaining bm (bm_advance bm buf bs) < 1024
             then Some (Ok (bm_advance bm buf bs), r')
             else loop bm rd0 (bm_advance bm buf bs) r'
         | (Inl e, r') \<Rightarrow>
             if e = Interrupted then loop bm rd0 buf r' else Some (Err (BodyIo e), r'))) = Some y"
    obtain k buf' where k: "bm_chunk bm buf = (k, buf')" by (rule prod.exhaust)
    show "rd0 = grd \<longrightarrow> sound r \<longrightarrow> fill_buf bm rd buf r = Some y \<and> sound (snd y)"
    proof (intro impI)
      assume g: "rd0 = grd" and r: "sound r"
      obtain v r' where v: "rd r k = (v, r')" by (rule prod.exhaust)
      note r' = keeps [OF r v]
      have more: "fill_buf bm rd b r' = Some y \<and> sound (snd y)" if "loop bm grd b r' = Some y" for b
        using IH [OF that] r' by simp
      show "fill_buf bm rd buf r = Some y \<and> sound (snd y)"
        using run more r' g v r k
        by (subst fill_buf.simps) (auto split: sum.splits if_splits)
    qed
  qed
  then show "sound r \<Longrightarrow> ?thesis" by (fastforce simp: same_run_def)
qed

lemma read_fs_loop_guard:
  "sound r \<Longrightarrow> same_run_io (read_fs_loop bm grd tune sz buf body r w)
     (read_fs_loop bm rd tune sz buf body r w)"
proof -
  have "rd0 = grd \<longrightarrow> sound r \<longrightarrow>
      read_fs_loop bm rd tune sz buf body r w = Some y \<and> sound (fst (snd y))"
    if "read_fs_loop bm rd0 tune sz buf body r w = Some y" for rd0 y
    using _ that
  proof (rule read_fs_loop.raw_induct [where P = "\<lambda>bm rd0 tune sz buf body r w y.
      rd0 = grd \<longrightarrow> sound r \<longrightarrow>
        read_fs_loop bm rd tune sz buf body r w = Some y \<and> sound (fst (snd y))"])
    fix loop and bm :: "'b bytes_mut" and rd0 tune sz buf body r w
      and y :: "(body_error, 's body_image) result \<times> 'r \<times> io_script"
    assume IH: "\<And>bm rd0 tune sz buf body r w y. loop bm rd0 tune sz buf body r w = Some y \<Longrightarrow>
        rd0 = grd \<longrightarrow> sound r \<longrightarrow>
          read_fs_loop bm rd tune sz buf body r w = Some y \<and> sound (fst (snd y))"
      and run: "(case bm_chunk bm buf of (k, buf) \<Rightarrow>
        (case rd0 r k of
           (Inr bs, r') \<Rightarrow>
             if bs = [] then (case prepare body w of (x, w') \<Rightarrow> Some (x, (r', w')))
             else if max_body tune < sz + length bs
             then Some (Err (BodyTooLong (sz + length bs)), (r', w))
             else (case sink_write_all body (bm_bytes bm (bm_advance bm buf bs)) w of
                 (Inl (Panic m), (body', w')) \<Rightarrow> Some (panic m, (r', w'))
               | (Inl (Fail e), (body', w')) \<Rightarrow> Some (Err (BodyIo e), (r', w'))
               | (Inr u, (body', w')) \<Rightarrow>
                   loop bm rd0 tune (sz + length bs) (bm_clear bm (bm_advance bm buf bs)) body' r' w')
         | (Inl e, r') \<Rightarrow>
             if e = Interrupted then loop bm rd0 tune sz buf body r' w
             else Some (Err (BodyIo e), (r', w)))) = Some y"
    obtain k buf' where k: "bm_chunk bm buf = (k, buf')" by (rule prod.exhaust)
    show "rd0 = grd \<longrightarrow> sound r \<longrightarrow>
        read_fs_loop bm rd tune sz buf body r w = Some y \<and> sound (fst (snd y))"
    proof (intro impI)
      assume g: "rd0 = grd" and r: "sound r"
      obtain v r' where v: "rd r k = (v, r')" by (rule prod.exhaust)
      note r' = keeps [OF r v]
      have more: "read_fs_loop bm rd tune n b i r' w' = Some y \<and> sound (fst (snd y))"
        if "loop bm grd tune n b i r' w' = Some y" for n b i w'
        using IH [OF that] r' by simp
      show "read_fs_loop bm rd tune sz buf body r w = Some y \<and> sound (fst (snd y))"
        using run more r' g v r k
        by (subst read_fs_loop.simps)
          (auto split: sum.splits if_splits prod.splits fault.splits)
    qed
  qed
  then show "sound r \<Longrightarrow> ?thesis" by (fastforce simp: same_run_io_def)
qed

lemma read_body_fs_loop_guard:
  "sound r \<Longrightarrow> same_run_io (read_body_fs_loop bm grd len buf body r w)
     (read_body_fs_loop bm rd len buf body r w)"
proof -
  have "rd0 = grd \<longrightarrow> sound r \<longrightarrow>
      read_body_fs_loop bm rd len buf body r w = Some y \<and> sound (fst (snd y))"
    if "read_body_fs_loop bm rd0 len buf body r w = Some y" for rd0 y
    using _ that
  proof (rule read_body_fs_loop.raw_induct [where P = "\<lambda>bm rd0 len buf body r w y.
      rd0 = grd \<longrightarrow> sound r \<longrightarrow>
        read_body_fs_loop bm rd len buf body r w = Some y \<and> sound (fst (snd y))"])
    fix loop and bm :: "'b bytes_mut" and rd0 len buf body r w
      and y :: "(barc_error, 's body_image) result \<times> 'r \<times> io_script"
    assume IH: "\<And>bm rd0 len buf body r w y. loop bm rd0 len buf body r w = Some y \<Longrightarrow>
        rd0 = grd \<longrightarrow> sound r \<longrightarrow>
          read_body_fs_loop bm rd len buf body r w = Some y \<and> sound (fst (snd y))"
      and run: "(case bm_chunk bm buf of (k, buf) \<Rightarrow>
        let lim = min k (len - bs_len body) in
        if \<not> 0 < lim then Some (panic ''assertion failed: limit > 0'', (r, w))
        else (case rd0 r lim of
           (Inl e, r') \<Rightarrow>
             if e = Interrupted then loop bm rd0 len buf body r' w
             else Some (Err (Io e), (r', w))
         | (Inr bs, r') \<Rightarrow>
             if bs = []
             then (case prepare body w of (x, w') \<Rightarrow> Some (map_err Body x, (r', w')))
             else (case sink_write_all body (bm_bytes bm (bm_advance bm buf bs)) w of
                 (Inl x, (body', w')) \<Rightarrow>
                   Some (Inl (case x of Panic m \<Rightarrow> Panic m | Fail e \<Rightarrow> Fail (Io e)), (r', w'))
               | (Inr u, (body', w')) \<Rightarrow>
                   if bs_len body' < len
                   then loop bm rd0 len (bm_clear bm (bm_advance bm buf bs)) body' r' w'
                   else if bs_len body' \<noteq> len
                   then Some (panic ''assertion failed: body.len() == len'', (r', w'))
                   else (case prepare body' w' of (x, w'') \<Rightarrow> Some (map_err Body x, (r', w'')))))) =
          Some y"
    obtain k buf' where k: "bm_chunk bm buf = (k, buf')" by (rule prod.exhaust)
    show "rd0 = grd \<longrightarrow> sound r \<longrightarrow>
        read_body_fs_loop bm rd len buf body r w = Some y \<and> sound (fst (snd y))"
    proof (intro impI)
      assume g: "rd0 = grd" and r: "sound r"
      obtain v r' where v: "rd r (min k (len - bs_len body)) = (v, r')" by (rule prod.exhaust)
      note r' = keeps [OF r v]
      have more: "read_body_fs_loop bm rd len b i r' w' = Some y \<and> sound (fst (snd y))"
        if "loop bm grd len b i r' w' = Some y" for b i w'
        using IH [OF that] r' by simp
      show "read_body_fs_loop bm rd len buf body r w = Some y \<and> sound (fst (snd y))"
        using run more r' g v r k
        by (subst read_body_fs_loop.simps)
          (auto simp: Let_def split: sum.splits if_splits prod.splits)
    qed
  qed
  then show "sound r \<Longrightarrow> ?thesis" by (fastforce simp: same_run_io_def)
qed

lemma read_to_body_fs_guard:
  "sound r \<Longrightarrow> same_run_io (read_to_body_fs bm grd tune body r w) (read_to_body_fs bm rd tune body r w)"
  by (simp add: read_to_body_fs_def read_fs_loop_guard same_run_io_refl)

lemma read_ram_loop_guard:
  "sound r \<Longrightarrow> same_run_io (read_ram_loop bm grd tmp tune sz body r w)
     (read_ram_loop bm rd tmp tune sz body r w)"
proof -
  have "rd0 = grd \<longrightarrow> sound r \<longrightarrow>
      read_ram_loop bm rd tmp tune sz body r w = Some y \<and> sound (fst (snd y))"
    if "read_ram_loop bm rd0 tmp tune sz body r w = Some y" for rd0 y
    using _ that
  proof (rule read_ram_loop.raw_induct [where P = "\<lambda>bm rd0 tmp tune sz body r w y.
      rd0 = grd \<longrightarrow> sound r \<longrightarrow>
        read_ram_loop bm rd tmp tune sz body r w = Some y \<and> sound (fst (snd y))"])
    fix loop and bm :: "'b bytes_mut" and rd0 tmp tune sz body r w
      and y :: "(body_error, 's body_image) result \<times> 'r \<times> io_script"
    assume IH: "\<And>bm rd0 tmp tune sz body r w y. loop bm rd0 tmp tune sz body r w = Some y \<Longrightarrow>
        rd0 = grd \<longrightarrow> sound r \<longrightarrow>
          read_ram_loop bm rd tmp tune sz body r w = Some y \<and> sound (fst (snd y))"
      and run: "(case fill_buf bm rd0 (bm_new bm (buffer_size_ram tune)) r of
        None \<Rightarrow> None
      | Some (Inl x, r') \<Rightarrow> Some (Inl x, (r', w))
      | Some (Inr buf, r') \<Rightarrow>
          (if length (bm_bytes bm buf) = 0
           then (case prepare body w of (x, w') \<Rightarrow> Some (x, (r', w')))
           else if max_body tune < sz + length (bm_bytes bm buf)
           then Some (Err (BodyTooLong (sz + length (bm_bytes bm buf))), (r', w))
           else if max_body_ram tune < sz + length (bm_bytes bm buf)
           then (case sink_write_back tmp (temp_dir tune) body w of
               (Inl x, (body', w')) \<Rightarrow> Some (Inl x, (r', w'))
             | (Inr u, (body', w')) \<Rightarrow>
                 (case sink_write_all body' (bm_bytes bm buf) w' of
                    (Inl (Panic m), (body'', w'')) \<Rightarrow> Some (panic m, (r', w''))
                  | (Inl (Fail e), (body'', w'')) \<Rightarrow> Some (Err (BodyIo e), (r', w''))
                  | (Inr u, (body'', w'')) \<Rightarrow> read_to_body_fs bm rd0 tune body'' r' w''))
           else (case sink_push body (bm_bytes bm buf) w of
               (Inl (Panic m), (body', w')) \<Rightarrow> Some (panic m, (r', w'))
             | (Inl (Fail e), (body', w')) \<Rightarrow> Some (Err (BodyIo e), (r', w'))
             | (Inr u, (body', w')) \<Rightarrow>
                 loop bm rd0 tmp tune (sz + length (bm_bytes bm buf)) body' r' w'))) = Some y"
    show "rd0 = grd \<longrightarrow> sound r \<longrightarrow>
        read_ram_loop bm rd tmp tune sz body r w = Some y \<and> sound (fst (snd y))"
    proof (intro impI)
      assume g: "rd0 = grd" and r: "sound r"
      obtain v r' where v: "fill_buf bm grd (bm_new bm (buffer_size_ram tune)) r = Some (v, r')"
        using run g by (auto split: option.splits)
      note fill = fill_buf_guard [OF r, unfolded same_run_def, rule_format, OF v]
      have more: "read_ram_loop bm rd tmp tune n i r' w' = Some y \<and> sound (fst (snd y))"
        if "loop bm grd tmp tune n i r' w' = Some y" for n i w'
        using IH [OF that] fill by simp
      have fs: "read_to_body_fs bm rd tune i r' w' = Some y \<and> sound (fst (snd y))"
        if "read_to_body_fs bm grd tune i r' w' = Some y" for i w'
        using read_to_body_fs_guard [of r' bm tune i w'] fill that
        by (cases y) (auto simp: same_run_io_def)
      show "read_ram_loop bm rd tmp tune sz body r w = Some y \<and> sound (fst (snd y))"
      proof (cases v)
        case (Inl x)
        then show ?thesis using run g v fill by (subst read_ram_loop.simps) auto
      next
        case (Inr b)
        let ?n = "length (bm_bytes bm b)"
        note fill' = fill [unfolded Inr]
        note v' = v [unfolded Inr]
        note run' = run [unfolded g v' option.case sum.case prod.case]
        consider
          (small) "?n = 0 \<or> max_body tune < sz + ?n" | (spill) "\<not> (?n = 0 \<or> max_body tune < sz + ?n)"
            "max_body_ram tune < sz + ?n" | (push) "\<not> (?n = 0 \<or> max_body tune < sz + ?n)"
            "\<not> max_body_ram tune < sz + ?n"
          by blast
        then show ?thesis
        proof cases
          case small
          then show ?thesis
            using run' fill' by (subst read_ram_loop.simps) (auto split: if_splits prod.splits)
        next
          case spill
          obtain x i w' where b1: "sink_write_back tmp (temp_dir tune) body w = (x, (i, w'))"
            by (rule prod_cases3)
          obtain x2 i2 w2 where b2: "sink_write_all i (bm_bytes bm b) w' = (x2, (i2, w2))"
            by (rule prod_cases3)
          show ?thesis
            using run' fill' spill b1 b2 fs [of i2 w2]
            by (subst read_ram_loop.simps; cases x; cases x2)
              (auto split: fault.split fault.split_asm)
        next
          case push
          obtain x i w' where b1: "sink_push body (bm_bytes bm b) w = (x, (i, w'))"
            by (rule prod_cases3)
          show ?thesis
            using run' fill' push b1 more [of _ i w']
            by (subst read_ram_loop.simps; cases x) (auto split: fault.split fault.split_asm)
        qed
      qed
    qed
  qed
  then show "sound r \<Longrightarrow> ?thesis" by (fastforce simp: same_run_io_def)
qed

text \<open>The routines on top of the loops.\<close>

lemma read_into_guard:
  "sound r \<Longrightarrow> same_run (read_into bm grd cap len r) (read_into bm rd cap len r)"
  using read_exact_loop_guard [of r "[]" len]
  by (auto simp: read_into_def read_exact_def same_run_refl
      intro: same_run_bind same_run_map_err split: prod.splits)

lemma read_headers_guard:
  "sound r \<Longrightarrow> same_run (read_headers H bm grd c len r) (read_headers H bm rd c len r)"
  by (auto simp: read_headers_def same_run_refl Let_def intro!: same_run_bind read_into_guard
      split: prod.splits)

lemma read_body_ram_guard:
  "sound r \<Longrightarrow> same_run (read_body_ram bm grd c len r) (read_body_ram bm rd c len r)"
  by (auto simp: read_body_ram_def same_run_refl Let_def intro!: same_run_bind read_into_guard
      split: prod.splits)

lemma read_body_fs_guard:
  "sound r \<Longrightarrow> same_run_io (read_body_fs bm grd tmp tune len r w) (read_body_fs bm rd tmp tune len r w)"
  by (auto simp: read_body_fs_def same_run_io_refl read_body_fs_loop_guard split: prod.splits sum.splits)

lemma read_from_guard:
  "sound r \<Longrightarrow> same_run_io (read_from bm grd tmp tune est r w) (read_from bm rd tmp tune est r w)"
  by (auto simp: read_from_def same_run_io_refl read_to_body_fs_guard read_ram_loop_guard
      split: prod.splits sum.splits)

end

end
