(* ===== verification/Barc_Compressed.thy ===== *)
theory Barc_Compressed
  imports Barc_File Read_Guard
begin

text \<open>
  Compressed records (\<^verbatim>\<open>barc/src/compress.rs\<close> and the compressed branches of
  \<^verbatim>\<open>barc/src/lib.rs\<close>): what the encoders of the \<^emph>\<open>flate2\<close> and \<^emph>\<open>brotli\<close> crates have to promise,
  what their decoders have to, and that then a record written compressed is read back.

  An encoder's promise is stated over two things its state determines: the bytes it has taken, and
  the bytes it has put out. When the \<^verbatim>\<open>finish\<close> of a gzip encoder succeeds, all of its output
  encodes all of its input. A Brotli encoder has no \<^verbatim>\<open>finish\<close>: the wrapper flushes it, and its
  \<^verbatim>\<open>Drop\<close> writes the last block, ignoring failures. So a successful flush promises nothing by itself;
  the output is complete only if no write fails afterwards.

  A decoder promises something only for input that an encoder made: over a slice of the file that
  encodes some bytes it is a source of these bytes, and stays one. Over any other input it may fail
  as it likes.
\<close>

section \<open>The promises\<close>

locale encoder_format =
  appending_encoder en
  for en :: "'z encoder_ops" +
  fixes inp :: "'z \<Rightarrow> bytes" and outp :: "'z \<Rightarrow> bytes"
  assumes new_empty: "inp (en_new en l) = [] \<and> outp (en_new en l) = []"
    and write_output: "en_write en (z, fw) bs = (v, (z', fw')) \<Longrightarrow> at_end fw \<Longrightarrow>
      \<exists>out. content (fst fw') = content (fst fw) @ out \<and> outp z' = outp z @ out"
    and write_input: "en_write en (z, fw) bs = (v, (z', fw')) \<Longrightarrow> at_end fw \<Longrightarrow>
      (case v of Inr u \<Rightarrow> inp z' = inp z @ bs | Inl e \<Rightarrow> \<exists>n. inp z' = inp z @ take n bs)"

locale finishing_encoder =
  encoder_format en inp outp
  for en :: "'z encoder_ops" and inp outp +
  fixes enc :: "bytes \<Rightarrow> bytes \<Rightarrow> bool"
  assumes finish_encodes: "en_finish en (z, fw) = (Inr (), fw') \<Longrightarrow> at_end fw \<Longrightarrow>
      \<exists>out. content (fst fw') = content (fst fw) @ out \<and> enc (outp z @ out) (inp z)"

text \<open>
  \<open>calm\<close> of the script: no operation on the file fails any more. An encoder cannot make the file
  system fail.
\<close>

locale flushing_encoder =
  encoder_format en inp outp
  for en :: "'z encoder_ops" and inp outp +
  fixes enc :: "bytes \<Rightarrow> bytes \<Rightarrow> bool"
  assumes write_keeps_calm: "en_write en (z, fw) bs = (v, (z', fw')) \<Longrightarrow> calm (snd fw) \<Longrightarrow>
      calm (snd fw')"
    and flush_keeps_calm: "en_flush en (z, fw) = (v, (z', fw')) \<Longrightarrow> calm (snd fw) \<Longrightarrow> calm (snd fw')"
    and drop_encodes: "en_flush en (z, fw) = (Inr (), (z', fw1)) \<Longrightarrow> at_end fw \<Longrightarrow> calm (snd fw1) \<Longrightarrow>
      \<exists>out. content (fst (en_drop en (z', fw1))) = content (fst fw) @ out \<and>
        enc (outp z @ out) (inp z)"

locale decoder_format =
  fixes de :: "('s, 'd) decoder_ops" and sound :: "'d \<Rightarrow> bool"
    and d_bytes :: "'d \<Rightarrow> bytes" and d_off d_patience :: "'d \<Rightarrow> nat"
    and s_bytes :: "'s \<Rightarrow> bytes" and s_off :: "'s \<Rightarrow> nat"
    and enc :: "bytes \<Rightarrow> bytes \<Rightarrow> bool"
  assumes new_decodes: "s_off s = 0 \<Longrightarrow> enc (s_bytes s) bs \<Longrightarrow>
      sound (de_new de s n) \<and> d_bytes (de_new de s n) = bs \<and> d_off (de_new de s n) = 0"
    and stays_sound: "sound d \<Longrightarrow> de_read de d k = (v, d') \<Longrightarrow> sound d' \<and> d_bytes d' = d_bytes d"
    and sound_read: "sound d \<Longrightarrow> de_read de d k = (Inr bs, d') \<Longrightarrow>
      d_off d' = d_off d + length bs \<and> d_patience d' \<le> d_patience d \<and>
      length bs \<le> k \<and> bs = take (length bs) (drop (d_off d) (d_bytes d))"
    and sound_eof: "sound d \<Longrightarrow> de_read de d k = (Inr [], d') \<Longrightarrow> 0 < k \<Longrightarrow>
      length (d_bytes d) \<le> d_off d"
    and sound_interrupted: "sound d \<Longrightarrow> de_read de d k = (Inl e, d') \<Longrightarrow>
      e = Interrupted \<and> d_off d' = d_off d \<and> d_patience d' < d_patience d"
begin

lemma keeps_sound: "sound d \<Longrightarrow> de_read de d k = (v, d') \<Longrightarrow> sound d'"
  using stays_sound by blast

text \<open>Guarded, it is a source in the sense of the libraries on reading.\<close>

definition seen_bytes :: "'d \<Rightarrow> bytes" where
  "seen_bytes d = (if sound d then d_bytes d else [])"

lemma guarded_source:
  "steady_source (guarded sound (de_read de)) seen_bytes d_off d_patience"
proof
  fix d k bs d'
  assume "guarded sound (de_read de) d k = (Inr bs, d')"
  then show "seen_bytes d' = seen_bytes d \<and> d_off d' = d_off d + length bs \<and>
      d_patience d' \<le> d_patience d \<and> length bs \<le> k \<and>
      bs = take (length bs) (drop (d_off d) (seen_bytes d))"
    using stays_sound [of d k "Inr bs" d'] sound_read [of d k bs d']
    by (auto simp: guarded_def seen_bytes_def split: if_splits)
next
  fix d k d'
  assume "guarded sound (de_read de) d k = (Inr [], d')" and "0 < k"
  then show "length (seen_bytes d) \<le> d_off d"
    using sound_eof [of d k d'] by (auto simp: guarded_def seen_bytes_def split: if_splits)
next
  fix d k d'
  assume "guarded sound (de_read de) d k = (Inl Interrupted, d')"
  then show "seen_bytes d' = seen_bytes d \<and> d_off d' = d_off d \<and> d_patience d' < d_patience d"
    using stays_sound [of d k "Inl Interrupted" d'] sound_interrupted [of d k Interrupted d']
    by (auto simp: guarded_def seen_bytes_def split: if_splits)
next
  fix d k e d'
  assume "guarded sound (de_read de) d k = (Inl e, d')"
  then show "e = Interrupted"
    using sound_interrupted [of d k e d'] by (auto simp: guarded_def split: if_splits)
qed

end

section \<open>Writing\<close>

fun of_encoder :: "('z \<Rightarrow> bytes) \<Rightarrow> 'z encode_wrapper \<Rightarrow> bytes" where
  "of_encoder f EncPlain = []"
| "of_encoder f (EncGzip z) = f z"
| "of_encoder f (EncBrotli z) = f z"

locale record_encoders =
  gze: finishing_encoder "gz cs" inp outp "enc Gzip" +
  bre: flushing_encoder "br cs" inp outp "enc Brotli"
  for cs :: "'z codecs" and inp outp and enc :: "compression \<Rightarrow> bytes \<Rightarrow> bytes \<Rightarrow> bool"

sublocale record_encoders \<subseteq> appending_codecs cs
  by (intro appending_codecs.intro gze.appending_encoder_axioms bre.appending_encoder_axioms)

context record_encoders
begin

text \<open>
  A wrapper of mode \<open>k\<close> that has put out all that follows \<open>base\<close> in the file; with Brotli, on a
  file system without failures.
\<close>

definition coding :: "compression \<Rightarrow> bytes \<Rightarrow> 'z encode_wrapper \<times> file_world \<Rightarrow> bool" where
  "coding k base efw \<longleftrightarrow> encode_mode (fst efw) = k \<and> at_end (snd efw) \<and>
     (k = Brotli \<longrightarrow> calm (snd (snd efw))) \<and>
     content (fst (snd efw)) = base @ of_encoder outp (fst efw)"

lemma extends_at_end: "extends fw fw' \<Longrightarrow> at_end fw \<Longrightarrow> at_end fw'"
  by (simp add: extends_def)

lemma encode_write_coding:
  assumes "encode_write cs (e, fw) bs = (v, (e', fw'))" and "coding k base (e, fw)" and "k \<noteq> Plain"
  shows "coding k base (e', fw') \<and>
    (case v of Inr u \<Rightarrow> of_encoder inp e' = of_encoder inp e @ bs
     | Inl x \<Rightarrow> \<exists>n. of_encoder inp e' = of_encoder inp e @ take n bs)"
proof -
  have fw: "at_end fw" "encode_mode e = k" "content (fst fw) = base @ of_encoder outp e"
    "k = Brotli \<longrightarrow> calm (snd fw)"
    using assms(2) by (simp_all add: coding_def)
  have end': "at_end fw'"
    using extends_at_end [OF encode_write_extends [OF assms(1)] fw(1)] .
  show ?thesis
  proof (cases e)
    case EncPlain
    then show ?thesis using fw(2) assms(3) by simp
  next
    case (EncGzip z)
    then obtain z' where "en_write (gz cs) (z, fw) bs = (v, (z', fw'))" "e' = EncGzip z'"
      using assms(1) by (auto split: prod.splits)
    then show ?thesis
      using gze.write_output [of z fw bs v z' fw'] gze.write_input [of z fw bs v z' fw'] fw end' EncGzip
      by (auto simp: coding_def split: sum.splits)
  next
    case (EncBrotli z)
    then obtain z' where "en_write (br cs) (z, fw) bs = (v, (z', fw'))" "e' = EncBrotli z'"
      using assms(1) by (auto split: prod.splits)
    then show ?thesis
      using bre.write_output [of z fw bs v z' fw'] bre.write_input [of z fw bs v z' fw']
        bre.write_keeps_calm [of z fw bs v z' fw'] fw end' EncBrotli
      by (auto simp: coding_def split: sum.splits)
  qed
qed

lemma coding_sink:
  assumes "k \<noteq> Plain"
  shows "write_sink (encode_write cs) (coding k base) (\<lambda>efw. of_encoder inp (fst efw))"
proof
  fix efw bs u efw'
  assume "encode_write cs efw bs = (Inr u, efw')" and "coding k base efw"
  then show "coding k base efw' \<and> of_encoder inp (fst efw') = of_encoder inp (fst efw) @ bs"
    using encode_write_coding [of "fst efw" "snd efw" bs "Inr u" "fst efw'" "snd efw'" k base] assms
    by simp
next
  fix efw bs e efw'
  assume "encode_write cs efw bs = (Inl e, efw')" and "coding k base efw"
  then show "coding k base efw' \<and>
      (\<exists>n. of_encoder inp (fst efw') = of_encoder inp (fst efw) @ take n bs)"
    using encode_write_coding [of "fst efw" "snd efw" bs "Inl e" "fst efw'" "snd efw'" k base] assms
    by simp
qed

lemma encode_finish_coding:
  assumes "encode_finish cs (e, fw) = (Inr (), fw')" and "coding k base (e, fw)" and "k \<noteq> Plain"
  shows "\<exists>out. content (fst fw') = base @ out \<and> enc k out (of_encoder inp e)"
proof -
  have fw: "at_end fw" "encode_mode e = k" "content (fst fw) = base @ of_encoder outp e"
    "k = Brotli \<longrightarrow> calm (snd fw)"
    using assms(2) by (simp_all add: coding_def)
  show ?thesis
  proof (cases e)
    case EncPlain
    then show ?thesis using fw(2) assms(3) by simp
  next
    case (EncGzip z)
    then show ?thesis
      using gze.finish_encodes [of z fw fw'] assms(1) fw by auto
  next
    case (EncBrotli z)
    then obtain z1 fw1 where flush: "en_flush (br cs) (z, fw) = (Inr (), (z1, fw1))"
      "fw' = en_drop (br cs) (z1, fw1)"
      using assms(1) by (auto split: prod.splits)
    have "calm (snd fw1)" using bre.flush_keeps_calm [OF flush(1)] fw EncBrotli by simp
    then show ?thesis
      using bre.drop_encodes [OF flush(1) fw(1)] flush(2) fw EncBrotli by auto
  qed
qed

lemma wrap_encoder_coding:
  assumes "at_end fw" and "wrap_encoder H cs st rec = e" and "encode_mode e \<noteq> Plain"
    and "encode_mode e = Brotli \<longrightarrow> calm (snd fw)"
  shows "coding (encode_mode e) (content (fst fw)) (e, fw)" and "of_encoder inp e = []"
  using assms gze.new_empty bre.new_empty
  by (auto simp: wrap_encoder_cases coding_def split: strategy.splits if_splits)

end

locale compressed_writer =
  record_writer fs p_bytes p_patience s_bytes s_off s_patience g_bytes g_off g_patience cs +
  record_encoders cs inp outp enc
  for fs :: "('p, 's, 'g) olio" and p_bytes p_patience s_bytes s_off s_patience
    and g_bytes g_off g_patience and cs :: "'z codecs" and inp outp enc
begin

lemma write_record_coded:
  assumes k: "encode_mode (wrap_encoder H cs st rec) = k" "k \<noteq> Plain" and "at_end fw"
    and calm: "k = Brotli \<longrightarrow> calm (snd fw)"
    and ok: "im_ok (r_req_body rec)" "im_ok (r_res_body rec)"
    and w: "write_record H fs cs st rec fw = Some (Ok h, fw')"
  shows "h = payload_head H s_bytes k rec \<and>
    (\<exists>out. content (fst fw') = content (fst fw) @ out \<and> enc k out (record_payload H s_bytes False rec))"
proof -
  let ?e = "wrap_encoder H cs st rec"
  have e: "coding k (content (fst fw)) (?e, fw)" "of_encoder inp ?e = []"
    using wrap_encoder_coding [OF assms(3) refl, of H st rec] k calm by simp_all
  obtain e' fw2 where parts: "write_parts H fs (encode_write cs) k rec (?e, fw) = Some (Ok h, (e', fw2))"
    and fin: "encode_finish cs (e', fw2) = (Inr (), fw')"
    using w k by (auto simp: write_record_def Let_def split: option.splits sum.splits prod.splits)
  have out: "coding k (content (fst fw)) (e', fw2)" "h = payload_head H s_bytes k rec"
    "of_encoder inp e' = record_payload H s_bytes False rec"
    using write_parts_emits [OF coding_sink [OF k(2)] e(1) ok, of H k] parts k(2) e(2)
    by (auto simp: emitsO_def dest: emits_good)
  show ?thesis
    using encode_finish_coding [OF fin out(1) k(2)] out(2,3) by simp
qed

text \<open>The head of a compressed record: the sizes of its parts, the length as it is in the file.\<close>

definition coded_head :: "compression \<Rightarrow> 'h http \<Rightarrow> ('h, 's) barc_record \<Rightarrow> bytes \<Rightarrow> record_head" where
  "coded_head k H rec out = (payload_head H s_bytes k rec)\<lparr>h_len := length out\<rparr>"

lemma barc_write_coded:
  assumes k: "encode_mode (wrap_encoder H cs st rec) = k" "k \<noteq> Plain" "k = Brotli \<longrightarrow> calm w"
    and ok: "im_ok (r_req_body rec)" "im_ok (r_res_body rec)"
    and w: "barc_write H fs cs st rec (f, w) = Some (Ok start, (f', w'))"
  obtains out where "start = length (content f)" "fpos f' = length (content f')"
    "head_in_range (coded_head k H rec out)" "enc k out (record_payload H s_bytes False rec)"
    "content f' = content f @ head_bytes (coded_head k H rec out) @ out"
proof -
  obtain tail fw1 fw2 h junk where *: "start = length (content f)" "fpos f' = length (content f')"
    "content f' = content f @ tail" "at_end fw1" "write_record H fs cs st rec fw1 = Some (Ok h, fw2)"
    "content (fst fw2) = content (fst fw1) @ junk" "head_in_range (h\<lparr>h_len := length junk\<rparr>)"
    "tail = head_bytes (h\<lparr>h_len := length junk\<rparr>) @ junk" "calm w \<longrightarrow> calm (snd fw1)"
    using barc_write_cases [of H st rec f w] w by auto
  have "k = Brotli \<longrightarrow> calm (snd fw1)" using k(3) *(9) by simp
  then have "h = payload_head H s_bytes k rec" "enc k junk (record_payload H s_bytes False rec)"
    using write_record_coded [OF k(1,2) *(4) _ ok *(5)] *(6) by auto
  then show ?thesis
    using that [of junk] * by (simp add: coded_head_def)
qed

end

section \<open>Reading\<close>

fun of_decoder :: "('d \<Rightarrow> 'a) \<Rightarrow> 'd decode_wrapper \<Rightarrow> 'a" where
  "of_decoder f (DecGzip d) = f d"
| "of_decoder f (DecBrotli d) = f d"

locale record_decoders =
  gzd: decoder_format "gzd ds" sound d_bytes d_off d_patience s_bytes s_off "enc Gzip" +
  brd: decoder_format "brd ds" sound d_bytes d_off d_patience s_bytes s_off "enc Brotli"
  for ds :: "('s, 'd) decoders" and sound d_bytes d_off d_patience s_bytes s_off
    and enc :: "compression \<Rightarrow> bytes \<Rightarrow> bytes \<Rightarrow> bool"

sublocale record_decoders \<subseteq> decoder: sound_reader "decode_read ds" "of_decoder sound"
proof
  fix r k v r'
  assume "of_decoder sound r" and "decode_read ds r k = (v, r')"
  then show "of_decoder sound r'"
    by (cases r) (auto dest: gzd.keeps_sound brd.keeps_sound split: prod.splits)
qed

text \<open>The wrapper around a guarded decoder is the guarded wrapper.\<close>

lemma guarded_decode_read:
  "guarded (of_decoder sound) (decode_read ds) (DecGzip d) k =
     (case guarded sound (de_read (gzd ds)) d k of (v, d') \<Rightarrow> (v, DecGzip d'))"
  "guarded (of_decoder sound) (decode_read ds) (DecBrotli d) k =
     (case guarded sound (de_read (brd ds)) d k of (v, d') \<Rightarrow> (v, DecBrotli d'))"
  by (simp_all add: guarded_def split: prod.splits)

lemma steady_decoder:
  assumes "steady_source (guarded sound (de_read (gzd ds))) bytes off patience"
    and "steady_source (guarded sound (de_read (brd ds))) bytes off patience"
  shows "steady_source (guarded (of_decoder sound) (decode_read ds))
    (of_decoder bytes) (of_decoder off) (of_decoder patience)"
proof -
  note gz = steady_source.axioms(1) [OF assms(1)] and br = steady_source.axioms(1) [OF assms(2)]
  note read_ok = read_source.read_ok [OF gz] read_source.read_ok [OF br]
    and read_eof = read_source.read_eof [OF gz] read_source.read_eof [OF br]
    and interrupted = read_source.read_interrupted [OF gz] read_source.read_interrupted [OF br]
    and no_fail = steady_source.no_fail [OF assms(1)] steady_source.no_fail [OF assms(2)]
  show ?thesis
  proof
    fix r k bs r'
    assume "guarded (of_decoder sound) (decode_read ds) r k = (Inr bs, r')"
    then show "of_decoder bytes r' = of_decoder bytes r \<and> of_decoder off r' = of_decoder off r + length bs \<and>
        of_decoder patience r' \<le> of_decoder patience r \<and>
        length bs \<le> k \<and> bs = take (length bs) (drop (of_decoder off r) (of_decoder bytes r))"
      using read_ok by (cases r) (auto simp: guarded_decode_read split: prod.splits)
  next
    fix r k r'
    assume "guarded (of_decoder sound) (decode_read ds) r k = (Inr [], r')" and "0 < k"
    then show "length (of_decoder bytes r) \<le> of_decoder off r"
      using read_eof by (cases r) (auto simp: guarded_decode_read split: prod.splits)
  next
    fix r k r'
    assume "guarded (of_decoder sound) (decode_read ds) r k = (Inl Interrupted, r')"
    then show "of_decoder bytes r' = of_decoder bytes r \<and> of_decoder off r' = of_decoder off r \<and>
        of_decoder patience r' < of_decoder patience r"
      using interrupted by (cases r) (auto simp: guarded_decode_read split: prod.splits)
  next
    fix r k e r'
    assume "guarded (of_decoder sound) (decode_read ds) r k = (Inl e, r')"
    then show "e = Interrupted"
      using no_fail by (cases r) (auto simp: guarded_decode_read split: prod.splits)
  qed
qed

sublocale record_decoders \<subseteq> decoding:
  steady_source "guarded (of_decoder sound) (decode_read ds)" "of_decoder gzd.seen_bytes"
    "of_decoder d_off" "of_decoder d_patience"
  by (rule steady_decoder [OF gzd.guarded_source brd.guarded_source])

context record_decoders
begin

lemma decode_new_decodes:
  assumes "s_off s = 0" and "enc k (s_bytes s) bs" and "k \<noteq> Plain"
  obtains d where "decode_new ds k s n = Ok d" "of_decoder sound d" "decoding.rest d = bs"
proof (cases k)
  case Gzip
  then show ?thesis
    using that [of "DecGzip (de_new (gzd ds) s n)"] gzd.new_decodes [OF assms(1), of bs n] assms(2)
    by (simp add: decode_new_def decoding.rest_def gzd.seen_bytes_def)
next
  case Brotli
  then show ?thesis
    using that [of "DecBrotli (de_new (brd ds) s n)"] brd.new_decodes [OF assms(1), of bs n] assms(2)
    by (simp add: decode_new_def decoding.rest_def gzd.seen_bytes_def)
qed (use assms(3) in simp)

end


text \<open>A body that is copied to a temporary file: exactly the bytes the head states.\<close>

locale body_files =
  buffered rd stream off patience bm + dir: temp_files tmp
  for rd :: "'r reader" and stream off patience and bm :: "'b bytes_mut" and tmp

sublocale body_files \<subseteq> col: collecting rd stream off patience bm tmp
  by (intro collecting.intro src.read_source_axioms buf.bytes_buf_axioms dir.temp_files_axioms)

context body_files
begin

lemma prepare_quiet:
  assumes "sink_ok body" and "col.quiet w"
  obtains b :: "'s body_image" and w' where "prepare body w = (Ok b, w')"
    "image_holds b (sink_bytes body)" "image_is_ram b = (sink_is_ram body \<or> sink_bytes body = [])"
    "col.quiet w'"
  using prepare_holds [OF assms(1), of w, where 's = 's] assms(2)
  by (auto simp: col.quiet_def split: prod.splits sum.splits)

lemma read_body_fs_loop_ok:
  "bm_bytes bm b = [] \<Longrightarrow> sink_ok body \<Longrightarrow> \<not> sink_is_ram body \<Longrightarrow> src.rest r = todo @ t \<Longrightarrow>
   todo \<noteq> [] \<Longrightarrow> col.quiet w \<Longrightarrow>
     \<exists>(i :: 's body_image) r' w'.
       read_body_fs_loop bm rd (length (sink_bytes body @ todo)) b body r w = Some (Ok i, (r', w')) \<and>
       image_holds i (sink_bytes body @ todo) \<and> src.advanced r (length todo) r' \<and> col.quiet w'"
proof (induction "patience r + length (src.rest r)" arbitrary: b body r todo w rule: less_induct)
  case less
  obtain k b1 where ch: "bm_chunk bm b = (k, b1)" "0 < k" "bm_bytes bm b1 = bm_bytes bm b"
    by (rule buf.chunk_cases)
  have len: "bs_len body = length (sink_bytes body)" using less.prems(2) by (simp add: sink_ok_def)
  let ?lim = "min k (length todo)" and ?len = "length (sink_bytes body @ todo)"
  have lim: "min k (?len - bs_len body) = ?lim" "0 < ?lim"
    using ch(2) less.prems(5) len by auto
  note unfold = read_body_fs_loop.simps [of bm rd ?len b body r w]
  show ?case
  proof (cases rule: src.read_cases [of r ?lim])
    case (interrupted r')
    obtain i :: "'s body_image" and r'' w' where i:
      "read_body_fs_loop bm rd ?len b1 body r' w = Some (Ok i, (r'', w'))"
      "image_holds i (sink_bytes body @ todo)" "src.advanced r' (length todo) r''" "col.quiet w'"
      using less.hyps [of r' b1 body todo w] less.prems interrupted ch by auto
    have "src.advanced r (length todo) r''"
      using src.advanced_trans [OF interrupted(2) i(3)] by simp
    moreover have "read_body_fs_loop bm rd ?len b body r w = Some (Ok i, (r'', w'))"
      unfolding unfold using interrupted(1) ch lim i(1) by (simp add: Let_def)
    ultimately show ?thesis using i(2,4) by blast
  next
    case (eof r')
    then show ?thesis using less.prems(4,5) lim(2) by auto
  next
    case (some c cs r')
    let ?bs = "c # cs" and ?b = "bm_advance bm b1 (c # cs)"
    have b: "bm_bytes bm ?b = ?bs" using ch less.prems(1) by simp
    have n: "length ?bs \<le> length todo" using some(3) by simp
    have todo: "todo = ?bs @ drop (length ?bs) todo" and rest': "src.rest r' = drop (length ?bs) todo @ t"
      using append_eq_prefixD [of todo t ?bs "src.rest r'"] some(4) less.prems(4) n by simp_all
    let ?rest = "drop (length ?bs) todo"
    from less.prems(2) obtain body' w' where wa: "sink_write_all body ?bs w = (Ok (), (body', w'))"
      "sink_ok body'" "sink_bytes body' = sink_bytes body @ ?bs" "\<not> sink_is_ram body'" "col.quiet w'"
      by (cases rule: col.write_all_step [of body ?bs w]) (use less.prems(3,6) in auto)
    have all: "sink_bytes body' @ ?rest = sink_bytes body @ todo"
      using todo wa(3) by simp
    have len': "bs_len body' = length (sink_bytes body')" using wa(2) by (simp add: sink_ok_def)
    have all_len: "length (sink_bytes body') + length ?rest = ?len"
      using arg_cong [OF all, of length] by simp
    show ?thesis
    proof (cases "?rest = []")
      case True
      obtain i :: "'s body_image" and w'' where i: "prepare body' w' = (Ok i, w'')"
        "image_holds i (sink_bytes body')" "col.quiet w''"
        by (rule prepare_quiet [OF wa(2,5)])
      have "read_body_fs_loop bm rd ?len b body r w = Some (Ok i, (r', w''))"
        unfolding unfold using some(1) ch lim b wa(1) i(1) True len' all_len by (simp add: Let_def)
      moreover have "src.advanced r (length todo) r'"
        using some(2) True todo by (metis append_Nil2)
      ultimately show ?thesis
        using i(2,3) all True by (intro exI conjI) simp_all
    next
      case False
      have "patience r' + length (src.rest r') < patience r + length (src.rest r)"
        using some(4) src.advancedD(3) [OF some(2)] by simp
      then obtain i :: "'s body_image" and r'' w'' where i:
        "read_body_fs_loop bm rd ?len (bm_clear bm ?b) body' r' w' = Some (Ok i, (r'', w''))"
        "image_holds i (sink_bytes body @ todo)" "src.advanced r' (length ?rest) r''" "col.quiet w''"
        using less.hyps [of r' "bm_clear bm ?b" body' ?rest w'] wa rest' False
        unfolding all by auto
      have lt: "bs_len body' < ?len" using False len' all_len by (metis length_greater_0_conv less_add_same_cancel1)
      have "read_body_fs_loop bm rd ?len b body r w = Some (Ok i, (r'', w''))"
        unfolding unfold using some(1) ch lim b wa(1) i(1) lt by (simp add: Let_def)
      moreover have "src.advanced r (length todo) r''"
        using src.advanced_trans [OF some(2) i(3)] todo by (metis length_append)
      ultimately show ?thesis using i(2,4) by blast
    qed
  qed
qed

lemma read_body_fs_ok:
  assumes "src.rest r = bs @ t" and "col.quiet w"
  obtains i :: "'s body_image" and r' w' where
    "read_body_fs bm rd tmp tune (length bs) r w = Some (Ok i, (r', w'))"
    "image_holds i bs" "src.advanced r (length bs) r'" "col.quiet w'"
proof (cases "bs = []")
  case True
  then show ?thesis
    using that [of image_empty r w] assms(2)
    by (simp add: read_body_fs_def image_holds_def image_empty_def)
next
  case False
  obtain body w1 where o: "sink_with_fs tmp (temp_dir tune) w = (Ok body, w1)" "sink_ok body"
    "sink_bytes body = []" "\<not> sink_is_ram body" "col.quiet w1"
    by (cases rule: col.with_fs_step [of "temp_dir tune" w]) (use assms(2) in auto)
  have "bm_bytes bm (bm_new bm (buffer_size_fs tune)) = []" by simp
  from read_body_fs_loop_ok [OF this o(2,4) assms(1) False o(5), where 's = 's] show ?thesis
    using that False o(1,3) by (auto simp: read_body_fs_def)
qed

end

section \<open>Written, then read\<close>

locale compressed_store =
  barc_store fs p_bytes p_patience s_bytes s_off s_patience g_bytes g_off g_patience cs bm H +
  compressed_writer fs p_bytes p_patience s_bytes s_off s_patience g_bytes g_off g_patience
    cs inp outp enc +
  record_decoders ds sound d_bytes d_off d_patience s_bytes s_off enc +
  dir: temp_files tmp
  for fs :: "('p, 's, 'g) olio" and p_bytes p_patience s_bytes s_off s_patience
    and g_bytes g_off g_patience and cs :: "'z codecs" and bm :: "'b bytes_mut"
    and H :: "'h http" and inp outp enc and ds :: "('s, 'd) decoders"
    and sound d_bytes d_off d_patience and tmp

sublocale compressed_store \<subseteq> unpack: body_files "guarded (of_decoder sound) (decode_read ds)"
    "of_decoder gzd.seen_bytes" "of_decoder d_off" "of_decoder d_patience" bm tmp
  by (intro body_files.intro buffered.intro decoding.steady_source_axioms bytes_buf_axioms
      dir.temp_files_axioms)

context compressed_store
begin

text \<open>
  What is read with the guarded decoder is read with the decoder itself, which then is still in a
  good state.
\<close>

lemma unguarded:
  "decoder.same_run m m' \<Longrightarrow> m = Some (x, d) \<Longrightarrow> m' = Some (x, d) \<and> of_decoder sound d"
  "decoder.same_run_io n n' \<Longrightarrow> n = Some (y, (d, v)) \<Longrightarrow> n' = Some (y, (d, v)) \<and> of_decoder sound d"
  by (simp_all add: decoder.same_run_def decoder.same_run_io_def)

lemma unpack_headers:
  assumes "of_decoder sound d" and "block_ok H h"
    and "decoding.rest d = headers_out False (hm_iter H h) @ t"
  obtains h' d' where
    "read_headers H bm (decode_read ds) False (length (headers_out False (hm_iter H h))) d = Some (Ok h', d')"
    "same_headers H h' h" "decoding.rest d' = t" "of_decoder sound d'"
proof -
  obtain h' d' where d': "read_headers H bm (guarded (of_decoder sound) (decode_read ds)) False
      (length (headers_out False (hm_iter H h))) d = Some (Ok h', d')"
    "same_headers H h' h" "decoding.advanced d (length (headers_out False (hm_iter H h))) d'"
    by (rule unpack.read_headers_ok [OF http.http_headers_axioms _ assms(3)]) (use assms(2) in simp_all)
  then show ?thesis
    using that [of h' d'] unguarded(1) [OF decoder.read_headers_guard [OF assms(1)] d'(1)]
      decoding.advancedD(4) [OF d'(3)] assms(3) by simp
qed

lemma unpack_body:
  assumes sound: "of_decoder sound d" and rest: "decoding.rest d = bs @ t"
    and quiet: "unpack.col.quiet v"
  obtains b :: "'s body_image" and d' v' where
    "(if length bs \<le> m then lift_io (read_body_ram bm (decode_read ds) False (length bs) d) v
      else read_body_fs bm (decode_read ds) tmp tune (length bs) d v) = Some (Ok b, (d', v'))"
    "image_holds b bs" "decoding.rest d' = t" "unpack.col.quiet v'" "of_decoder sound d'"
proof (cases "length bs \<le> m")
  case True
  let ?rd = "guarded (of_decoder sound) (decode_read ds)"
  have "decoding.rest d = body_out False bs @ t" by (simp add: rest body_out_def)
  from unpack.read_body_ram_ok [OF this] obtain b :: "'s body_image" and d' where d':
    "read_body_ram bm ?rd False (length (body_out False bs)) d = Some (Ok b, d')"
    "image_holds b bs" "decoding.advanced d (length (body_out False bs)) d'"
    by blast
  then show ?thesis
    using that [of b d' v] unguarded(1) [OF decoder.read_body_ram_guard [OF sound] d'(1)]
      decoding.advancedD(4) [OF d'(3)] True quiet rest
    by (simp add: lift_io_def body_out_def)
next
  case False
  obtain b :: "'s body_image" and d' v' where d':
    "read_body_fs bm (guarded (of_decoder sound) (decode_read ds)) tmp tune (length bs) d v =
       Some (Ok b, (d', v'))"
    "image_holds b bs" "decoding.advanced d (length bs) d'" "unpack.col.quiet v'"
    by (rule unpack.read_body_fs_ok [OF rest quiet])
  then show ?thesis
    using that [of b d' v'] unguarded(2) [OF decoder.read_body_fs_guard [OF sound] d'(1)]
      decoding.advancedD(4) [OF d'(3)] False rest by simp
qed

lemma unpack_rest:
  assumes sound: "of_decoder sound d"
    and "length (decoding.rest d) \<le> max_body tune" and "unpack.col.quiet v"
  obtains b :: "'s body_image" and d' v' where
    "read_from bm (decode_read ds) tmp tune est d v = Some (Ok b, (d', v'))"
    "image_holds b (decoding.rest d)"
proof -
  obtain x :: "(body_error, 's body_image) result" and d' v'
    where x: "read_from bm (guarded (of_decoder sound) (decode_read ds)) tmp tune est d v = Some (x, (d', v'))"
    "if max_body_ram tune < est
     then unpack.col.collects tune (max_body tune) 0 (decoding.rest d) v x
     else unpack.col.collects tune (unpack.col.ram_limit tune (length (decoding.rest d)))
       (max_body_ram tune) (decoding.rest d) v x"
    by (rule unpack.col.read_from_cases)
  have "\<not> unpack.col.source_fails e" for e
    using decoding.no_fail by (auto simp: unpack.col.source_fails_def)
  then obtain b where "x = Ok b" "image_holds b (decoding.rest d)"
    using x(2) assms(2,3) by (cases x) (auto simp: unpack.col.collects_def split: if_splits)
  then show ?thesis
    using that unguarded(2) [OF decoder.read_from_guard [OF sound] x(1)] by blast
qed

lemma read_compressed_ok:
  assumes slice: "s_off s = 0" "enc k (s_bytes s) (record_payload H s_bytes False rec)" "k \<noteq> Plain"
    and h: "h = coded_head k H rec out" and blocks: "blocks_ok H rec"
    and fits: "length (im_bytes (r_res_body rec)) \<le> max_body tune"
    and quiet: "unpack.col.quiet v"
  obtains rec' v' where "read_compressed H bm tmp ds s h tune v = Some (Ok rec', v')"
    "same_record H s_bytes rec' rec" "im_ok (r_req_body rec')" "im_ok (r_res_body rec')"
proof -
  let ?m = "headers_out False (hm_iter H (r_meta rec))"
  let ?q = "headers_out False (hm_iter H (r_req_headers rec))"
  let ?qb = "im_bytes (r_req_body rec)"
  let ?s = "headers_out False (hm_iter H (r_res_headers rec))"
  let ?sb = "im_bytes (r_res_body rec)"
  let ?rd = "decode_read ds"
  have ok: "block_ok H (r_meta rec)" "block_ok H (r_req_headers rec)" "block_ok H (r_res_headers rec)"
    using blocks by (simp_all add: blocks_ok_def)
  have lens: "h_meta h = length ?m" "h_req_h h = length ?q" "h_req_b h = length ?qb"
    "h_res_h h = length ?s" "h_rec_type h = r_type rec" "h_compress h = k"
    using slice(3) by (simp_all add: h coded_head_def payload_head_def body_out_def Let_def)
  obtain d where d: "decode_new ds k s (buffer_size_ram tune) = Ok d" "of_decoder sound d"
    and "decoding.rest d = record_payload H s_bytes False rec"
    by (rule decode_new_decodes [OF slice])
  then have r0: "decoding.rest d = ?m @ ?q @ ?qb @ ?s @ ?sb"
    by (simp add: record_payload_def body_out_def)
  obtain m d1 where d1: "read_headers H bm ?rd False (length ?m) d = Some (Ok m, d1)"
    "same_headers H m (r_meta rec)" "decoding.rest d1 = ?q @ ?qb @ ?s @ ?sb" "of_decoder sound d1"
    by (rule unpack_headers [OF d(2) ok(1) r0])
  obtain q d2 where d2: "read_headers H bm ?rd False (length ?q) d1 = Some (Ok q, d2)"
    "same_headers H q (r_req_headers rec)" "decoding.rest d2 = ?qb @ ?s @ ?sb" "of_decoder sound d2"
    by (rule unpack_headers [OF d1(4) ok(2) d1(3)])
  obtain qb :: "'s body_image" and d3 v3 where d3:
    "(if length ?qb \<le> max_body_ram tune then lift_io (read_body_ram bm ?rd False (length ?qb) d2) v
      else read_body_fs bm ?rd tmp tune (length ?qb) d2 v) = Some (Ok qb, (d3, v3))"
    "image_holds qb ?qb" "decoding.rest d3 = ?s @ ?sb" "unpack.col.quiet v3" "of_decoder sound d3"
    by (rule unpack_body [OF d2(4,3) quiet])
  obtain sh d4 where d4: "read_headers H bm ?rd False (length ?s) d3 = Some (Ok sh, d4)"
    "same_headers H sh (r_res_headers rec)" "decoding.rest d4 = ?sb" "of_decoder sound d4"
    by (rule unpack_headers [OF d3(5) ok(3) d3(3)])
  obtain sb :: "'s body_image" and d5 v5 where d5:
    "read_from bm ?rd tmp tune 4096 d4 v3 = Some (Ok sb, (d5, v5))" "image_holds sb ?sb"
    using unpack_rest [of d4 tune v3 4096] fits d4(4) d3(4) unfolding d4(3) by blast
  let ?rec = "\<lparr>r_type = r_type rec, r_meta = m, r_req_headers = q, r_req_body = qb,
    r_res_headers = sh, r_res_body = sb\<rparr>"
  have "read_compressed H bm tmp ds s h tune v = Some (Ok ?rec, v5)"
    unfolding read_compressed_def lens
    using d d1(1) d2(1) d3(1) d4(1) d5(1) by (simp add: lift_io_def)
  moreover have "same_record H s_bytes ?rec rec" "im_ok qb" "im_ok sb"
    using d1(2) d2(2) d4(2) image_holdsD(1,2) [OF d3(2)] image_holdsD(1,2) [OF d5(2)]
    by (simp_all add: same_record_def)
  ultimately show ?thesis using that [of ?rec v5] by simp
qed

lemma barc_read_coded:
  assumes bytes: "p_bytes p = c @ head_bytes h @ out @ t" and tell: "rp_tell fs p = length c"
    and h: "h = coded_head k H rec out" "head_in_range h" and k: "k \<noteq> Plain"
    and enc: "enc k out (record_payload H s_bytes False rec)"
    and type: "r_type rec \<noteq> Reserved" and blocks: "blocks_ok H rec"
    and fits: "length (im_bytes (r_res_body rec)) \<le> max_body tune"
    and quiet: "unpack.col.quiet v"
  obtains rec' p' v' where
    "barc_read H fs bm tmp ds chk tune p v = Some (Ok (Some rec'), (p', v'))"
    "same_record H s_bytes rec' rec" "im_ok (r_req_body rec')" "im_ok (r_res_body rec')"
    "p_bytes p' = p_bytes p" "rp_tell fs p' = length (c @ head_bytes h @ out)"
proof -
  have rest: "pos.rest p = head_bytes h @ out @ t"
    using bytes tell by (simp add: pos.rest_def)
  obtain p1 where p1: "read_record_head (rp_read fs) p = Some (Ok (Some h), p1)"
    "pos.advanced p V2_HEAD_SIZE p1"
    by (rule pos.read_record_head_some [OF rest h(2)])
  have t1: "rp_tell fs p1 = length c + V2_HEAD_SIZE" and b1: "p_bytes p1 = p_bytes p"
    using pos.advancedD(1,2) [OF p1(2)] tell by simp_all
  have hl: "h_len h = length out" "h_rec_type h = r_type rec" "h_compress h = k"
    by (simp_all add: h(1) coded_head_def payload_head_def Let_def)
  let ?stop = "rp_tell fs p1 + h_len h"
  let ?slice = "rp_subslice fs p1 (rp_tell fs p1) ?stop"
  have "s_bytes ?slice = take (length out) (drop (length c + V2_HEAD_SIZE) (p_bytes p))"
    using pos_subslice [of "rp_tell fs p1" ?stop p1] by (simp add: t1 b1 hl)
  also have "\<dots> = out"
    by (simp add: bytes length_head_bytes [OF h(2)])
  finally have slice: "s_off ?slice = 0" "enc k (s_bytes ?slice) (record_payload H s_bytes False rec)"
    using pos_subslice [of "rp_tell fs p1" ?stop p1] enc by simp_all
  obtain rec' v' where r: "read_compressed H bm tmp ds ?slice h tune v = Some (Ok rec', v')"
    "same_record H s_bytes rec' rec" "im_ok (r_req_body rec')" "im_ok (r_res_body rec')"
    by (rule read_compressed_ok [OF slice k h(1) blocks fits quiet])
  obtain p2 where p2: "rp_seek fs p1 (SeekStart ?stop) = (Inr ?stop, p2)"
    "p_bytes p2 = p_bytes p1" "rp_tell fs p2 = ?stop"
    using pos_seek_start by blast
  have "barc_read H fs bm tmp ds chk tune p v = Some (Ok (Some rec'), (p2, v'))"
    using p1(1) r(1) p2(1) type k by (simp add: barc_read_def lift_io_def seek_pos_def hl Let_def)
  then show ?thesis
    using that [of rec' p2 v'] r p2(2,3) b1 t1 by (simp add: hl length_head_bytes [OF h(2)])
qed

lemma write_read_coded:
  assumes k: "encode_mode (wrap_encoder H cs st rec) = k" "k \<noteq> Plain" "k = Brotli \<longrightarrow> calm w"
    and ok: "im_ok (r_req_body rec)" "im_ok (r_res_body rec)"
    and rec: "blocks_ok H rec" "r_type rec \<noteq> Reserved"
    and w: "barc_write H fs cs st rec (f, w) = Some (Ok start, (f', w'))"
    and p: "p_bytes p = content f' @ t" "rp_tell fs p = start"
    and fits: "length (im_bytes (r_res_body rec)) \<le> max_body tune" and quiet: "unpack.col.quiet v"
  shows "\<exists>rec' p' v'. barc_read H fs bm tmp ds chk tune p v = Some (Ok (Some rec'), (p', v')) \<and>
    same_record H s_bytes rec' rec \<and> im_ok (r_req_body rec') \<and> im_ok (r_res_body rec') \<and>
    p_bytes p' = p_bytes p \<and> rp_tell fs p' = length (content f')"
proof -
  obtain out where out: "start = length (content f)" "head_in_range (coded_head k H rec out)"
    "enc k out (record_payload H s_bytes False rec)"
    "content f' = content f @ head_bytes (coded_head k H rec out) @ out"
    by (rule barc_write_coded [OF k ok w])
  have "p_bytes p = content f @ head_bytes (coded_head k H rec out) @ out @ t"
    using p(1) out(4) by simp
  from barc_read_coded [OF this _ refl out(2) k(2) out(3) rec(2,1) fits quiet] p(2) out(1,4)
  show ?thesis by metis
qed

end

section \<open>Over a run\<close>

context record_writer
begin

lemma step_grows:
  assumes "barc_step H fs cs sl sl'" and "barc_file_ok (fst sl)"
  shows "barc_file_ok (fst sl') \<and>
    (\<exists>t. disk_bytes (bf_disk (fst sl')) = disk_bytes (bf_disk (fst sl)) @ t)"
  using assms
proof (cases rule: barc_step.cases)
  case (writer s w x s' w' log)
  then show ?thesis using writer_cases [OF writer(3)] assms(2) by simp
next
  case (committed s st rec w start s' w' log)
  then show ?thesis using writer_write_cases [OF committed(4)] assms(2) by auto
next
  case (failed s st rec w x s' w' log)
  then show ?thesis using writer_write_cases [OF failed(4)] assms(2) by auto
next
  case (dropped s log)
  then show ?thesis using assms(2) by (simp add: barc_writer_drop_def barc_file_ok_def)
qed

lemma steps_grow:
  assumes "rtranclp (barc_step H fs cs) sl sl'" and "barc_file_ok (fst sl)"
  shows "barc_file_ok (fst sl') \<and>
    (\<exists>t. disk_bytes (bf_disk (fst sl')) = disk_bytes (bf_disk (fst sl)) @ t)"
  using assms
proof (induction rule: rtranclp_induct)
  case (step sl1 sl2)
  then show ?case using step_grows [OF step.hyps(2)] by fastforce
qed simp

end

context compressed_store
begin

lemma coded_entry_read:
  assumes run: "barc_run H fs cs disk (s0, log0)" and held: "bf_held s0"
    and wr: "barc_writer_write H fs cs st rec s0 w = Some (Ok start, (s1, w1))"
    and more: "rtranclp (barc_step H fs cs) (s1, log1) (s, log)"
    and k: "encode_mode (wrap_encoder H cs st rec) = k" "k \<noteq> Plain" "k = Brotli \<longrightarrow> calm w"
    and ok: "im_ok (r_req_body rec)" "im_ok (r_res_body rec)"
    and rec: "blocks_ok H rec" "r_type rec \<noteq> Reserved"
    and p: "p_bytes p = disk_bytes (bf_disk s)" "rp_tell fs p = start"
    and fits: "length (im_bytes (r_res_body rec)) \<le> max_body tune" and quiet: "unpack.col.quiet v"
  shows "\<exists>rec' p' v'. barc_read H fs bm tmp ds chk tune p v = Some (Ok (Some rec'), (p', v')) \<and>
    same_record H s_bytes rec' rec"
proof -
  have ok0: "barc_file_ok s0" using run_invariant [OF run] by simp
  then obtain c q where "bf_disk s0 = Some c" "bf_file s0 = Some q"
    using held by (auto simp: barc_file_ok_def)
  then obtain f' w2 where f': "bf_disk s1 = Some (content f')"
    "barc_write H fs cs st rec (\<lparr>content = c, fpos = q\<rparr>, w) = Some (Ok start, (f', w2))"
    using wr by (auto simp: barc_writer_write_def Let_def split: option.splits prod.splits)
  have "barc_file_ok s1" using writer_write_cases [OF wr ok0 held] by simp
  then obtain t where "p_bytes p = content f' @ t"
    using steps_grow [OF more] p(1) f'(1) by auto
  from write_read_coded [OF k ok rec f'(2) this p(2) fits quiet] show ?thesis by blast
qed

lemma quietI:
  "calm v \<Longrightarrow> (\<And>d w. calm w \<Longrightarrow> \<exists>f w'. tmp d w = (Inr f, w') \<and> calm w') \<Longrightarrow> unpack.col.quiet v"
  by (simp add: unpack.col.quiet_def)

end

section \<open>Success without failures\<close>

locale steady_finish =
  fixes en :: "'z encoder_ops"
  assumes write_calm: "calm (snd fw) \<Longrightarrow>
      \<exists>z' fw'. en_write en (z, fw) bs = (Inr (), (z', fw')) \<and> calm (snd fw')"
    and finish_calm: "calm (snd fw) \<Longrightarrow>
      \<exists>fw'. en_finish en (z, fw) = (Inr (), fw') \<and> calm (snd fw')"

locale steady_flush =
  fixes en :: "'z encoder_ops"
  assumes write_calm: "calm (snd fw) \<Longrightarrow>
      \<exists>z' fw'. en_write en (z, fw) bs = (Inr (), (z', fw')) \<and> calm (snd fw')"
    and flush_calm: "calm (snd fw) \<Longrightarrow>
      \<exists>z' fw'. en_flush en (z, fw) = (Inr (), (z', fw')) \<and> calm (snd (en_drop en (z', fw')))"

locale calm_writer =
  compressed_writer fs p_bytes p_patience s_bytes s_off s_patience g_bytes g_off g_patience
    cs inp outp enc +
  sgz: steady_finish "gz cs" +
  sbr: steady_flush "br cs"
  for fs :: "('p, 's, 'g) olio" and p_bytes p_patience s_bytes s_off s_patience
    and g_bytes g_off g_patience and cs :: "'z codecs" and inp outp enc
begin

definition calm_coding :: "compression \<Rightarrow> bytes \<Rightarrow> 'z encode_wrapper \<times> file_world \<Rightarrow> bool" where
  "calm_coding k base efw \<longleftrightarrow> coding k base efw \<and> calm (snd (snd efw))"

lemma encode_write_calm:
  assumes "encode_mode e \<noteq> Plain" and "calm (snd fw)"
  shows "\<exists>e' fw'. encode_write cs (e, fw) bs = (Inr (), (e', fw')) \<and> calm (snd fw')"
proof (cases e)
  case (EncGzip z)
  obtain z' fw' where "en_write (gz cs) (z, fw) bs = (Inr (), (z', fw'))" "calm (snd fw')"
    using sgz.write_calm [OF assms(2)] by blast
  then show ?thesis using EncGzip by simp
next
  case (EncBrotli z)
  obtain z' fw' where "en_write (br cs) (z, fw) bs = (Inr (), (z', fw'))" "calm (snd fw')"
    using sbr.write_calm [OF assms(2)] by blast
  then show ?thesis using EncBrotli by simp
qed (use assms(1) in simp)

lemma encode_finish_calm:
  assumes "encode_mode e \<noteq> Plain" and "calm (snd fw)"
  shows "\<exists>fw'. encode_finish cs (e, fw) = (Inr (), fw') \<and> calm (snd fw')"
proof (cases e)
  case (EncGzip z)
  then show ?thesis using sgz.finish_calm [OF assms(2), of z] by simp
next
  case (EncBrotli z)
  obtain z' fw' where "en_flush (br cs) (z, fw) = (Inr (), (z', fw'))"
    "calm (snd (en_drop (br cs) (z', fw')))"
    using sbr.flush_calm [OF assms(2), of z] by blast
  then show ?thesis using EncBrotli by simp
qed (use assms(1) in simp)

lemma calm_coding_sink:
  assumes "k \<noteq> Plain"
  shows "write_sink (encode_write cs) (calm_coding k base) (\<lambda>efw. of_encoder inp (fst efw))"
    and "\<not> refuses (encode_write cs) (calm_coding k base) x"
proof -
  have ok: "\<exists>e' fw'. encode_write cs efw bs = (Inr (), (e', fw')) \<and> calm (snd fw')"
    if "calm_coding k base efw" for efw bs
    using encode_write_calm [of "fst efw" "snd efw" bs] that assms
    by (simp add: calm_coding_def coding_def)
  have sure: "encode_write cs efw bs \<noteq> (Inl e, efw')" if "calm_coding k base efw" for efw bs e efw'
    using ok [OF that, of bs] by auto
  show "\<not> refuses (encode_write cs) (calm_coding k base) x"
    using sure unfolding refuses_def by (metis prod.collapse)
  show "write_sink (encode_write cs) (calm_coding k base) (\<lambda>efw. of_encoder inp (fst efw))"
  proof
    fix efw bs u efw'
    assume w: "encode_write cs efw bs = (Inr u, efw')" and g: "calm_coding k base efw"
    then show "calm_coding k base efw' \<and> of_encoder inp (fst efw') = of_encoder inp (fst efw) @ bs"
      using write_sink.write_ok [OF coding_sink [OF assms] w, of base] ok [OF g, of bs]
      by (auto simp: calm_coding_def)
  qed (use sure in blast)
qed

lemma write_record_calm:
  assumes k: "encode_mode (wrap_encoder H cs st rec) = k" "k \<noteq> Plain"
    and fw: "at_end fw" "calm (snd fw)"
    and ok: "im_ok (r_req_body rec)" "im_ok (r_res_body rec)"
    and adv: "\<And>m a. mh_advise fs m a = None"
    and range: "head_in_range (payload_head H s_bytes k rec)"
    and len: "h_len (payload_head H s_bytes k rec) + 2 \<le> V2_MAX_RECORD"
  shows "\<exists>fw'. write_record H fs cs st rec fw = Some (Ok (payload_head H s_bytes k rec), fw') \<and>
    calm (snd fw')"
proof -
  let ?e = "wrap_encoder H cs st rec" and ?base = "content (fst fw)"
  have g: "calm_coding k ?base (?e, fw)"
    using wrap_encoder_coding(1) [OF fw(1) refl, of H st rec] k fw(2) by (simp add: calm_coding_def)
  note ws = calm_coding_sink(1) [OF k(2), of ?base]
  have "okO (write_parts H fs (encode_write cs) k rec (?e, fw))"
    by (rule write_parts_okO [OF ws calm_coding_sink(2) [OF k(2)] g ok adv range len])
  then obtain h e' fw2 where x: "write_parts H fs (encode_write cs) k rec (?e, fw) = Some (Ok h, (e', fw2))"
    by (auto simp: okO_def)
  have "calm_coding k ?base (e', fw2)" and h: "h = payload_head H s_bytes k rec"
    using write_parts_emits [OF ws g ok, of H k] x by (auto simp: emitsO_def dest: emits_good)
  then have "encode_mode e' \<noteq> Plain" "calm (snd fw2)"
    using k(2) by (simp_all add: calm_coding_def coding_def)
  then obtain fw' where "encode_finish cs (e', fw2) = (Inr (), fw')" "calm (snd fw')"
    using encode_finish_calm by blast
  then show ?thesis
    using x h k(1) by (simp add: write_record_def)
qed

lemma barc_write_calm:
  assumes k: "encode_mode (wrap_encoder H cs st rec) = k" "k \<noteq> Plain"
    and ok: "im_ok (r_req_body rec)" "im_ok (r_res_body rec)"
    and calm: "calm w" and adv: "\<And>m a. mh_advise fs m a = None"
    and range: "head_in_range (payload_head H s_bytes k rec)"
    and len: "h_len (payload_head H s_bytes k rec) + 2 \<le> V2_MAX_RECORD"
    and coded: "\<And>out. enc k out (record_payload H s_bytes False rec) \<Longrightarrow> length out \<le> V2_MAX_RECORD"
  shows "\<exists>f' w'. barc_write H fs cs st rec (f, w) = Some (Ok (length (content f)), (f', w')) \<and> calm w'"
proof -
  let ?h = "payload_head H s_bytes k rec" and ?f = "f\<lparr>fpos := length (content f)\<rparr>"
  obtain w1 where s1: "seek_file (SeekEnd 0) (f, w) = (Ok (length (content f)), (?f, w1))" "calm w1"
    using calm_seek [OF calm, of f "SeekEnd 0"] by auto
  have "at_end (?f, w1)" by (simp add: at_end_def)
  then obtain f2 w2 where r:
    "write_record_head file_write_all (?f, w1) V2_RESERVE_HEAD = (Ok (), (f2, w2))"
    "content f2 = content f @ head_bytes V2_RESERVE_HEAD" "at_end (f2, w2)" "calm w2"
    by (cases rule: reserve_head_cases) (use s1(2) in auto)
  obtain f3 w3 where w: "write_record H fs cs st rec (f2, w2) = Some (Ok ?h, (f3, w3))" "calm w3"
    using write_record_calm [OF k r(3) _ ok adv range len] r(4) by auto
  obtain out where out: "content f3 = content f2 @ out" "enc k out (record_payload H s_bytes False rec)"
    using write_record_coded [OF k r(3) _ ok w(1)] r(4) by auto
  have "extends (f2, w2) (f3, w3)"
    using write_record_extends [of H st rec "(f2, w2)"] w(1) by auto
  then have p3: "fpos f3 = length (content f3)"
    using r(3) by (simp add: extends_def at_end_def)
  have c3: "content f3 = content f @ head_bytes V2_RESERVE_HEAD @ out"
    using r(2) out(1) by simp
  have "head_in_range (?h\<lparr>h_len := length out\<rparr>)"
    using range coded [OF out(2)] by (simp add: head_in_range_def)
  moreover have "h_compress ?h = Plain \<longrightarrow> h_len ?h = length out"
    using k(2) by (simp add: payload_head_def Let_def)
  ultimately show ?thesis
    using complete_write_ok [OF c3 p3 w(2)] s1(1) r(1) w(1) by (auto simp: barc_write_def)
qed

lemma barc_write_succeeds:
  assumes k: "encode_mode (wrap_encoder H cs st rec) = k"
    and ok: "im_ok (r_req_body rec)" "im_ok (r_res_body rec)"
    and calm: "calm w" and adv: "\<And>m a. mh_advise fs m a = None"
    and range: "head_in_range (payload_head H s_bytes k rec)"
    and len: "h_len (payload_head H s_bytes k rec) + 2 \<le> V2_MAX_RECORD"
    and coded: "\<And>out. k \<noteq> Plain \<Longrightarrow> enc k out (record_payload H s_bytes False rec) \<Longrightarrow>
      length out \<le> V2_MAX_RECORD"
  shows "\<exists>f' w' out. barc_write H fs cs st rec (f, w) = Some (Ok (length (content f)), (f', w')) \<and>
    content f' = content f @ head_bytes (coded_head k H rec out) @ out \<and>
    fpos f' = length (content f') \<and>
    (if k = Plain then out = record_payload H s_bytes True rec
     else enc k out (record_payload H s_bytes False rec))"
proof (cases "k = Plain")
  case True
  then have enc: "wrap_encoder H cs st rec = EncPlain" using k by (cases "wrap_encoder H cs st rec") auto
  obtain f' w' where w: "barc_write H fs cs st rec (f, w) = Some (Ok (length (content f)), (f', w'))"
    using barc_write_ok [OF enc ok calm adv] range len True by blast
  have "coded_head Plain H rec (record_payload H s_bytes True rec) = payload_head H s_bytes Plain rec"
    by (simp add: coded_head_def payload_head_def Let_def)
  then show ?thesis
    using barc_write_plain [OF enc ok w] w True
    by (intro exI [of _ f'] exI [of _ w'] exI [of _ "record_payload H s_bytes True rec"]) simp
next
  case False
  obtain f' w' where w: "barc_write H fs cs st rec (f, w) = Some (Ok (length (content f)), (f', w'))"
    using barc_write_calm [OF k False ok calm adv range len coded [OF False]] by blast
  have "k = Brotli \<longrightarrow> calm w" using calm by simp
  from barc_write_coded [OF k False this ok w] show ?thesis
    using w False by metis
qed

end

section \<open>An instance\<close>

text \<open>
  A format that is not the identity: the complement of every byte, then a trailer. The encoder
  keeps what the last write gave it and puts it out with the next one; a failed write puts out a
  part. \<^verbatim>\<open>Drop\<close> writes the trailer and ignores failures. The decoder returns a byte at a time and
  fails on input that does not end in a trailer. The encoder's state is what it has put out and
  what it has not, both as taken.
\<close>

definition flip_byte :: "byte \<Rightarrow> byte" where
  "flip_byte c = char_of (255 - of_char c :: nat)"

definition flip_end :: byte where
  "flip_end = CHR ''.''"

definition flip_encoder :: "(bytes \<times> bytes) encoder_ops" where
  "flip_encoder =
     \<lparr>en_new = (\<lambda>level. ([], [])),
      en_write = (\<lambda>((sent, pend), fw) bs.
        case file_write_all fw (map flip_byte pend) of
          (Inr u, fw') \<Rightarrow> (Inr (), ((sent @ pend, bs), fw'))
        | (Inl e, fw') \<Rightarrow>
            let n = length (content (fst fw')) - length (content (fst fw))
            in (Inl e, ((sent @ take n pend, drop n pend), fw'))),
      en_finish = (\<lambda>((sent, pend), fw). file_write_all fw (map flip_byte pend @ [flip_end])),
      en_flush = (\<lambda>((sent, pend), fw).
        case file_write_all fw (map flip_byte pend) of
          (Inr u, fw') \<Rightarrow> (Inr (), ((sent @ pend, []), fw'))
        | (Inl e, fw') \<Rightarrow> (Inl e, ((sent, pend), fw'))),
      en_drop = (\<lambda>((sent, pend), fw). snd (file_write_all fw (map flip_byte pend @ [flip_end])))\<rparr>"

definition flip_codecs :: "(bytes \<times> bytes) codecs" where
  "flip_codecs = \<lparr>gz = flip_encoder, br = flip_encoder\<rparr>"

definition flip_decoder :: "(cursor \<times> nat, cursor \<times> nat) decoder_ops" where
  "flip_decoder =
     \<lparr>de_new = (\<lambda>s n. s),
      de_read = (\<lambda>(c, m) k.
        case drop (cur_pos c) (cur_bytes c) of
          [] \<Rightarrow> (Inl UnexpectedEof, (c, m))
        | [b] \<Rightarrow> (if b = flip_end then Inr [] else Inl InvalidInput, (c, m))
        | b # b' # bs \<Rightarrow>
            if k = 0 then (Inr [], (c, m))
            else (Inr [flip_byte b], (c\<lparr>cur_pos := Suc (cur_pos c)\<rparr>, m)))\<rparr>"

definition flip_decoders :: "(cursor \<times> nat, cursor \<times> nat) decoders" where
  "flip_decoders = \<lparr>gzd = flip_decoder, brd = flip_decoder\<rparr>"

definition flip_in :: "bytes \<times> bytes \<Rightarrow> bytes" where
  "flip_in z = fst z @ snd z"

definition flip_out :: "bytes \<times> bytes \<Rightarrow> bytes" where
  "flip_out z = map flip_byte (fst z)"

definition flip_coded :: "bytes \<Rightarrow> bytes \<Rightarrow> bool" where
  "flip_coded out bs \<longleftrightarrow> out = map flip_byte bs @ [flip_end]"

definition flip_sound :: "cursor \<times> nat \<Rightarrow> bool" where
  "flip_sound d \<longleftrightarrow> (\<exists>bs. flip_coded (cur_bytes (fst d)) bs \<and> cur_pos (fst d) \<le> length bs)"

definition flip_bytes :: "cursor \<times> nat \<Rightarrow> bytes" where
  "flip_bytes d = map flip_byte (butlast (cur_bytes (fst d)))"

lemma flip_flip [simp]: "flip_byte (flip_byte c) = c"
proof -
  have "(of_char c :: nat) \<le> 255" using nat_of_char_less_256 [of c] by linarith
  then show ?thesis by (simp add: flip_byte_def)
qed

lemma flip_sel [simp]:
  "gz flip_codecs = flip_encoder" "br flip_codecs = flip_encoder"
  "gzd flip_decoders = flip_decoder" "brd flip_decoders = flip_decoder"
  "en_new flip_encoder n = ([], [])" "de_new flip_decoder s m = s"
  by (simp_all add: flip_codecs_def flip_decoders_def flip_encoder_def flip_decoder_def)

lemma flip_write_all:
  assumes "at_end fw" and "file_write_all fw (map flip_byte bs) = (v, fw')"
  obtains n where "n \<le> length bs" "content (fst fw') = content (fst fw) @ map flip_byte (take n bs)"
    "v = Inr () \<longrightarrow> n = length bs"
proof (cases v)
  case (Inr u)
  then show ?thesis using that [of "length bs"] file_write_all_end [OF assms(1), of "map flip_byte bs"] assms(2) by simp
next
  case (Inl e)
  then obtain n where "content (fst fw') = content (fst fw) @ take n (map flip_byte bs)"
    using file_write_all_end [OF assms(1), of "map flip_byte bs"] assms(2) by auto
  moreover have "take (min n (length bs)) bs = take n bs" by (simp add: min_def)
  ultimately show ?thesis using that [of "min n (length bs)"] Inl by (simp add: take_map)
qed

interpretation flip_format: encoder_format flip_encoder flip_in flip_out
proof
  fix z bs v z' fw and fw' :: file_world
  assume w: "en_write flip_encoder (z, fw) bs = (v, (z', fw'))"
  obtain sent pend where z: "z = (sent, pend)" by (rule prod.exhaust)
  obtain v1 fw1 where w1: "file_write_all fw (map flip_byte pend) = (v1, fw1)" by (rule prod.exhaust)
  show "extends fw fw'"
    using w file_write_extends [of fw "map flip_byte pend"] w1
    by (cases v1) (auto simp: flip_encoder_def z Let_def)
  assume end': "at_end fw"
  obtain n where n: "n \<le> length pend" "content (fst fw1) = content (fst fw) @ map flip_byte (take n pend)"
    "v1 = Inr () \<longrightarrow> n = length pend"
    by (rule flip_write_all [OF end' w1])
  show "\<exists>out. content (fst fw') = content (fst fw) @ out \<and> flip_out z' = flip_out z @ out"
    using w w1 n by (cases v1) (auto simp: flip_encoder_def z flip_out_def Let_def)
  show "case v of Inr u \<Rightarrow> flip_in z' = flip_in z @ bs | Inl e \<Rightarrow> \<exists>n. flip_in z' = flip_in z @ take n bs"
    using w w1 n by (cases v1) (auto simp: flip_encoder_def z flip_in_def Let_def intro: exI [of _ 0])
next
  fix z fw v and fw' :: file_world
  assume "en_finish flip_encoder (z, fw) = (v, fw')"
  then show "extends fw fw'"
    by (cases z) (auto simp: flip_encoder_def intro: file_write_extends)
next
  fix z fw v z' and fw' :: file_world
  assume "en_flush flip_encoder (z, fw) = (v, (z', fw'))"
  then show "extends fw fw'"
    by (cases z) (auto simp: flip_encoder_def intro: file_write_extends split: prod.splits sum.splits)
next
  fix z and fw :: file_world
  show "extends fw (en_drop flip_encoder (z, fw))"
    by (cases z) (auto simp: flip_encoder_def intro: file_write_extends_snd)
qed (simp add: flip_in_def flip_out_def)

interpretation flip_finish: finishing_encoder flip_encoder flip_in flip_out flip_coded
proof
  fix z fw and fw' :: file_world
  assume w: "en_finish flip_encoder (z, fw) = (Inr (), fw')" and "at_end fw"
  then have "content (fst fw') = content (fst fw) @ map flip_byte (snd z) @ [flip_end]"
    using file_write_all_end [of fw "map flip_byte (snd z) @ [flip_end]"]
    by (cases z) (simp add: flip_encoder_def)
  then show "\<exists>out. content (fst fw') = content (fst fw) @ out \<and> flip_coded (flip_out z @ out) (flip_in z)"
    by (auto simp: flip_coded_def flip_out_def flip_in_def)
qed

interpretation flip_flush: flushing_encoder flip_encoder flip_in flip_out flip_coded
proof
  fix z bs v z' fw and fw' :: file_world
  assume "en_write flip_encoder (z, fw) bs = (v, (z', fw'))" and "calm (snd fw)"
  then show "calm (snd fw')"
    using file_write_all_calm [of fw "map flip_byte (snd z)"]
    by (cases z) (auto simp: flip_encoder_def)
next
  fix z v z' fw and fw' :: file_world
  assume "en_flush flip_encoder (z, fw) = (v, (z', fw'))" and "calm (snd fw)"
  then show "calm (snd fw')"
    using file_write_all_calm [of fw "map flip_byte (snd z)"]
    by (cases z) (auto simp: flip_encoder_def)
next
  fix z z' :: "bytes \<times> bytes" and fw fw1 :: file_world
  assume w: "en_flush flip_encoder (z, fw) = (Inr (), (z', fw1))" and e: "at_end fw" and calm: "calm (snd fw1)"
  obtain fw2 where w2: "file_write_all fw1 [flip_end] = (Inr (), fw2)"
    using file_write_all_calm [OF calm] by blast
  have "file_write_all fw (map flip_byte (snd z)) = (Inr (), fw1)" and z': "z' = (fst z @ snd z, [])"
    using w by (cases z, auto simp: flip_encoder_def split: prod.splits sum.splits)+
  then have fw1: "at_end fw1" "content (fst fw1) = content (fst fw) @ map flip_byte (snd z)"
    using file_write_all_end [OF e, of "map flip_byte (snd z)"] by simp_all
  then have "content (fst fw2) = content (fst fw) @ map flip_byte (snd z) @ [flip_end]"
    using file_write_all_end [OF fw1(1), of "[flip_end]"] w2 by simp
  then show "\<exists>out. content (fst (en_drop flip_encoder (z', fw1))) = content (fst fw) @ out \<and>
      flip_coded (flip_out z @ out) (flip_in z)"
    using w2 by (auto simp: flip_encoder_def z' flip_coded_def flip_out_def flip_in_def)
qed

interpretation flip_steady_finish: steady_finish flip_encoder
proof
  fix z bs and fw :: file_world
  assume "calm (snd fw)"
  then show "\<exists>z' fw'. en_write flip_encoder (z, fw) bs = (Inr (), (z', fw')) \<and> calm (snd fw')"
    using file_write_all_calm [of fw "map flip_byte (snd z)"] by (cases z) (auto simp: flip_encoder_def)
next
  fix z and fw :: file_world
  assume "calm (snd fw)"
  then show "\<exists>fw'. en_finish flip_encoder (z, fw) = (Inr (), fw') \<and> calm (snd fw')"
    using file_write_all_calm [of fw "map flip_byte (snd z) @ [flip_end]"]
    by (cases z) (auto simp: flip_encoder_def)
qed

interpretation flip_steady_flush: steady_flush flip_encoder
proof
  fix z :: "bytes \<times> bytes" and fw :: file_world
  assume "calm (snd fw)"
  then obtain fw1 where fw1: "file_write_all fw (map flip_byte (snd z)) = (Inr (), fw1)" "calm (snd fw1)"
    using file_write_all_calm by blast
  then obtain fw2 where "file_write_all fw1 [flip_end] = (Inr (), fw2)" "calm (snd fw2)"
    using file_write_all_calm by blast
  then show "\<exists>z' fw'. en_flush flip_encoder (z, fw) = (Inr (), (z', fw')) \<and>
      calm (snd (en_drop flip_encoder (z', fw')))"
    using fw1 by (cases z) (auto simp: flip_encoder_def)
qed (rule flip_steady_finish.write_calm)

interpretation flip_source: decoder_format flip_decoder flip_sound flip_bytes
    "\<lambda>d. cur_pos (fst d)" "\<lambda>_. 0" "\<lambda>s. cur_bytes (fst s)" "\<lambda>s. cur_pos (fst s)" flip_coded
proof -
  have rest: "drop (cur_pos c) (cur_bytes c) = map flip_byte (drop (cur_pos c) bs) @ [flip_end]"
    if "flip_coded (cur_bytes c) bs" "cur_pos c \<le> length bs" for c bs
    using that by (simp add: flip_coded_def drop_map)
  have step: "(\<exists>bs. flip_coded (cur_bytes c) bs \<and> cur_pos c = length bs \<and>
        v = Inr [] \<and> d' = (c, m)) \<or>
      (\<exists>bs. flip_coded (cur_bytes c) bs \<and> cur_pos c < length bs \<and>
        (if k = 0 then v = Inr [] \<and> d' = (c, m)
         else v = Inr [bs ! cur_pos c] \<and> d' = (c\<lparr>cur_pos := Suc (cur_pos c)\<rparr>, m)))"
    if "flip_sound (c, m)" "de_read flip_decoder (c, m) k = (v, d')" for c m k v d'
  proof -
    obtain bs where bs: "flip_coded (cur_bytes c) bs" "cur_pos c \<le> length bs"
      using \<open>flip_sound (c, m)\<close> by (auto simp: flip_sound_def)
    show ?thesis
    proof (cases "cur_pos c = length bs")
      case True
      then show ?thesis
        using that(2) bs rest [OF bs] by (auto simp: flip_decoder_def)
    next
      case False
      then have lt: "cur_pos c < length bs" using bs(2) by simp
      obtain x y ys where "drop (cur_pos c) (cur_bytes c) = x # y # ys" "x = flip_byte (bs ! cur_pos c)"
        using rest [OF bs] lt
        by (cases "drop (Suc (cur_pos c)) bs") (auto simp: Cons_nth_drop_Suc [symmetric])
      then show ?thesis
        using that(2) bs(1) lt by (intro disjI2 exI [of _ bs]) (auto simp: flip_decoder_def)
    qed
  qed
  have bytes: "flip_bytes (c, m) = bs" if "flip_coded (cur_bytes c) bs" for c m bs
    using that by (simp add: flip_bytes_def flip_coded_def butlast_append o_def)
  show "decoder_format flip_decoder flip_sound flip_bytes (\<lambda>d. cur_pos (fst d)) (\<lambda>_. 0)
      (\<lambda>s. cur_bytes (fst s)) (\<lambda>s. cur_pos (fst s)) flip_coded"
  proof
    fix s :: "cursor \<times> nat" and bs n
    assume "cur_pos (fst s) = 0" and "flip_coded (cur_bytes (fst s)) bs"
    then show "flip_sound (de_new flip_decoder s n) \<and> flip_bytes (de_new flip_decoder s n) = bs \<and>
        cur_pos (fst (de_new flip_decoder s n)) = 0"
      using bytes [of "fst s" bs "snd s"] by (auto simp: flip_sound_def)
  next
    fix d k v d'
    assume "flip_sound d" and "de_read flip_decoder d k = (v, d')"
    then show "flip_sound d' \<and> flip_bytes d' = flip_bytes d"
      using step [of "fst d" "snd d" k v d'] by (auto simp: flip_sound_def flip_bytes_def split: if_splits)
  next
    fix d k bs d'
    assume "flip_sound d" and "de_read flip_decoder d k = (Inr bs, d')"
    then show "cur_pos (fst d') = cur_pos (fst d) + length bs \<and> (0::nat) \<le> 0 \<and> length bs \<le> k \<and>
        bs = take (length bs) (drop (cur_pos (fst d)) (flip_bytes d))"
      using step [of "fst d" "snd d" k "Inr bs" d'] bytes [of "fst d" _ "snd d"]
      by (auto simp: take_Suc_conv_app_nth hd_drop_conv_nth take_Suc split: if_splits)
  next
    fix d k d'
    assume "flip_sound d" and "de_read flip_decoder d k = (Inr [], d')" and "0 < k"
    then show "length (flip_bytes d) \<le> cur_pos (fst d)"
      using step [of "fst d" "snd d" k "Inr []" d'] bytes [of "fst d" _ "snd d"] by (auto split: if_splits)
  next
    fix d k e d'
    assume "flip_sound d" and "de_read flip_decoder d k = (Inl e, d')"
    then show "e = Interrupted \<and> cur_pos (fst d') = cur_pos (fst d) \<and> (0::nat) < 0"
      using step [of "fst d" "snd d" k "Inl e" d'] by (auto split: if_splits)
  qed
qed

interpretation flip_encoders: record_encoders flip_codecs flip_in flip_out "\<lambda>_. flip_coded"
  by (intro record_encoders.intro)
    (simp_all add: flip_finish.finishing_encoder_axioms flip_flush.flushing_encoder_axioms)

interpretation flip_store: compressed_store cursor_olio cur_bytes "\<lambda>_. 0" "\<lambda>s. cur_bytes (fst s)"
    "\<lambda>s. cur_pos (fst s)" "\<lambda>_. 0" cur_bytes cur_pos "\<lambda>_. 0" flip_codecs grow_buf assoc_http
    flip_in flip_out "\<lambda>_. flip_coded" flip_decoders flip_sound flip_bytes "\<lambda>d. cur_pos (fst d)"
    "\<lambda>_. 0" scripted_tempfile
  by (intro compressed_store.intro barc_store.intro compressed_writer.intro record_writer.intro
      record_reader.intro flip_encoders.appending_codecs_axioms flip_encoders.record_encoders_axioms
      record_decoders.intro scripted_tmp.temp_files_axioms cursors.olio_files_axioms
      growing.bytes_buf_axioms assoc.http_headers_axioms)
    (simp_all add: flip_source.decoder_format_axioms)

interpretation flip_calm: calm_writer cursor_olio cur_bytes "\<lambda>_. 0" "\<lambda>s. cur_bytes (fst s)"
    "\<lambda>s. cur_pos (fst s)" "\<lambda>_. 0" cur_bytes cur_pos "\<lambda>_. 0" flip_codecs flip_in flip_out "\<lambda>_. flip_coded"
  by (intro calm_writer.intro flip_store.compressed_writer_axioms)
    (simp_all add: flip_steady_finish.steady_finish_axioms flip_steady_flush.steady_flush_axioms)

definition sample_level :: level_strategy where
  "sample_level = \<lparr>st_min_len = 0, st_level = 6, st_check_identity = False\<rparr>"

abbreviation "sample_gzip \<equiv> GzipStrategy sample_level"
abbreviation "sample_brotli \<equiv> BrotliStrategy sample_level"

lemma sample_coded_head:
  "k \<noteq> Plain \<Longrightarrow> payload_head assoc_http sb k sample_record =
     \<lparr>h_len = 12, h_rec_type = DialogRecord, h_compress = k, h_meta = 9, h_req_h = 0,
      h_req_b = 0, h_res_h = 0\<rparr>"
  and sample_coded_payload: "record_payload assoc_http sb False sample_record = ''url: /a'' @ CRLF @ ''abc''"
  unfolding payload_head_def record_payload_def sample_meta
  by (simp_all add: sample_record_def headers_out_def body_out_def image_empty_def image_bytes_def CRLF_def
      Let_def)

lemma sample_encoder:
  "wrap_encoder assoc_http flip_codecs sample_gzip sample_record = EncGzip ([], [])"
  "wrap_encoder assoc_http flip_codecs sample_brotli sample_record = EncBrotli ([], [])"
proof -
  have "is_compressible assoc_http sample_gzip sample_record"
    "is_compressible assoc_http sample_brotli sample_record"
    unfolding is_compressible_sum sample_meta
    by (simp_all add: sample_level_def count_bodies_def count_body_def sample_record_def image_empty_def
        half_f64_def as_f64_def u64_saturating_add_def ulp.simps Let_def CRLF_def)
  then show "wrap_encoder assoc_http flip_codecs sample_gzip sample_record = EncGzip ([], [])"
    "wrap_encoder assoc_http flip_codecs sample_brotli sample_record = EncBrotli ([], [])"
    by (simp_all add: wrap_encoder_cases)
qed

lemma sample_coded_bounds:
  assumes "k \<noteq> Plain"
  shows "head_in_range (payload_head assoc_http sb k sample_record)"
    and "h_len (payload_head assoc_http sb k sample_record) + 2 \<le> V2_MAX_RECORD"
    and "flip_coded out (record_payload assoc_http sb False sample_record) \<Longrightarrow> length out \<le> V2_MAX_RECORD"
  using assms
  by (simp_all add: sample_coded_head sample_coded_payload flip_coded_def head_in_range_def v2_defs CRLF_def)

lemma sample_coded_write:
  assumes "encode_mode (wrap_encoder assoc_http flip_codecs st sample_record) = k" and "k \<noteq> Plain"
  shows "\<exists>f' w'. barc_write assoc_http cursor_olio flip_codecs st sample_record
     (\<lparr>content = c, fpos = n\<rparr>, []) = Some (Ok (length c), (f', w'))"
  using flip_calm.barc_write_calm [OF assms sample_ok(1,2) calm_Nil _ sample_coded_bounds(1,2),
      of "\<lparr>content = c, fpos = n\<rparr>"] assms(2) sample_coded_bounds(3) [OF assms(2)]
  by auto

lemma scripted_calm: "calm w \<Longrightarrow> \<exists>f w'. scripted_tempfile d w = (Inr f, w') \<and> calm w'"
  by (auto simp: scripted_tempfile_def split: list.splits)

section \<open>Properties of compressed records\<close>

text \<open>
  C3: A record that \<^verbatim>\<open>write\<close> has written compressed, with gzip or with Brotli, is read back by
  \<^verbatim>\<open>read\<close> at the returned offset with the same contents, and the reader then stands at the end of
  the record. With gzip this holds whatever interruptions and partial writes happened on the way.
  With Brotli it holds on a file system without failures: the last block is written on \<^verbatim>\<open>Drop\<close>,
  which ignores failures. The encoders and decoders are a format, the response body is within the
  reader's \<^verbatim>\<open>max_body\<close>, and the file system does not fail while bodies are unpacked.
\<close>
theorem compressed_roundtrip:
  assumes "compressed_store fs p_bytes p_patience s_bytes s_off s_patience g_bytes g_off g_patience
      cs bm H inp outp enc ds sound d_bytes d_off d_patience tmp"
    and "encode_mode (wrap_encoder H cs st rec) \<noteq> Plain"
    and "encode_mode (wrap_encoder H cs st rec) = Brotli \<longrightarrow> calm w"
    and "image_ok fs s_bytes s_off (r_req_body rec)" and "image_ok fs s_bytes s_off (r_res_body rec)"
    and "blocks_ok H rec" and "r_type rec \<noteq> Reserved"
    and "barc_write H fs cs st rec (f, w) = Some (Ok start, (f', w'))"
    and "p_bytes p = content f' @ t" and "rp_tell fs p = start"
    and "length (image_bytes s_bytes (r_res_body rec)) \<le> max_body tune"
    and "calm v" and "\<And>d w. calm w \<Longrightarrow> \<exists>f w'. tmp d w = (Inr f, w') \<and> calm w'"
  shows "\<exists>rec' p' v'. barc_read H fs bm tmp ds chk tune p v = Some (Ok (Some rec'), (p', v')) \<and>
    same_record H s_bytes rec' rec \<and>
    image_ok fs s_bytes s_off (r_req_body rec') \<and> image_ok fs s_bytes s_off (r_res_body rec') \<and>
    p_bytes p' = p_bytes p \<and> barc_offset fs p' = length (content f')"
  using compressed_store.write_read_coded [OF assms(1) refl assms(2-11)
      compressed_store.quietI [OF assms(1,12,13)]]
  by (simp add: barc_offset_def)

theorem compressed_roundtrip_witness:
  "\<exists>f' w' rec' p' v'. barc_write assoc_http cursor_olio flip_codecs sample_brotli sample_record
       (\<lparr>content = ''old'', fpos = 0\<rparr>, []) = Some (Ok 3, (f', w')) \<and>
     barc_read assoc_http cursor_olio grow_buf scripted_tempfile flip_decoders True sample_tune
       \<lparr>cur_bytes = content f', cur_pos = 3\<rparr> [] = Some (Ok (Some rec'), (p', v')) \<and>
     same_record assoc_http (\<lambda>s. cur_bytes (fst s)) rec' sample_record"
proof -
  have k: "encode_mode (wrap_encoder assoc_http flip_codecs sample_brotli sample_record) = Brotli"
    by (simp add: sample_encoder)
  obtain f' w' where w: "barc_write assoc_http cursor_olio flip_codecs sample_brotli sample_record
      (\<lparr>content = ''old'', fpos = 0\<rparr>, []) = Some (Ok 3, (f', w'))"
    using sample_coded_write [OF k, of "''old''" 0] by auto
  have m: "encode_mode (wrap_encoder assoc_http flip_codecs sample_brotli sample_record) \<noteq> Plain"
    and c: "encode_mode (wrap_encoder assoc_http flip_codecs sample_brotli sample_record) = Brotli \<longrightarrow> calm []"
    by (simp_all add: k)
  have fits: "length (image_bytes (\<lambda>s. cur_bytes (fst s)) (r_res_body sample_record)) \<le> max_body sample_tune"
    by (simp add: sample_record_def image_bytes_def sample_tune_def)
  from compressed_roundtrip [OF flip_store.compressed_store_axioms m c sample_ok(1-4) w _ _ fits
      calm_Nil scripted_calm, of "\<lparr>cur_bytes = content f', cur_pos = 3\<rparr>" "[]" True]
  obtain rec' p' v' where "barc_read assoc_http cursor_olio grow_buf scripted_tempfile flip_decoders
      True sample_tune \<lparr>cur_bytes = content f', cur_pos = 3\<rparr> [] = Some (Ok (Some rec'), (p', v'))"
    "same_record assoc_http (\<lambda>s. cur_bytes (fst s)) rec' sample_record"
    by auto
  with w show ?thesis by blast
qed

text \<open>
  C5: Durability of compressed records: after any run of the writing side with failures, a
  compressed record is written and \<^verbatim>\<open>write\<close> returns its offset; if it was written with Brotli, no
  operation on the file failed during this write. Then, whatever the writing side does further,
  with other records written, compressed or not, failures and panics, the record is read from that
  offset with the same contents. The conditions on the reader are those of the round trip.
\<close>
theorem compressed_records_stay:
  assumes "compressed_store fs p_bytes p_patience s_bytes s_off s_patience g_bytes g_off g_patience
      cs bm H inp outp enc ds sound d_bytes d_off d_patience tmp"
    and "barc_run H fs cs disk (s0, log0)" and "bf_held s0"
    and "barc_writer_write H fs cs st rec s0 w = Some (Ok start, (s1, w1))"
    and "rtranclp (barc_step H fs cs) (s1, log0 @ [(start, st, rec)]) (s, log)"
    and "encode_mode (wrap_encoder H cs st rec) \<noteq> Plain"
    and "encode_mode (wrap_encoder H cs st rec) = Brotli \<longrightarrow> calm w"
    and "image_ok fs s_bytes s_off (r_req_body rec)" and "image_ok fs s_bytes s_off (r_res_body rec)"
    and "blocks_ok H rec" and "r_type rec \<noteq> Reserved"
    and "p_bytes p = disk_bytes (bf_disk s)" and "rp_tell fs p = start"
    and "length (image_bytes s_bytes (r_res_body rec)) \<le> max_body tune"
    and "calm v" and "\<And>d w. calm w \<Longrightarrow> \<exists>f w'. tmp d w = (Inr f, w') \<and> calm w'"
  shows "\<exists>rec' p' v'. barc_read H fs bm tmp ds chk tune p v = Some (Ok (Some rec'), (p', v')) \<and>
    same_record H s_bytes rec' rec"
  by (rule compressed_store.coded_entry_read [OF assms(1-5) refl assms(6-14)
      compressed_store.quietI [OF assms(1,15,16)]])

theorem compressed_records_stay_witness:
  "\<exists>s1 w1 s rec' p' v'. barc_writer_write assoc_http cursor_olio flip_codecs sample_gzip sample_record
      (open_store ''old'') [] = Some (Ok 3, (s1, w1)) \<and>
    barc_step assoc_http cursor_olio flip_codecs
      (s1, [(3, sample_gzip, sample_record)]) (s, [(3, sample_gzip, sample_record)]) \<and> \<not> bf_held s \<and>
    barc_read assoc_http cursor_olio grow_buf scripted_tempfile flip_decoders True sample_tune
      \<lparr>cur_bytes = disk_bytes (bf_disk s), cur_pos = 3\<rparr> [] = Some (Ok (Some rec'), (p', v')) \<and>
    same_record assoc_http (\<lambda>s. cur_bytes (fst s)) rec' sample_record"
proof -
  have k: "encode_mode (wrap_encoder assoc_http flip_codecs sample_gzip sample_record) = Gzip"
    by (simp add: sample_encoder)
  obtain f' w' where w: "barc_write assoc_http cursor_olio flip_codecs sample_gzip sample_record
      (\<lparr>content = ''old'', fpos = 0\<rparr>, []) = Some (Ok 3, (f', w'))"
    using sample_coded_write [OF k, of "''old''" 0] by auto
  let ?s1 = "(open_store ''old'')\<lparr>bf_disk := Some (content f'), bf_file := Some (fpos f')\<rparr>"
  have h: "bf_held (open_store ''old'')" "bf_held ?s1" by (simp_all add: open_store_def)
  have wr: "barc_writer_write assoc_http cursor_olio flip_codecs sample_gzip sample_record
      (open_store ''old'') [] = Some (Ok 3, (?s1, w'))"
    using w by (simp add: barc_writer_write_def open_store_def Let_def)
  let ?s = "barc_writer_drop ?s1"
  note drop = barc_step.dropped [OF h(2), of assoc_http cursor_olio flip_codecs "[(3, sample_gzip, sample_record)]"]
  then have more: "rtranclp (barc_step assoc_http cursor_olio flip_codecs)
      (?s1, [] @ [(3, sample_gzip, sample_record)]) (?s, [(3, sample_gzip, sample_record)])"
    by (simp add: r_into_rtranclp)
  have m: "encode_mode (wrap_encoder assoc_http flip_codecs sample_gzip sample_record) \<noteq> Plain"
    and c: "encode_mode (wrap_encoder assoc_http flip_codecs sample_gzip sample_record) = Brotli \<longrightarrow> calm []"
    by (simp_all add: k)
  have fits: "length (image_bytes (\<lambda>s. cur_bytes (fst s)) (r_res_body sample_record)) \<le> max_body sample_tune"
    by (simp add: sample_record_def image_bytes_def sample_tune_def)
  from compressed_records_stay [OF flip_store.compressed_store_axioms run_open h(1) wr more m c
      sample_ok(1-4) _ _ fits calm_Nil scripted_calm, of "\<lparr>cur_bytes = disk_bytes (bf_disk ?s), cur_pos = 3\<rparr>" True]
  obtain rec' p' v' where r: "barc_read assoc_http cursor_olio grow_buf scripted_tempfile flip_decoders
      True sample_tune \<lparr>cur_bytes = disk_bytes (bf_disk ?s), cur_pos = 3\<rparr> [] =
        Some (Ok (Some rec'), (p', v'))"
    "same_record assoc_http (\<lambda>s. cur_bytes (fst s)) rec' sample_record"
    by auto
  have "\<not> bf_held ?s" by (simp add: barc_writer_drop_def)
  then show ?thesis using wr drop r by blast
qed

text \<open>
  Why Brotli needs a file system without failures: when the disk is full at the write in
  \<^verbatim>\<open>Drop\<close>, \<^verbatim>\<open>finish\<close> has returned a success already, and what is in the file encodes nothing.
\<close>
theorem brotli_finish_hides_loss:
  "\<exists>fw'. encode_finish flip_codecs
      (EncBrotli ([], ''ab''), (\<lparr>content = [], fpos = 0\<rparr>, [None, Some (0, OtherIo 28)])) = (Inr (), fw') \<and>
    \<not> flip_coded (content (fst fw')) ''ab''"
  by (simp add: flip_encoder_def flip_coded_def split_beta file_put_def put_at_def)

text \<open>
  C14: On a file system without failures \<^verbatim>\<open>write\<close> succeeds, with any strategy, on every record
  whose parts fit the head's fields and whose length, compressed and not, is within the maximum:
  it returns the old length of the file as the offset and appends the head and, uncompressed,
  exactly the payload, or else an encoding of the payload without its padding, whose length is the
  one in the head. The encoders do not fail unless the file does.
\<close>
theorem write_succeeds:
  assumes "calm_writer fs p_bytes p_patience s_bytes s_off s_patience g_bytes g_off g_patience
      cs inp outp enc"
    and "encode_mode (wrap_encoder H cs st rec) = k"
    and "image_ok fs s_bytes s_off (r_req_body rec)" and "image_ok fs s_bytes s_off (r_res_body rec)"
    and "calm w" and "\<And>m a. mh_advise fs m a = None"
    and "head_in_range (payload_head H s_bytes k rec)"
    and "h_len (payload_head H s_bytes k rec) + 2 \<le> V2_MAX_RECORD"
    and "\<And>out. k \<noteq> Plain \<Longrightarrow> enc k out (record_payload H s_bytes False rec) \<Longrightarrow>
      length out \<le> V2_MAX_RECORD"
  shows "\<exists>f' w' out. barc_write H fs cs st rec (f, w) = Some (Ok (length (content f)), (f', w')) \<and>
    content f' = content f @ head_bytes ((payload_head H s_bytes k rec)\<lparr>h_len := length out\<rparr>) @ out \<and>
    fpos f' = length (content f') \<and>
    (if k = Plain then out = record_payload H s_bytes True rec
     else enc k out (record_payload H s_bytes False rec))"
proof -
  have "compressed_writer fs p_bytes p_patience s_bytes s_off s_patience g_bytes g_off g_patience
      cs inp outp enc"
    using assms(1) by (simp add: calm_writer_def)
  then show ?thesis
    using calm_writer.barc_write_succeeds [OF assms] by (simp add: compressed_writer.coded_head_def)
qed

theorem write_succeeds_witness:
  "(\<exists>f' w'. barc_write assoc_http cursor_olio flip_codecs NoCompress sample_record
       (\<lparr>content = ''old'', fpos = 0\<rparr>, [None]) = Some (Ok 3, (f', w')) \<and>
     content f' = ''old'' @ sample_bytes) \<and>
   (\<exists>f' w' h. barc_write assoc_http cursor_olio flip_codecs sample_gzip sample_record
       (\<lparr>content = ''old'', fpos = 0\<rparr>, [None]) = Some (Ok 3, (f', w')) \<and>
     content f' = ''old'' @ head_bytes h @ map flip_byte (''url: /a'' @ CRLF @ ''abc'') @ [flip_end] \<and>
     h_len h = 13 \<and> h_compress h = Gzip)"
proof
  let ?sb = "\<lambda>s :: cursor \<times> nat. cur_bytes (fst s)"
  have k: "encode_mode (wrap_encoder assoc_http flip_codecs NoCompress sample_record) = Plain"
    by (simp add: sample_ok)
  have len: "h_len (payload_head assoc_http ?sb Plain sample_record) + 2 \<le> V2_MAX_RECORD"
    by (simp add: sample_head_fields v2_defs)
  obtain f' w' where "barc_write assoc_http cursor_olio flip_codecs NoCompress sample_record
      (\<lparr>content = ''old'', fpos = 0\<rparr>, [None]) = Some (Ok 3, (f', w'))"
    "content f' = ''old'' @ head_bytes ((payload_head assoc_http ?sb Plain sample_record)
       \<lparr>h_len := length (record_payload assoc_http ?sb True sample_record)\<rparr>) @
       record_payload assoc_http ?sb True sample_record"
    using write_succeeds [OF flip_calm.calm_writer_axioms k sample_ok(1,2) _ _ sample_ok(5) len,
        where w = "[None]" and f = "\<lparr>content = ''old'', fpos = 0\<rparr>"] by auto
  moreover have "(payload_head assoc_http ?sb Plain sample_record)
       \<lparr>h_len := length (record_payload assoc_http ?sb True sample_record)\<rparr> =
      payload_head assoc_http ?sb Plain sample_record"
    by (simp add: payload_head_def Let_def)
  ultimately show "\<exists>f' w'. barc_write assoc_http cursor_olio flip_codecs NoCompress sample_record
       (\<lparr>content = ''old'', fpos = 0\<rparr>, [None]) = Some (Ok 3, (f', w')) \<and>
     content f' = ''old'' @ sample_bytes"
    by (auto simp: entry_bytes_def)
next
  let ?sb = "\<lambda>s :: cursor \<times> nat. cur_bytes (fst s)"
  let ?h = "payload_head assoc_http ?sb Gzip sample_record"
  have k: "encode_mode (wrap_encoder assoc_http flip_codecs sample_gzip sample_record) = Gzip"
    by (simp add: sample_encoder)
  have g: "Gzip \<noteq> Plain" by simp
  obtain f' w' out where "barc_write assoc_http cursor_olio flip_codecs sample_gzip sample_record
      (\<lparr>content = ''old'', fpos = 0\<rparr>, [None]) = Some (Ok 3, (f', w'))"
    "content f' = ''old'' @ head_bytes (?h\<lparr>h_len := length out\<rparr>) @ out"
    "flip_coded out (record_payload assoc_http ?sb False sample_record)"
    using write_succeeds [OF flip_calm.calm_writer_axioms k sample_ok(1,2) _ _
        sample_coded_bounds(1,2) [OF g] sample_coded_bounds(3) [OF g, where sb = ?sb],
        where w = "[None]" and f = "\<lparr>content = ''old'', fpos = 0\<rparr>"] by auto
  then show "\<exists>f' w' h. barc_write assoc_http cursor_olio flip_codecs sample_gzip sample_record
       (\<lparr>content = ''old'', fpos = 0\<rparr>, [None]) = Some (Ok 3, (f', w')) \<and>
     content f' = ''old'' @ head_bytes h @ map flip_byte (''url: /a'' @ CRLF @ ''abc'') @ [flip_end] \<and>
     h_len h = 13 \<and> h_compress h = Gzip"
    by (intro exI [of _ f'] exI [of _ w'] exI [of _ "?h\<lparr>h_len := length out\<rparr>"])
      (simp add: flip_coded_def sample_coded_payload sample_coded_head CRLF_def)
qed

end
