(* ===== verification/Futio_Client.thy ===== *)
theory Futio_Client
  imports Futio_Decode Futio_Forward Futio_Collect
begin

text \<open>
  Requests and their recording (\<^verbatim>\<open>body-image-futio/src/wrappers.rs\<close> and
  \<^verbatim>\<open>lib.rs\<close>) and the receiving of a response as a dialog (\<^verbatim>\<open>fetch.rs\<close>).

  What is not under \<^verbatim>\<open>src/\<close> is a parameter. The request builder of the \<^emph>\<open>http\<close> crate is its
  finishing method \<open>build\<close>, which \<^verbatim>\<open>Builder::body\<close> is; \<^emph>\<open>hyper\<close>'s body type is the record of
  the ways to make one; its client is a function from the request to what it answers, \<open>None\<close> when
  it never does. A \<^verbatim>\<open>timeout\<close> of \<^emph>\<open>tokio\<close> has a flag of the environment: whether the time was up
  first. \<^verbatim>\<open>StreamExt::forward\<close> is a parameter for each kind of sink, with the contract
  \<open>forwarder\<close>: what its documentation says, in terms of the sinks' own polls.
\<close>

section \<open>Requests\<close>

text \<open>\<^verbatim>\<open>http::Request\<close>, as its accessors show it.\<close>

record ('m, 'u, 'h, 'b) request =
  rq_method :: 'm
  rq_uri :: 'u
  rq_headers :: 'h
  rq_body :: 'b

record ('m, 'u, 'h, 's, 'b) request_record =
  rr_request :: "('m, 'u, 'h, 'b) request"
  rr_prolog :: "('m, 'u, 'h, 's) prolog"

type_synonym ('m, 'u, 'h, 'b) build = "'b \<Rightarrow> flaw + ('m, 'u, 'h, 'b) request"

text \<open>The end of every method of \<^verbatim>\<open>RequestRecorder\<close>: what the built request has is cloned.\<close>

definition recorded ::
  "('m, 'u, 'h, 'b) build \<Rightarrow> 'b \<Rightarrow> 's body_image
     \<Rightarrow> (flaw, ('m, 'u, 'h, 's, 'b) request_record) result" where
  "recorded build b body =
     (case build b of
        Inl e \<Rightarrow> Err e
      | Inr rq \<Rightarrow> Ok \<lparr>rr_request = rq,
          rr_prolog = \<lparr>pro_method = rq_method rq, pro_url = rq_uri rq,
            pro_req_headers = rq_headers rq, pro_req_body = body\<rparr>\<rparr>)"

text \<open>\<^verbatim>\<open>from_slice\<close>, unless there is nothing.\<close>

definition slice_image :: "bytes \<Rightarrow> ('e, 's body_image) result" where
  "slice_image buf =
     (if buf = [] then Ok image_empty
      else (case image_from_slice buf of
          Inr b \<Rightarrow> Ok b | Inl (Panic m) \<Rightarrow> Inl (Panic m) | Inl (Fail e) \<Rightarrow> Inl (Panic ''from_slice'')))"

record ('s, 'q, 'b) hyper_body =
  hb_empty :: 'b
  hb_from :: "bytes \<Rightarrow> 'b"
  hb_wrap_stream :: "('s, unit, 'q) async_image \<Rightarrow> 'b"

definition hyper_record ::
  "('s, 'q, 'b) hyper_body \<Rightarrow> ('m, 'u, 'h, 'b) build
     \<Rightarrow> (flaw, ('m, 'u, 'h, 's, 'b) request_record) result" where
  "hyper_record hb build = recorded build (hb_empty hb) image_empty"

definition hyper_record_body ::
  "('s, 'q, 'b) hyper_body \<Rightarrow> ('m, 'u, 'h, 'b) build \<Rightarrow> bytes
     \<Rightarrow> (flaw, ('m, 'u, 'h, 's, 'b) request_record) result" where
  "hyper_record_body hb build buf =
     (case build (hb_from hb buf) of
        Inl e \<Rightarrow> Err e
      | Inr rq \<Rightarrow> bindR (slice_image buf) (\<lambda>body. recorded (\<lambda>b. Inr rq) (hb_from hb buf) body))"

definition hyper_record_body_image ::
  "('p, 's, 'g) olio \<Rightarrow> ('s, 'q, 'b) hyper_body \<Rightarrow> ('m, 'u, 'h, 'b) build \<Rightarrow> 's body_image
     \<Rightarrow> 'q futio_tunables \<Rightarrow> (flaw, ('m, 'u, 'h, 's, 'b) request_record) result" where
  "hyper_record_body_image fs hb build body tune =
     recorded build
       (if \<not> image_is_empty body then hb_wrap_stream hb (async_image_new fs lenient body tune)
        else hb_empty hb) body"

text \<open>
  The same for a \<^verbatim>\<open>StreamWrapper\<close> as the body; \<open>new\<close> is its constructor, such as
  \<open>permit_image_new fs\<close>, and \<open>env_tmp\<close> the environment's directory in the default tunables.
\<close>

definition wrapper_record ::
  "('s body_image \<Rightarrow> 'q futio_tunables \<Rightarrow> 'b) \<Rightarrow> path \<Rightarrow> ('m, 'u, 'h, 'b) build
     \<Rightarrow> (flaw, ('m, 'u, 'h, 's, 'b) request_record) result" where
  "wrapper_record new env_tmp build =
     recorded build (new image_empty (futio_tunables_new env_tmp)) image_empty"

definition wrapper_record_body ::
  "('s body_image \<Rightarrow> 'q futio_tunables \<Rightarrow> 'b) \<Rightarrow> path \<Rightarrow> ('m, 'u, 'h, 'b) build \<Rightarrow> bytes
     \<Rightarrow> (flaw, ('m, 'u, 'h, 's, 'b) request_record) result" where
  "wrapper_record_body new env_tmp build buf =
     bindR (slice_image buf) (\<lambda>req_body.
       recorded build (new req_body (futio_tunables_new env_tmp)) req_body)"

definition wrapper_record_body_image ::
  "('s body_image \<Rightarrow> 'q futio_tunables \<Rightarrow> 'b) \<Rightarrow> ('m, 'u, 'h, 'b) build \<Rightarrow> 's body_image
     \<Rightarrow> 'q futio_tunables \<Rightarrow> (flaw, ('m, 'u, 'h, 's, 'b) request_record) result" where
  "wrapper_record_body_image new build body tune = recorded build (new body tune) body"

section \<open>Responses\<close>

record ('v, 'c, 'h, 'x) response =
  rs_version :: 'v
  rs_status :: 'c
  rs_headers :: 'h
  rs_body :: 'x

record ('m, 'u, 'v, 'c, 'h, 's, 'x) monolog =
  ml_prolog :: "('m, 'u, 'h, 's) prolog"
  ml_response :: "('v, 'c, 'h, 'x) response"

record ('m, 'u, 'v, 'c, 'h, 's) in_dialog =
  ind_prolog :: "('m, 'u, 'h, 's) prolog"
  ind_version :: 'v
  ind_status :: 'c
  ind_res_headers :: 'h
  ind_res_body :: body_sink

text \<open>\<^verbatim>\<open>InDialog::prepare\<close>\<close>

definition in_dialog_prepare ::
  "'h hyperx \<Rightarrow> ('m, 'u, 'v, 'c, 'h, 's) in_dialog \<Rightarrow> io_script
     \<Rightarrow> (futio_error, ('m, 'u, 'v, 'c, 'h, 's) dialog) result \<times> io_script" where
  "in_dialog_prepare Y d w =
     (let res_decoded = (if find_chunked Y (ind_res_headers d) then [Chunked] else [])
      in case prepare (ind_res_body d) w of
           (Inl f, w') \<Rightarrow> (map_err FBody (Inl f), w')
         | (Inr b, w') \<Rightarrow>
             (Ok (dialog_new (ind_prolog d)
                \<lparr>epi_version = ind_version d, epi_status = ind_status d,
                 epi_res_headers = ind_res_headers d, epi_res_body = b,
                 epi_res_decoded = res_decoded\<rparr>), w'))"

text \<open>The sink that \<^verbatim>\<open>resp_future\<close> starts with, by the \<^verbatim>\<open>Content-Length\<close> header.\<close>

definition response_sink ::
  "temp_fn \<Rightarrow> tunables \<Rightarrow> (flaw + nat) option \<Rightarrow> io_script
     \<Rightarrow> (futio_error, body_sink) result \<times> io_script" where
  "response_sink tmp tune content_length w =
     (case content_length of
        Some (Inr l) \<Rightarrow>
          if max_body tune < l then (Err (ContentLengthTooLong l), w)
          else if max_body_ram tune < l
          then (case sink_with_fs tmp (temp_dir tune) w of (r, w') \<Rightarrow> (map_err FBody r, w'))
          else (Ok (sink_with_ram l), w)
      | Some (Inl e) \<Rightarrow> (Err (OtherFlaw e), w)
      | None \<Rightarrow> (Ok (sink_with_ram (max_body_ram tune)), w))"

text \<open>
  \<^verbatim>\<open>body.forward(&mut sink)\<close>, for the three sinks; \<open>None\<close> when it never completes. What the
  dispatched one does depends on whether a \<^verbatim>\<open>DispatchPool\<close> is registered with the threads that poll
  it, the flag \<open>pool\<close>.
\<close>

type_synonym ('x, 'k, 'w) forwarding =
  "'x \<Rightarrow> 'k \<Rightarrow> 'w \<Rightarrow> ((futio_error, unit) result \<times> ('k \<times> 'w)) option"

record ('x, 'q) forwards =
  fw_direct :: "('x, (bytes, unit, 'q) async_sink, io_script) forwarding"
  fw_permit :: "('x, (bytes, 'q) permit_sink, io_script \<times> schedule) forwarding"
  fw_dispatch :: "bool \<Rightarrow> ('x, (bytes, 'q) dispatch_sink, io_script \<times> schedule) forwarding"

definition resp_body ::
  "bool \<Rightarrow> ('x, 'q) forwards \<Rightarrow> 'q futio_tunables \<Rightarrow> 'x \<Rightarrow> body_sink \<Rightarrow> io_script \<Rightarrow> schedule
     \<Rightarrow> (futio_error, body_sink, io_script) outcome" where
  "resp_body pool F tune body bsink w q =
     (case blocking_policy tune of
        Direct \<Rightarrow>
          (case fw_direct F body (async_sink_new lenient bsink tune) w of
             None \<Rightarrow> None
           | Some (r, (sink, w')) \<Rightarrow> Some (bindR r (\<lambda>_. Ok (async_into_inner sink)), w'))
      | Permit sem \<Rightarrow>
          (case fw_permit F body (permit_sink_new bsink tune) (w, q) of
             None \<Rightarrow> None
           | Some (r, (sink, (w', q'))) \<Rightarrow> Some (bindR r (\<lambda>_. Ok (permit_into_inner sink)), w'))
      | Dispatch \<Rightarrow>
          (case fw_dispatch F pool body (dispatch_sink_new bsink tune) (w, q) of
             None \<Rightarrow> None
           | Some (r, (sink, (w', q'))) \<Rightarrow> Some (bindR r (\<lambda>_. dispatch_into_inner sink), w')))"

definition resp_future ::
  "bool \<Rightarrow> temp_fn \<Rightarrow> 'h hyperx \<Rightarrow> ('x, 'q) forwards \<Rightarrow> ('m, 'u, 'v, 'c, 'h, 's, 'x) monolog
     \<Rightarrow> 'q futio_tunables \<Rightarrow> io_script \<Rightarrow> schedule
     \<Rightarrow> (futio_error, ('m, 'u, 'v, 'c, 'h, 's) in_dialog, io_script) outcome" where
  "resp_future pool tmp Y F monolog tune w q =
     (let parts = ml_response monolog
      in bindO (Some (response_sink tmp (image tune) (hy_content_length Y (rs_headers parts)) w))
        (\<lambda>bsink w.
          bindO (resp_body pool F tune (rs_body parts) bsink w q) (\<lambda>res_body w.
            Some (Ok \<lparr>ind_prolog = ml_prolog monolog, ind_version = rs_version parts,
              ind_status = rs_status parts, ind_res_headers = rs_headers parts,
              ind_res_body = res_body\<rparr>, w))))"

section \<open>Fetching\<close>

text \<open>\<^verbatim>\<open>tokio::time::timeout\<close> around a future's outcome, if a time is set.\<close>

definition with_timeout ::
  "nat option \<Rightarrow> (nat \<Rightarrow> futio_error) \<Rightarrow> bool \<Rightarrow> (futio_error, 'a) result option
     \<Rightarrow> (futio_error, 'a) result option" where
  "with_timeout t err late r =
     (case t of
        None \<Rightarrow> r
      | Some d \<Rightarrow> if late \<or> r = None then Some (Err (err d)) else r)"

text \<open>What the environment does to one request: both timers, the files, the permits.\<close>

record fetch_env =
  fe_res_late :: bool
  fe_body_late :: bool
  fe_script :: io_script
  fe_schedule :: schedule

definition request_dialog ::
  "bool \<Rightarrow> temp_fn \<Rightarrow> 'h hyperx \<Rightarrow> ('x, 'q) forwards
     \<Rightarrow> (('m, 'u, 'h, 'b) request \<Rightarrow> (flaw + ('v, 'c, 'h, 'x) response) option)
     \<Rightarrow> ('m, 'u, 'h, 's, 'b) request_record \<Rightarrow> 'q futio_tunables \<Rightarrow> fetch_env
     \<Rightarrow> (futio_error, ('m, 'u, 'v, 'c, 'h, 's) dialog) result option" where
  "request_dialog pool tmp Y F client rr tune env =
     (case with_timeout (res_timeout tune) ResponseTimeout (fe_res_late env)
         (case client (rr_request rr) of
            None \<Rightarrow> None
          | Some (Inl e) \<Rightarrow> Some (Err (FHyper e))
          | Some (Inr response) \<Rightarrow>
              Some (Ok \<lparr>ml_prolog = rr_prolog rr, ml_response = response\<rparr>)) of
        None \<Rightarrow> None
      | Some (Inl f) \<Rightarrow> Some (Inl f)
      | Some (Inr monolog) \<Rightarrow>
          (case with_timeout (body_timeout tune) BodyTimeout (fe_body_late env)
              (case resp_future pool tmp Y F monolog tune (fe_script env) (fe_schedule env) of
                 None \<Rightarrow> None
               | Some (Inl f, w) \<Rightarrow> Some (Inl f)
               | Some (Inr d, w) \<Rightarrow> Some (Ok (d, w))) of
             None \<Rightarrow> None
           | Some (Inl f) \<Rightarrow> Some (Inl f)
           | Some (Inr (d, w)) \<Rightarrow> Some (fst (in_dialog_prepare Y d w))))"

text \<open>
  \<^verbatim>\<open>fetch\<close> runs it as a task of a runtime of its own, on whose threads no \<^verbatim>\<open>DispatchPool\<close> is
  registered. A panic in the task is an error of joining it.
\<close>

definition fetch ::
  "(string \<Rightarrow> flaw) \<Rightarrow> temp_fn \<Rightarrow> 'h hyperx \<Rightarrow> ('x, 'q) forwards
     \<Rightarrow> (('m, 'u, 'h, 'b) request \<Rightarrow> (flaw + ('v, 'c, 'h, 'x) response) option)
     \<Rightarrow> ('m, 'u, 'h, 's, 'b) request_record \<Rightarrow> 'q futio_tunables \<Rightarrow> fetch_env
     \<Rightarrow> (futio_error, ('m, 'u, 'v, 'c, 'h, 's) dialog) result option" where
  "fetch join_error tmp Y F client rr tune env =
     (case request_dialog False tmp Y F client rr tune env of
        None \<Rightarrow> None
      | Some (Inl (Panic m)) \<Rightarrow> Some (Err (OtherFlaw (join_error m)))
      | Some r \<Rightarrow> Some r)"

end
