(* ===== verification/Futio_Fetch.thy ===== *)
theory Futio_Fetch
  imports Futio_Client
begin

text \<open>
  What a recorded request sends and what \<^verbatim>\<open>fetch\<close> makes of a response: the contract of
  \<^verbatim>\<open>StreamExt::forward\<close>, the sinks on a file system that does not fail, the sink of the
  policy \<^verbatim>\<open>Dispatch\<close> on threads without a pool, as those of \<^verbatim>\<open>fetch\<close>, and the properties of
  \<open>Futio_Client\<close>.
\<close>

section \<open>The contract of forward\<close>

text \<open>
  \<open>stream x\<close> is what a body gives, item by item, and the error it may end with. Forwarding it to a
  sink polls the sink until it is ready before each item and until it is flushed at the end: where
  a client that does so is done, it is done, with the same result; and it succeeds only so.
\<close>

locale forwarder =
  fixes poll :: "'k \<Rightarrow> 'w \<Rightarrow> (futio_error, unit) result poll \<times> ('k \<times> 'w)"
    and send :: "'k \<Rightarrow> bytes \<Rightarrow> (futio_error, unit) result \<times> 'k"
    and fw :: "('x, 'k, 'w) forwarding"
    and stream :: "'x \<Rightarrow> bytes list \<times> futio_error option"
  assumes completes: "snd (stream x) = None \<Longrightarrow>
      drive poll send n (fst (stream x)) k w = (Ready r, kw) \<Longrightarrow> fw x k w = Some (r, kw)"
    and completed: "fw x k w = Some (Ok (), kw) \<Longrightarrow> snd (stream x) = None \<and>
      (\<exists>n. drive poll send n (fst (stream x)) k w = (Ready (Ok ()), kw))"

text \<open>Without a bound on the polls.\<close>

partial_function (option) drive_on ::
  "('k \<Rightarrow> 'w \<Rightarrow> (futio_error, unit) result poll \<times> ('k \<times> 'w))
     \<Rightarrow> ('k \<Rightarrow> bytes \<Rightarrow> (futio_error, unit) result \<times> 'k) \<Rightarrow> bytes list \<Rightarrow> 'k \<Rightarrow> 'w
     \<Rightarrow> ((futio_error, unit) result \<times> ('k \<times> 'w)) option" where
  "drive_on poll send bufs k w =
     (case poll k w of
        (Pending, (k', w')) \<Rightarrow> drive_on poll send bufs k' w'
      | (Ready (Inl e), kw) \<Rightarrow> Some (Inl e, kw)
      | (Ready (Inr u), (k', w')) \<Rightarrow>
          (case bufs of
             [] \<Rightarrow> Some (Ok (), (k', w'))
           | b # bs \<Rightarrow>
               (case send k' b of
                  (Inl e, k'') \<Rightarrow> Some (Inl e, (k'', w'))
                | (Inr u, k'') \<Rightarrow> drive_on poll send bs k'' w')))"

definition forward_all ::
  "('k \<Rightarrow> 'w \<Rightarrow> (futio_error, unit) result poll \<times> ('k \<times> 'w))
     \<Rightarrow> ('k \<Rightarrow> bytes \<Rightarrow> (futio_error, unit) result \<times> 'k)
     \<Rightarrow> (bytes list \<times> futio_error option, 'k, 'w) forwarding" where
  "forward_all poll send x k w =
     (case drive_on poll send (fst x) k w of
        None \<Rightarrow> None
      | Some (Inl f, kw) \<Rightarrow> Some (Inl f, kw)
      | Some (Inr u, kw) \<Rightarrow> Some (case snd x of None \<Rightarrow> Ok () | Some e \<Rightarrow> Err e, kw))"

lemma drive_on_complete:
  "drive poll send n bufs k w = (Ready r, kw) \<Longrightarrow> drive_on poll send bufs k w = Some (r, kw)"
proof (induction n arbitrary: bufs k w)
  case (Suc n)
  then show ?case
    by (subst drive_on.simps) (auto split: prod.splits poll.splits sum.splits list.splits)
qed simp

lemma drive_on_sound:
  assumes "drive_on poll send bufs k w = Some y"
  shows "\<exists>n. drive poll send n bufs k w = (Ready (fst y), snd y)"
  using _ assms
proof (rule drive_on.raw_induct
    [where P = "\<lambda>p s b k w y. \<exists>n. drive p s n b k w = (Ready (fst y), snd y)"])
  fix on p s and b :: "bytes list" and k w y
  assume IH: "\<And>p s b k w y. on p s b k w = Some y \<Longrightarrow>
      \<exists>n. drive p s n b k w = (Ready (fst y), snd y)"
    and run: "(case p k w of
        (Ready (Inl e), kw) \<Rightarrow> Some (Inl e, kw)
      | (Ready (Inr u), (k', w')) \<Rightarrow>
          (case b of
             [] \<Rightarrow> Some (Ok (), (k', w'))
           | c # bs \<Rightarrow>
               (case s k' c of
                  (Inl e, k'') \<Rightarrow> Some (Inl e, (k'', w'))
                | (Inr u, k'') \<Rightarrow> on p s bs k'' w'))
      | (Pending, (k', w')) \<Rightarrow> on p s b k' w') = Some y"
  obtain r k' w' where p: "p k w = (r, (k', w'))" by (metis prod.exhaust)
  have more: "\<exists>n. drive p s n b k w = (Ready (fst y), snd y)"
    if "on p s c k1 w1 = Some y" "\<And>n. drive p s (Suc n) b k w = drive p s n c k1 w1" for c k1 w1
    using IH [OF that(1)] that(2) by metis
  show "\<exists>n. drive p s n b k w = (Ready (fst y), snd y)"
  proof (cases r)
    case Pending
    then show ?thesis using more [of b k' w'] run p by simp
  next
    case (Ready x)
    show ?thesis
    proof (cases x)
      case (Inl e)
      then show ?thesis using run p Ready by (intro exI [of _ "Suc 0"]) auto
    next
      case (Inr u)
      show ?thesis
      proof (cases b)
        case Nil
        then show ?thesis using run p Ready Inr by (intro exI [of _ "Suc 0"]) auto
      next
        case (Cons c cs)
        obtain r1 k1 where s: "s k' c = (r1, k1)" by (rule prod.exhaust)
        show ?thesis
        proof (cases r1)
          case (Inl e)
          then show ?thesis using run p Ready Inr Cons s by (intro exI [of _ "Suc 0"]) auto
        next
          case r1: (Inr u1)
          then show ?thesis using more [of cs k1 w'] run p Ready Inr Cons s by simp
        qed
      qed
    qed
  qed
qed

lemma forward_all_forwarder: "forwarder poll send (forward_all poll send) (\<lambda>x. x)"
proof
  fix x :: "bytes list \<times> futio_error option" and n k w r kw
  assume "snd x = None" and "drive poll send n (fst x) k w = (Ready r, kw)"
  then show "forward_all poll send x k w = Some (r, kw)"
    using drive_on_complete [of poll send n "fst x" k w r kw]
    by (cases r) (auto simp: forward_all_def)
next
  fix x :: "bytes list \<times> futio_error option" and k w kw
  assume h: "forward_all poll send x k w = Some (Ok (), kw)"
  then have x: "snd x = None" and run: "drive_on poll send (fst x) k w = Some (Ok (), kw)"
    by (auto simp: forward_all_def split: option.splits sum.splits)
  show "snd x = None \<and> (\<exists>n. drive poll send n (fst x) k w = (Ready (Ok ()), kw))"
    using x drive_on_sound [OF run] by simp
qed

section \<open>Sending on a file system that does not fail\<close>

context direct_sink
begin

lemma direct_calm:
  assumes "calm w" and quiet: "\<And>d w. calm w \<Longrightarrow> \<exists>f w'. tmp d w = (Inr f, w') \<and> calm w'"
    and "direct s w = (r, (s', w'))"
  shows "calm w' \<and> (\<forall>e. r \<noteq> Ready (Err (FBody (BodyIo e))))"
proof -
  have wb: "\<exists>u body' w'. sink_write_back tmp d body w = (Inr u, (body', w')) \<and> calm w'"
    if w: "calm w" for d body w
  proof -
    obtain f w1 where f: "tmp d w = (Inr f, w1)" "calm w1" using quiet [OF w] by blast
    show ?thesis
    proof (cases "bs_state body")
      case (SinkRam v)
      obtain f2 w2 where "write_buffers (f, w1) v = (Inr (), (f2, w2))" "calm w2"
        using write_buffers_calm [of "(f, w1)" v] f(2) by auto
      then show ?thesis using SinkRam f(1) by (simp add: sink_write_back_def)
    next
      case (FsWrite g)
      then show ?thesis using w by (simp add: sink_write_back_def)
    qed
  qed
  have written: "\<exists>body' w'. blocking_write I tmp t body b w = (Ok None, (body', w')) \<and> calm w'"
    if w: "calm w" for t body b w
  proof -
    obtain u body1 w1 where one: "(if sink_is_ram body then sink_write_back tmp (temp_dir t) body w
        else (Ok (), (body, w))) = (Inr u, (body1, w1))" "calm w1"
      using wb [OF w, of "temp_dir t" body] w by (cases "sink_is_ram body") auto
    obtain body2 w2 where "sink_write_all body1 (ib_as_ref I b) w1 = (Ok (), (body2, w2))" "calm w2"
      using sink_push_calm [OF one(2), of body1 "ib_as_ref I b"] by (auto simp: sink_write_all_eq_push)
    then show ?thesis
      using one(1) by (cases "sink_is_ram body") (simp_all add: blocking_write_def)
  qed
  show ?thesis
  proof (cases "as_buf s")
    case None
    then show ?thesis using assms(1,3) by (auto simp: poll_flush_impl_def)
  next
    case (Some b)
    obtain b1 w1 where "sink_push (as_body s) (ib_into I b) w = (Ok (), (b1, w1))" "calm w1"
      using sink_push_calm [OF assms(1)] by blast
    moreover obtain b2 w2 where
      "blocking_write I tmp (image (as_tune s)) (as_body s) b w = (Ok None, (b2, w2))" "calm w2"
      using written [OF assms(1)] by blast
    ultimately show ?thesis
      using Some assms(1,3) by (auto simp: poll_flush_impl_def poll_send_def Let_def split: if_splits)
  qed
qed

lemma drive_calm:
  assumes "calm w" and quiet: "\<And>d w. calm w \<Longrightarrow> \<exists>f w'. tmp d w = (Inr f, w') \<and> calm w'"
    and "drive direct async_send n bufs s w = (Ready x, (s', w'))"
  shows "calm w' \<and> (\<forall>e. x \<noteq> Err (FBody (BodyIo e)))"
  using assms(1,3)
proof (induction n arbitrary: bufs s w)
  case (Suc n)
  obtain r s1 w1 where d: "direct s w = (r, (s1, w1))" by (metis prod.exhaust)
  note c = direct_calm [OF Suc.prems(1) quiet d]
  show ?case
    using Suc.prems(2) Suc.IH [of w1] c d
    by (auto simp: async_send_def split: poll.splits sum.splits list.splits if_splits)
qed simp

lemma direct_done:
  assumes "sink_inv s" and "\<And>b. b \<in> set bufs \<Longrightarrow> valid b"
  shows "\<exists>x s' w'. drive direct async_send (Suc (length bufs)) bufs s w = (Ready x, (s', w')) \<and>
    x \<noteq> Err OpCanceled"
proof -
  let ?full = "sink_bytes (as_body s) @ pending_bytes s @ concat (map (ib_as_ref I) bufs)"
  obtain x s' w' where d: "drive direct async_send (Suc (length bufs)) bufs s w = (Ready x, (s', w'))"
    using direct_drive [OF assms refl refl, of bufs w] by blast
  have "x \<noteq> Err OpCanceled"
    using direct_drive [OF assms refl refl, of bufs w] d
    by (cases x) (auto simp: stopped_def simp del: drive.simps take_append)
  then show ?thesis using d by blast
qed

end

section \<open>Dispatching without a pool\<close>

text \<open>
  Without a \<^verbatim>\<open>DispatchPool\<close> a poll of the dispatched sink that must block panics, and any other
  does what it does with one.
\<close>

abbreviation "no_pool \<equiv> ''called `Result::unwrap()` on an `Err` value''"

lemma nopool_poll:
  "dispatch_poll_flush I tmp dbg False k wq = (p, kw) \<Longrightarrow>
     p = Ready (panic no_pool) \<or> dispatch_poll_flush I tmp dbg True k wq = (p, kw)"
  by (cases "(I, tmp, dbg, False, k, wq)" rule: dispatch_poll_flush.cases)
    (auto split: prod.splits if_splits)

lemma nopool_drive_ok:
  "drive (dispatch_poll_flush I tmp dbg False) send n bufs k w = (Ready (Ok ()), kw) \<Longrightarrow>
     drive (dispatch_poll_flush I tmp dbg True) send n bufs k w = (Ready (Ok ()), kw)"
proof (induction n arbitrary: bufs k w)
  case (Suc n)
  obtain p k1 w1 where p: "dispatch_poll_flush I tmp dbg False k w = (p, (k1, w1))"
    by (metis prod.exhaust)
  have "dispatch_poll_flush I tmp dbg True k w = (p, (k1, w1))"
    using nopool_poll [OF p] Suc.prems p by auto
  then show ?case
    using Suc.prems Suc.IH p by (auto split: poll.splits sum.splits list.splits prod.splits)
qed simp

lemma with_arbiter_buf [simp]:
  "needs_blocking I (with_arbiter c a) = needs_blocking I c" "as_buf (with_arbiter c a) = as_buf c"
  "(with_arbiter c a)\<lparr>as_buf := b\<rparr> = with_arbiter (c\<lparr>as_buf := b\<rparr>) a"
  by (simp_all add: needs_blocking_def with_arbiter_def split: option.splits)

context direct_sink
begin

text \<open>A flush that need not block writes to RAM, or nothing, and cannot fail.\<close>

lemma unblocked_flush:
  assumes "sink_inv s" and "\<not> needs_blocking I s"
    and "length (sink_bytes (as_body s) @ pending_bytes s) \<le> max_body (image (as_tune s))"
  obtains s' where "direct s w = (Ready (Ok ()), (s', w))"
proof (cases "as_buf s")
  case None
  then show ?thesis using that by (simp add: poll_flush_impl_def)
next
  case (Some b)
  have n: "bs_len (as_body s) + ib_remaining I b = length (sink_bytes (as_body s) @ pending_bytes s)"
    using assms(1) Some inp.remaining by (simp add: sink_inv_def sink_ok_def pending_bytes_def)
  show ?thesis
  proof (cases "ib_remaining I b = 0")
    case True
    then show ?thesis using that Some by (simp add: poll_flush_impl_def poll_send_def)
  next
    case False
    then have "sink_is_ram (as_body s)" "bs_len (as_body s) + ib_remaining I b \<le> max_body_ram (image (as_tune s))"
      using assms(2,3) Some n by (auto simp: needs_blocking_def Let_def)
    moreover from this obtain body where "sink_push (as_body s) (ib_into I b) w = (Ok (), (body, w))"
      by (cases "0 < length (ib_into I b)") (auto simp: sink_push_def sink_is_ram_def split: sink_state.splits)
    ultimately show ?thesis
      using that Some assms(3) False n by (simp add: poll_flush_impl_def poll_send_def Let_def)
  qed
qed

lemma needs_blocking_iff:
  assumes "sink_inv s"
  shows "needs_blocking I s \<longleftrightarrow>
    (let n = length (sink_bytes (as_body s) @ pending_bytes s)
     in pending_bytes s \<noteq> [] \<and> n \<le> max_body (image (as_tune s)) \<and>
        \<not> (sink_is_ram (as_body s) \<and> n \<le> max_body_ram (image (as_tune s))))"
  using assms inp.remaining
  by (auto simp: needs_blocking_def pending_bytes_def sink_inv_def sink_ok_def Let_def split: option.splits)

text \<open>Whatever the schedule: a body that would leave RAM ends in a panic, any other is sent.\<close>

lemma nopool_drive:
  assumes "sink_inv s" and "\<And>b. b \<in> set bufs \<Longrightarrow> valid b"
    and "full = sink_bytes (as_body s) @ pending_bytes s @ concat (map (ib_as_ref I) bufs)"
    and "tune = image (as_tune s)" and "length full \<le> max_body tune"
  shows "if full \<noteq> sink_bytes (as_body s) \<and>
        \<not> (sink_is_ram (as_body s) \<and> length full \<le> max_body_ram tune)
    then \<exists>kw. drive (dispatch_poll_flush I tmp dbg False) dispatch_start_send (Suc (length bufs)) bufs
        (DispSink (Some (with_arbiter s Void))) (w, q) = (Ready (panic no_pool), kw)
    else \<exists>s'. drive (dispatch_poll_flush I tmp dbg False) dispatch_start_send (Suc (length bufs)) bufs
        (DispSink (Some (with_arbiter s Void))) (w, q) =
          (Ready (Ok ()), (DispSink (Some (with_arbiter s' Void)), (w, q)))"
  using assms
proof (induction bufs arbitrary: s)
  note poll = poll_flush_eq [of I stateful tmp "with_arbiter s Void" for s]
  {
    case Nil
    show ?case
    proof (cases "needs_blocking I s")
      case True
      then show ?thesis
        using needs_blocking_iff [OF Nil.prems(1)] Nil.prems(3,4) poll [of s w]
        by (auto simp: Let_def)
    next
      case False
      obtain s' where "direct s w = (Ready (Ok ()), (s', w))"
        by (rule unblocked_flush [OF Nil.prems(1) False, where w = w]) (use Nil.prems(3,4,5) in simp)
      then show ?thesis
        using False needs_blocking_iff [OF Nil.prems(1)] Nil.prems(3,4,5) poll [of s w]
        by (auto simp: Let_def)
    qed
  next
    case (Cons b bs)
    show ?case
    proof (cases "needs_blocking I s")
      case True
      then show ?thesis
        using needs_blocking_iff [OF Cons.prems(1)] Cons.prems(3,4) poll [of s w]
        by (auto simp: Let_def)
    next
      case False
      obtain s1 where s1: "direct s w = (Ready (Ok ()), (s1, w))"
        by (rule unblocked_flush [OF Cons.prems(1) False, where w = w]) (use Cons.prems(3,4,5) in simp)
      note f = direct_flushed [OF Cons.prems(1) s1]
      let ?s = "s1\<lparr>as_buf := Some b\<rparr>"
      let ?r = "ib_as_ref I b @ concat (map (ib_as_ref I) bs)"
      have full: "full = sink_bytes (as_body s) @ pending_bytes s @ ?r" using Cons.prems(3) by simp
      have p: "pending_bytes s = [] \<or> sink_is_ram (as_body s) \<and>
          length (sink_bytes (as_body s) @ pending_bytes s) \<le> max_body_ram tune"
        using False needs_blocking_iff [OF Cons.prems(1)] Cons.prems(3,4,5) by (auto simp: Let_def)
      then have ram: "sink_is_ram (as_body s1) = sink_is_ram (as_body s)"
        using f Cons.prems(4) by (auto simp: sink_inv_def sink_ok_def)
      have inv: "sink_inv ?s" using f Cons.prems(2) [of b] by (simp add: sink_inv_def)
      have step: "drive (dispatch_poll_flush I tmp dbg False) dispatch_start_send (Suc (length (b # bs))) (b # bs)
          (DispSink (Some (with_arbiter s Void))) (w, q) =
        drive (dispatch_poll_flush I tmp dbg False) dispatch_start_send (Suc (length bs)) bs
          (DispSink (Some (with_arbiter ?s Void))) (w, q)"
        using poll [of s w] False s1 f by (simp add: async_send_def)
      have cond: "full \<noteq> sink_bytes (as_body s) \<and>
          \<not> (sink_is_ram (as_body s) \<and> length full \<le> max_body_ram tune) \<longleftrightarrow>
        full \<noteq> sink_bytes (as_body ?s) \<and>
          \<not> (sink_is_ram (as_body ?s) \<and> length full \<le> max_body_ram tune)"
        using full p ram f by (cases "?r = []") auto
      have "full = sink_bytes (as_body ?s) @ pending_bytes ?s @ concat (map (ib_as_ref I) bs)"
        "tune = image (as_tune ?s)"
        using full f Cons.prems(4) by (simp_all add: pending_bytes_def)
      from Cons.IH [OF inv _ this Cons.prems(5)] Cons.prems(2) show ?thesis
        unfolding step cond by simp
    qed
  }
qed

end

section \<open>The body of a response\<close>

context flushing_sink
begin

lemma sent_body:
  assumes "good k" and k: "core k = async_sink_new lenient body tune"
    and body: "sink_ok body" "sink_bytes body = []" and valid: "\<And>b. b \<in> set bufs \<Longrightarrow> valid b"
    and run: "drive poll send n bufs k w = (Ready (Ok ()), (k', w'))"
  defines "full \<equiv> concat (map (ib_as_ref I) bufs)"
  shows "good k' \<and> as_buf (core k') = None \<and> sink_ok (as_body (core k')) \<and>
    sink_bytes (as_body (core k')) = full \<and> length full \<le> max_body (image tune) \<and>
    (sink_is_ram (as_body (core k')) \<longleftrightarrow> sink_is_ram body \<and> length full \<le> max_body_ram (image tune))"
proof -
  let ?s = "async_sink_new lenient body tune"
  have s: "as_body ?s = body" "as_tune ?s = tune" by (simp_all add: async_sink_new_def)
  have inv: "sink_inv ?s" using body(1) by (rule new_inv)
  have refined: "drive direct async_send (Suc (length bufs)) bufs ?s (script w) =
      (Ready (Ok ()), (core k', script w')) \<and> good k' \<and> as_buf (core k') = None"
    using drive_refines [OF assms(1) _ valid run] inv k by simp
  have full: "full = sink_bytes (as_body ?s) @ pending_bytes ?s @ concat (map (ib_as_ref I) bufs)"
    using body(2) new_inv(2) [of lenient body tune] by (simp add: full_def s)
  have "sink_inv (core k') \<and> sink_bytes (as_body (core k')) = full \<and>
      (length full \<le> max_body (image tune) \<or> as_body (core k') = body) \<and>
      (sink_is_ram (as_body (core k')) \<longleftrightarrow>
        sink_is_ram body \<and> (full = [] \<or> length full \<le> max_body_ram (image tune)))"
    using direct_drive [OF inv valid full refl, of "script w"] refined body(2)
    by (simp add: s sent_def del: drive.simps)
  then show ?thesis
    using refined body(2) by (auto simp: sink_inv_def)
qed

end

context flushing_sink
begin

lemma sends_calm:
  assumes "good k" and k: "core k = async_sink_new lenient body tune"
    and body: "sink_ok body" "sink_bytes body = []" and valid: "\<And>b. b \<in> set bufs \<Longrightarrow> valid b"
    and run: "drive poll send n bufs k w = (Ready x, (k', w'))" and "x \<noteq> Err OpCanceled"
    and calm: "calm (script w)" and quiet: "\<And>d w. calm w \<Longrightarrow> \<exists>f w'. tmp d w = (Inr f, w') \<and> calm w'"
    and max: "length (concat (map (ib_as_ref I) bufs)) \<le> max_body (image tune)"
  shows "x = Ok () \<and> calm (script w')"
proof -
  let ?s = "async_sink_new lenient body tune"
  let ?full = "concat (map (ib_as_ref I) bufs)"
  have s: "as_body ?s = body" "as_tune ?s = tune" by (simp_all add: async_sink_new_def)
  have inv: "sink_inv ?s" using body(1) by (rule new_inv)
  have refined: "drive direct async_send (Suc (length bufs)) bufs ?s (script w) =
      (Ready x, (core k', script w'))"
    using drive_refines [OF assms(1) _ valid run assms(7)] inv k by simp
  note c = drive_calm [OF calm quiet refined]
  have full: "?full = sink_bytes (as_body ?s) @ pending_bytes ?s @ concat (map (ib_as_ref I) bufs)"
    using body(2) new_inv(2) [of lenient body tune] by (simp add: s)
  show ?thesis
  proof (cases x)
    case (Inl f)
    have "(\<exists>n. f = Fail (FBody (BodyTooLong n)) \<and> max_body (image tune) < n \<and> n \<le> length ?full) \<or>
        (\<exists>io. f = Fail (FBody (BodyIo io)))"
      using direct_drive [OF inv valid full refl, of "script w"] refined
      by (auto simp: s Inl stopped_def simp del: drive.simps)
    then show ?thesis using c max Inl by auto
  qed (use c in simp)
qed

end

text \<open>A body that does not stay in RAM: for its length, or because the sink is a file already.\<close>

definition leaves_ram :: "'q futio_tunables \<Rightarrow> bytes list \<Rightarrow> body_sink \<Rightarrow> bool" where
  "leaves_ram tune items bsink \<longleftrightarrow> concat items \<noteq> [] \<and>
     \<not> (sink_is_ram bsink \<and> length (concat items) \<le> max_body_ram (image tune))"

definition must_block :: "'h hyperx \<Rightarrow> 'q futio_tunables \<Rightarrow> 'h \<Rightarrow> bytes list \<Rightarrow> bool" where
  "must_block Y tune headers items \<longleftrightarrow> concat items \<noteq> [] \<and>
     (max_body_ram (image tune) < length (concat items) \<or>
      (\<exists>l. hy_content_length Y headers = Some (Inr l) \<and> max_body_ram (image tune) < l))"

locale response_bodies =
  temp_files tmp for tmp +
  fixes dbg :: bool and F :: "('x, 'q) forwards" and stream :: "'x \<Rightarrow> bytes list \<times> futio_error option"
  assumes direct: "forwarder (poll_flush_impl input_bytes lenient tmp) async_send (fw_direct F) stream"
    and permit: "forwarder (permit_poll_flush input_bytes tmp dbg) permit_start_send (fw_permit F) stream"
    and dispatch: "forwarder (dispatch_poll_flush input_bytes tmp dbg pool) dispatch_start_send
      (fw_dispatch F pool) stream"
begin

lemma sinks: "direct_sink input_bytes (\<lambda>_. True) tmp"
  by (intro direct_sink.intro in_bytes.input_bufs_axioms temp_files_axioms)

lemmas direct_flushing = direct_sink.plain_progressing [OF sinks, THEN progressing_sink.axioms(1)]
lemmas permit_flushing = direct_sink.permit_progressing [OF sinks, THEN progressing_sink.axioms(1)]
lemmas dispatch_flushing = direct_sink.dispatch_progressing [OF sinks, THEN progressing_sink.axioms(1)]

lemma as_refs: "map (ib_as_ref input_bytes) bufs = bufs"
  by (simp add: input_bytes_def)

definition received :: "'q futio_tunables \<Rightarrow> 'x \<Rightarrow> body_sink \<Rightarrow> body_sink \<Rightarrow> bool" where
  "received tune x bsink sink \<longleftrightarrow>
     (let full = concat (fst (stream x))
      in snd (stream x) = None \<and> sink_ok sink \<and> sink_bytes sink = full \<and>
         length full \<le> max_body (image tune) \<and>
         (sink_is_ram sink \<longleftrightarrow> sink_is_ram bsink \<and> length full \<le> max_body_ram (image tune)))"

lemma resp_body_ok:
  assumes "resp_body pool F tune x bsink w q = Some (Ok sink, w')"
    and body: "sink_ok bsink" "sink_bytes bsink = []"
  shows "received tune x bsink sink"
proof (cases "blocking_policy tune")
  case Direct
  then obtain k w1 where fw: "fw_direct F x (async_sink_new lenient bsink tune) w = Some (Ok (), (k, w1))"
    and k: "sink = as_body k"
    using assms(1) by (auto simp: resp_body_def async_into_inner_def split: option.splits)
  from forwarder.completed [OF direct fw] obtain n where "snd (stream x) = None"
    "drive (poll_flush_impl input_bytes lenient tmp) async_send n (fst (stream x))
      (async_sink_new lenient bsink tune) w = (Ready (Ok ()), (k, w1))"
    by blast
  with flushing_sink.sent_body [OF direct_flushing _ _ body _ this(2)] k show ?thesis
    by (simp add: received_def as_refs)
next
  case (Permit sem)
  then obtain k w1 where fw: "fw_permit F x (permit_sink_new bsink tune) (w, q) = Some (Ok (), (k, w1))"
    and k: "sink = as_body (sink_core (ps_sink k))"
    using assms(1)
    by (auto simp: resp_body_def permit_into_inner_def async_into_inner_def sink_core_def
        split: option.splits)
  from forwarder.completed [OF permit fw] obtain n where "snd (stream x) = None"
    "drive (permit_poll_flush input_bytes tmp dbg) permit_start_send n (fst (stream x))
      (permit_sink_new bsink tune) (w, q) = (Ready (Ok ()), (k, w1))"
    by blast
  with flushing_sink.sent_body [OF permit_flushing _ _ body _ this(2), of tune] k Permit
  show ?thesis by (simp add: received_def as_refs blocking_semaphore_def)
next
  case Dispatch
  then obtain k w1 where fw: "fw_dispatch F pool x (dispatch_sink_new bsink tune) (w, q) = Some (Ok (), (k, w1))"
    and k: "dispatch_into_inner k = (Ok sink :: (futio_error, body_sink) result)"
    using assms(1) by (auto simp: resp_body_def split: option.splits)
  then have k: "sink = as_body (dispatch_core k)"
    by (cases k rule: dispatch_into_inner.cases) (auto simp: async_into_inner_def sink_core_def)
  from forwarder.completed [OF dispatch fw] obtain n where n: "snd (stream x) = None"
    "drive (dispatch_poll_flush input_bytes tmp dbg pool) dispatch_start_send n (fst (stream x))
      (dispatch_sink_new bsink tune) (w, q) = (Ready (Ok ()), (k, w1))"
    by blast
  then have "drive (dispatch_poll_flush input_bytes tmp dbg True) dispatch_start_send n (fst (stream x))
      (dispatch_sink_new bsink tune) (w, q) = (Ready (Ok ()), (k, w1))"
    by (cases pool) (simp_all add: nopool_drive_ok)
  with flushing_sink.sent_body [OF dispatch_flushing _ _ body _ this, of tune] k n(1)
  show ?thesis by (simp add: received_def as_refs)
qed

lemma resp_body_completes:
  assumes x: "stream x = (items, None)"
    and body: "sink_ok bsink" "sink_bytes bsink = []"
    and calm: "calm w" and quiet: "\<And>d w. calm w \<Longrightarrow> \<exists>f w'. tmp d w = (Inr f, w') \<and> calm w'"
    and max: "length (concat items) \<le> max_body (image tune)"
    and sched: "blocking_policy tune = Direct \<or>
      FutCanceled \<notin> set q \<and> length items < length (filter ((=) FutReady) q)"
    and pool: "blocking_policy tune = Dispatch \<longrightarrow> pool"
  shows "\<exists>sink w'. resp_body pool F tune x bsink w q = Some (Ok sink, w') \<and> calm w'"
proof (cases "blocking_policy tune")
  case Direct
  obtain r s' w' where run: "drive (poll_flush_impl input_bytes lenient tmp) async_send
      (Suc (length items)) items (async_sink_new lenient bsink tune) w = (Ready r, (s', w'))" "r \<noteq> Err OpCanceled"
    using direct_sink.direct_done [OF sinks direct_sink.new_inv(1) [OF sinks body(1), where A = lenient and tune = tune] TrueI] by blast
  note r = flushing_sink.sends_calm [OF direct_flushing TrueI refl body _ run calm quiet]
  have "fw_direct F x (async_sink_new lenient bsink tune) w = Some (r, (s', w'))"
    using forwarder.completes [OF direct, of x "Suc (length items)"] run(1) by (simp add: x)
  then show ?thesis using r max Direct by (simp add: resp_body_def as_refs)
next
  case (Permit sem)
  then have good: "permit_good input_bytes (permit_sink_new bsink tune)"
    by (simp add: blocking_semaphore_def)
  have q: "FutCanceled \<notin> set (snd (w, q))" "length items < length (filter ((=) FutReady) (snd (w, q)))"
    using sched Permit by simp_all
  have inv: "direct_sink.sink_inv (\<lambda>_. True) 
      (sink_core (ps_sink (permit_sink_new bsink tune :: (bytes, 'q) permit_sink)))"
    using direct_sink.new_inv(1) [OF sinks body(1)] by simp
  obtain n r k' w' where run: "drive (permit_poll_flush input_bytes tmp dbg) permit_start_send n items
      (permit_sink_new bsink tune) (w, q) = (Ready r, (k', w'))" "r \<noteq> Err OpCanceled"
    using progressing_sink.drive_completes [OF direct_sink.permit_progressing [OF sinks] good inv TrueI q]
    by blast
  have c: "calm (fst (w, q))" using calm by simp
  note r = flushing_sink.sends_calm [OF permit_flushing good new_sinks(1) body TrueI run c quiet]
  have "fw_permit F x (permit_sink_new bsink tune) (w, q) = Some (r, (k', w'))"
    using forwarder.completes [OF permit, of x n] run(1) by (simp add: x)
  then show ?thesis using r max Permit by (cases w') (simp add: resp_body_def as_refs)
next
  case Dispatch
  have good: "dispatch_good input_bytes (dispatch_sink_new bsink tune)" by simp
  have q: "FutCanceled \<notin> set (snd (w, q))" "length items < length (filter ((=) FutReady) (snd (w, q)))"
    using sched Dispatch by simp_all
  have inv: "direct_sink.sink_inv (\<lambda>_. True) 
      (dispatch_core (dispatch_sink_new bsink tune :: (bytes, 'q) dispatch_sink))"
    using direct_sink.new_inv(1) [OF sinks body(1)] by simp
  obtain n r k' w' where run: "drive (dispatch_poll_flush input_bytes tmp dbg True) dispatch_start_send
      n items (dispatch_sink_new bsink tune) (w, q) = (Ready r, (k', w'))" "r \<noteq> Err OpCanceled"
    using progressing_sink.drive_completes [OF direct_sink.dispatch_progressing [OF sinks] good inv TrueI q]
    by blast
  have c: "calm (fst (w, q))" using calm by simp
  have r: "r = Ok ()" "calm (fst w')"
    using flushing_sink.sends_calm [OF dispatch_flushing good new_sinks(2) body TrueI run c quiet] max
    by (simp_all add: as_refs)
  have "dispatch_good input_bytes k' \<and> as_buf (dispatch_core k') = None"
    using flushing_sink.sent_body [OF dispatch_flushing good new_sinks(2) body TrueI
        run(1) [unfolded r(1)]] by simp
  then have "\<exists>sink. dispatch_into_inner k' = (Ok sink :: (futio_error, body_sink) result)"
    by (cases k' rule: dispatch_into_inner.cases) (auto simp: needs_blocking_def)
  moreover have "fw_dispatch F pool x (dispatch_sink_new bsink tune) (w, q) = Some (r, (k', w'))"
    using forwarder.completes [OF dispatch, of x pool n] run(1) pool Dispatch by (simp add: x)
  ultimately show ?thesis using r Dispatch by (cases w') (auto simp: resp_body_def)
qed

text \<open>Without a pool, in RAM or not at all.\<close>

lemma resp_body_nopool:
  assumes x: "stream x = (items, None)"
    and body: "sink_ok bsink" "sink_bytes bsink = []"
    and max: "length (concat items) \<le> max_body (image tune)"
    and dispatch_policy: "blocking_policy tune = Dispatch"
  shows "if leaves_ram tune items bsink
    then \<exists>w'. resp_body False F tune x bsink w q = Some (panic no_pool, w')
    else \<exists>sink. resp_body False F tune x bsink w q = Some (Ok sink, w)"
proof -
  let ?s = "async_sink_new lenient bsink tune :: (bytes, unit, 'q) async_sink"
  let ?poll = "dispatch_poll_flush input_bytes tmp dbg False"
  have s: "as_body ?s = bsink" "as_tune ?s = tune"
    "dispatch_sink_new bsink tune = DispSink (Some (with_arbiter ?s Void))"
    by (simp_all add: async_sink_new_def dispatch_sink_new_def with_arbiter_def)
  have "direct_sink.sink_inv (\<lambda>_. True) ?s" by (rule direct_sink.new_inv(1) [OF sinks body(1)])
  note run = direct_sink.nopool_drive [OF sinks this TrueI refl refl,
      where bufs = items and dbg = dbg and w = w and q = q,
      unfolded direct_sink.new_inv(2) [OF sinks] s as_refs body(2)]
  have fw: "fw_dispatch F False x (dispatch_sink_new bsink tune) (w, q) = Some (r, kw)"
    if "drive ?poll dispatch_start_send (Suc (length items)) items (dispatch_sink_new bsink tune) (w, q) =
      (Ready r, kw)" for r kw
    using forwarder.completes [OF dispatch, of x False "Suc (length items)"] that by (simp add: x)
  show ?thesis
  proof (cases "leaves_ram tune items bsink")
    case True
    then obtain kw where "drive ?poll dispatch_start_send (Suc (length items)) items
        (dispatch_sink_new bsink tune) (w, q) = (Ready (panic no_pool), kw)"
      using run max by (auto simp: leaves_ram_def s(3) simp del: drive.simps)
    from fw [OF this] show ?thesis
      using True dispatch_policy by (cases kw) (auto simp: resp_body_def)
  next
    case False
    then obtain s' where "drive ?poll dispatch_start_send (Suc (length items)) items
        (dispatch_sink_new bsink tune) (w, q) = (Ready (Ok ()), (DispSink (Some (with_arbiter s' Void)), (w, q)))"
      using run max by (auto simp: leaves_ram_def s(3) simp del: drive.simps)
    from fw [OF this] show ?thesis
      using False dispatch_policy by (simp add: resp_body_def)
  qed
qed

end

context temp_files
begin

lemma response_sink_ok:
  assumes "response_sink tmp tune cl w = (Ok s, w')"
  shows "sink_ok s \<and> sink_bytes s = [] \<and>
    (sink_is_ram s \<longleftrightarrow> (\<forall>l. cl = Some (Inr l) \<longrightarrow> l \<le> max_body_ram tune))"
  using assms with_fs_cases [of "temp_dir tune" w]
  by (auto simp: response_sink_def split: option.splits sum.splits if_splits prod.splits)

end

lemma with_timeout_ok: "with_timeout t err late r = Some (Ok a) \<Longrightarrow> r = Some (Ok a)"
  by (auto simp: with_timeout_def split: option.splits if_splits)

lemma in_dialog_prepare_ok:
  assumes "in_dialog_prepare Y d w = (Ok (dlg :: ('m, 'u, 'v, 'c, 'h, 's) dialog), w')"
    and "sink_ok (ind_res_body d)"
  shows "\<exists>b. dlg = dialog_new (ind_prolog d)
      \<lparr>epi_version = ind_version d, epi_status = ind_status d, epi_res_headers = ind_res_headers d,
       epi_res_body = b,
       epi_res_decoded = (if find_chunked Y (ind_res_headers d) then [Chunked] else [])\<rparr> \<and>
    image_holds b (sink_bytes (ind_res_body d)) \<and>
    (image_is_ram b \<longleftrightarrow> sink_is_ram (ind_res_body d) \<or> sink_bytes (ind_res_body d) = [])"
  using assms(1) prepare_holds [OF assms(2), of w, where 's = 's]
  by (auto simp: in_dialog_prepare_def Let_def split: prod.splits sum.splits)

context response_bodies
begin

lemma request_dialog_ok:
  assumes "request_dialog pool tmp Y F client rr tune env = Some (Ok (d :: ('m, 'u, 'v, 'c, 'h, 's) dialog))"
  shows "\<exists>resp. client (rr_request rr) = Some (Inr resp) \<and> snd (stream (rs_body resp)) = None \<and>
    (\<exists>b. d = dialog_new (rr_prolog rr)
        \<lparr>epi_version = rs_version resp, epi_status = rs_status resp, epi_res_headers = rs_headers resp,
         epi_res_body = b,
         epi_res_decoded = (if find_chunked Y (rs_headers resp) then [Chunked] else [])\<rparr> \<and>
      image_holds b (concat (fst (stream (rs_body resp)))) \<and> bi_len b \<le> max_body (image tune) \<and>
      (image_is_ram b \<longleftrightarrow> bi_len b = 0 \<or> bi_len b \<le> max_body_ram (image tune) \<and>
        (\<forall>l. hy_content_length Y (rs_headers resp) = Some (Inr l) \<longrightarrow> l \<le> max_body_ram (image tune))))"
proof -
  obtain m ind w where
    m: "with_timeout (res_timeout tune) ResponseTimeout (fe_res_late env)
         (case client (rr_request rr) of
            None \<Rightarrow> None
          | Some (Inl e) \<Rightarrow> Some (Err (FHyper e))
          | Some (Inr response) \<Rightarrow>
              Some (Ok \<lparr>ml_prolog = rr_prolog rr, ml_response = response\<rparr>)) = Some (Ok m)" and
    ind: "with_timeout (body_timeout tune) BodyTimeout (fe_body_late env)
        (case resp_future pool tmp Y F m tune (fe_script env) (fe_schedule env) of
           None \<Rightarrow> None
         | Some (Inl f, w) \<Rightarrow> Some (Inl f)
         | Some (Inr d, w) \<Rightarrow> Some (Ok (d, w))) = Some (Ok (ind, w))" and
    d: "fst (in_dialog_prepare Y ind w) = Ok d"
    using assms unfolding request_dialog_def by (auto split: option.splits sum.splits prod.splits)
  obtain resp where resp: "client (rr_request rr) = Some (Inr resp)"
    "m = \<lparr>ml_prolog = rr_prolog rr, ml_response = resp\<rparr>"
    using with_timeout_ok [OF m] by (auto split: option.splits sum.splits)
  have "resp_future pool tmp Y F m tune (fe_script env) (fe_schedule env) = Some (Ok ind, w)"
    using with_timeout_ok [OF ind] by (auto split: option.splits sum.splits prod.splits)
  then obtain bsink w1 sink where
    s: "response_sink tmp (image tune) (hy_content_length Y (rs_headers resp)) (fe_script env) =
      (Ok bsink, w1)" and
    b: "resp_body pool F tune (rs_body resp) bsink w1 (fe_schedule env) = Some (Ok sink, w)" and
    ind: "ind = \<lparr>ind_prolog = rr_prolog rr, ind_version = rs_version resp,
      ind_status = rs_status resp, ind_res_headers = rs_headers resp, ind_res_body = sink\<rparr>"
    by (auto simp: resp_future_def resp(2) Let_def bindO_Inr_iff)
  note s = response_sink_ok [OF s]
  have r: "received tune (rs_body resp) bsink sink"
    using resp_body_ok [OF b] s by blast
  obtain w2 where d: "in_dialog_prepare Y ind w = (Ok d, w2)"
    using d by (cases "in_dialog_prepare Y ind w") simp
  have "sink_ok (ind_res_body ind)" using r by (simp add: received_def ind Let_def)
  from in_dialog_prepare_ok [OF d this] obtain b where
    b: "d = dialog_new (rr_prolog rr)
        \<lparr>epi_version = rs_version resp, epi_status = rs_status resp, epi_res_headers = rs_headers resp,
         epi_res_body = b,
         epi_res_decoded = (if find_chunked Y (rs_headers resp) then [Chunked] else [])\<rparr>"
      "image_holds b (sink_bytes sink)" "image_is_ram b \<longleftrightarrow> sink_is_ram sink \<or> sink_bytes sink = []"
    by (auto simp: ind)
  have len: "bi_len b = length (sink_bytes sink)" using image_holdsD(3) [OF b(2)] .
  show ?thesis
    using r s b(2,3) len
    by (intro exI [of _ resp] conjI exI [of _ b] resp(1) b(1)) (auto simp: received_def Let_def)
qed

end

context response_bodies
begin

lemma calm_response_sink:
  assumes "calm w" and quiet: "\<And>d w. calm w \<Longrightarrow> \<exists>f w'. tmp d w = (Inr f, w') \<and> calm w'"
    and "case cl of None \<Rightarrow> True | Some (Inl e) \<Rightarrow> False | Some (Inr l) \<Rightarrow> l \<le> max_body t"
  shows "\<exists>bsink w1. response_sink tmp t cl w = (Ok bsink, w1) \<and> calm w1"
proof -
  obtain f w0 where "tmp (temp_dir t) w = (Inr f, w0)" "calm w0"
    using quiet [OF assms(1)] by blast
  then show ?thesis
    using assms(1,3)
    by (auto simp: response_sink_def sink_with_fs_def split: option.splits sum.splits)
qed

lemma request_dialog_received:
  assumes "client (rr_request rr) = Some (Inr resp)" and "\<not> fe_res_late env" and "\<not> fe_body_late env"
    and "response_sink tmp (image tune) (hy_content_length Y (rs_headers resp)) (fe_script env) =
      (Ok bsink, w1)"
    and "resp_body pool F tune (rs_body resp) bsink w1 (fe_schedule env) = Some (Ok sink, w2)"
    and "sink_ok sink" and "calm w2"
  shows "\<exists>d :: ('m, 'u, 'v, 'c, 'h, 's) dialog. request_dialog pool tmp Y F client rr tune env = Some (Ok d)"
proof -
  from prepare_holds [OF assms(6), of w2, where 's = 's] assms(7) obtain img :: "'s body_image" and w3
    where "prepare sink w2 = (Ok img, w3)"
    by (auto split: prod.splits sum.splits)
  then show ?thesis
    using assms(1-5)
    by (simp add: request_dialog_def with_timeout_def resp_future_def in_dialog_prepare_def Let_def
        split: option.split)
qed

lemma request_dialog_completes:
  assumes "client (rr_request rr) = Some (Inr resp)" and "stream (rs_body resp) = (items, None)"
    and "\<not> fe_res_late env" and "\<not> fe_body_late env" and "calm (fe_script env)"
    and quiet: "\<And>d w. calm w \<Longrightarrow> \<exists>f w'. tmp d w = (Inr f, w') \<and> calm w'"
    and cl: "case hy_content_length Y (rs_headers resp) of
        None \<Rightarrow> True | Some (Inl e) \<Rightarrow> False | Some (Inr l) \<Rightarrow> l \<le> max_body (image tune)"
    and max: "length (concat items) \<le> max_body (image tune)"
    and sched: "blocking_policy tune = Direct \<or> FutCanceled \<notin> set (fe_schedule env) \<and>
      length items < length (filter ((=) FutReady) (fe_schedule env))"
    and pool: "blocking_policy tune = Dispatch \<longrightarrow> pool"
  shows "\<exists>d :: ('m, 'u, 'v, 'c, 'h, 's) dialog. request_dialog pool tmp Y F client rr tune env = Some (Ok d)"
proof -
  obtain bsink w1 where
    s: "response_sink tmp (image tune) (hy_content_length Y (rs_headers resp)) (fe_script env) = (Ok bsink, w1)"
    "calm w1"
    using calm_response_sink [OF assms(5) quiet cl] by blast
  obtain sink w2 where b: "resp_body pool F tune (rs_body resp) bsink w1 (fe_schedule env) = Some (Ok sink, w2)"
    "calm w2"
    using resp_body_completes [OF assms(2) _ _ s(2) quiet max sched pool] response_sink_ok [OF s(1)] by blast
  show ?thesis
    by (rule request_dialog_received
        [where client = client and rr = rr and resp = resp and env = env and Y = Y and tune = tune and bsink = bsink, OF assms(1,3,4) s(1) b(1) _ b(2)])
      (use resp_body_ok [OF b(1)] response_sink_ok [OF s(1)] in \<open>simp add: received_def Let_def\<close>)
qed

text \<open>What \<^verbatim>\<open>fetch\<close> has instead of a dialog, when a body must be written to a file.\<close>

lemma request_dialog_nopool:
  assumes "client (rr_request rr) = Some (Inr resp)" and "stream (rs_body resp) = (items, None)"
    and "\<not> fe_res_late env" and "\<not> fe_body_late env" and "calm (fe_script env)"
    and quiet: "\<And>d w. calm w \<Longrightarrow> \<exists>f w'. tmp d w = (Inr f, w') \<and> calm w'"
    and cl: "case hy_content_length Y (rs_headers resp) of
        None \<Rightarrow> True | Some (Inl e) \<Rightarrow> False | Some (Inr l) \<Rightarrow> l \<le> max_body (image tune)"
    and max: "length (concat items) \<le> max_body (image tune)"
    and dispatch_policy: "blocking_policy tune = Dispatch"
  shows "if must_block Y tune (rs_headers resp) items
    then request_dialog False tmp Y F client rr tune env =
      (Some (panic no_pool) :: (futio_error, ('m, 'u, 'v, 'c, 'h, 's) dialog) result option)
    else \<exists>d :: ('m, 'u, 'v, 'c, 'h, 's) dialog. request_dialog False tmp Y F client rr tune env = Some (Ok d)"
proof -
  obtain bsink w1 where
    s: "response_sink tmp (image tune) (hy_content_length Y (rs_headers resp)) (fe_script env) = (Ok bsink, w1)"
    "calm w1"
    using calm_response_sink [OF assms(5) quiet cl] by blast
  note b0 = response_sink_ok [OF s(1)]
  have leaves: "leaves_ram tune items bsink \<longleftrightarrow> must_block Y tune (rs_headers resp) items"
    using b0 by (auto simp: leaves_ram_def must_block_def not_le)
  have "sink_ok bsink" "sink_bytes bsink = []" using b0 by simp_all
  note run = resp_body_nopool [OF assms(2) this max dispatch_policy, of w1 "fe_schedule env"]
  show ?thesis
  proof (cases "must_block Y tune (rs_headers resp) items")
    case True
    then obtain w2 where "resp_body False F tune (rs_body resp) bsink w1 (fe_schedule env) =
        Some (panic no_pool, w2)"
      using run leaves by auto
    then show ?thesis
      using True assms(1,3,4) s(1)
      by (simp add: request_dialog_def with_timeout_def resp_future_def Let_def split: option.split)
  next
    case False
    then obtain sink where b: "resp_body False F tune (rs_body resp) bsink w1 (fe_schedule env) =
        Some (Ok sink, w1)"
      using run leaves by auto
    have "sink_ok sink" using resp_body_ok [OF b] b0 by (simp add: received_def Let_def)
    from request_dialog_received
      [where client = client and rr = rr and resp = resp and env = env and Y = Y and tune = tune and bsink = bsink, OF assms(1,3,4) s(1) b this s(2)]
    show ?thesis using False by simp
  qed
qed

end

section \<open>The properties of requests and responses\<close>


definition std_forwards :: "temp_fn \<Rightarrow> bool \<Rightarrow> (bytes list \<times> futio_error option, 'q) forwards" where
  "std_forwards tmp dbg =
     \<lparr>fw_direct = forward_all (poll_flush_impl input_bytes lenient tmp) async_send,
      fw_permit = forward_all (permit_poll_flush input_bytes tmp dbg) permit_start_send,
      fw_dispatch = (\<lambda>pool. forward_all (dispatch_poll_flush input_bytes tmp dbg pool) dispatch_start_send)\<rparr>"

interpretation plain_forward: forwarder "poll_flush_impl input_bytes lenient scripted_tempfile" async_send
    "forward_all (poll_flush_impl input_bytes lenient scripted_tempfile) async_send" "\<lambda>x. x"
  by (rule forward_all_forwarder)

interpretation std_bodies: response_bodies scripted_tempfile True "std_forwards scripted_tempfile True" "\<lambda>x. x"
  by (intro response_bodies.intro scripted_tmp.temp_files_axioms response_bodies_axioms.intro)
    (simp_all add: std_forwards_def forward_all_forwarder)

definition sample_request :: "(std_method, bytes, assoc_map, cursor \<times> nat, unit) request_record" where
  "sample_request =
     \<lparr>rr_request = \<lparr>rq_method = GET, rq_uri = ''http://a/'', rq_headers = hm_new assoc_http, rq_body = ()\<rparr>,
      rr_prolog = \<lparr>pro_method = GET, pro_url = ''http://a/'', pro_req_headers = hm_new assoc_http,
        pro_req_body = image_empty\<rparr>\<rparr>"

definition sample_response ::
  "(std_version, status_code, assoc_map, bytes list \<times> futio_error option) response" where
  "sample_response =
     \<lparr>rs_version = V11, rs_status = status_of 200, rs_headers = hm_new assoc_http,
      rs_body = ([''ab'', ''cde''], None)\<rparr>"

definition sample_env :: fetch_env where
  "sample_env =
     \<lparr>fe_res_late = False, fe_body_late = False, fe_script = [],
      fe_schedule = [FutPending, FutReady, FutReady, FutReady]\<rparr>"

text \<open>
  C21: When the client answers, the body ends without an error, no time is up, the file system does
  not fail, nothing is canceled and there are permits enough, and neither the announced nor the real
  length is more than \<^verbatim>\<open>max_body\<close>, then \<^verbatim>\<open>fetch\<close> returns a dialog, with one exception: with the
  policy \<^verbatim>\<open>Dispatch\<close>, a body that does not stay in RAM, for its length or the announced one, ends in
  a panic of the task, because no pool is registered with the threads of the runtime that \<^verbatim>\<open>fetch\<close>
  makes, and \<^verbatim>\<open>fetch\<close> returns the error \<^verbatim>\<open>Other\<close>. The same request does succeed by
  \<^verbatim>\<open>request_dialog\<close>, on threads with a pool.
\<close>
theorem fetch_succeeds:
  assumes "response_bodies tmp dbg F stream"
    and "client (rr_request rr) = Some (Inr resp)" and "stream (rs_body resp) = (items, None)"
    and "\<not> fe_res_late env" and "\<not> fe_body_late env" and "calm (fe_script env)"
    and "\<And>d w. calm w \<Longrightarrow> \<exists>f w'. tmp d w = (Inr f, w') \<and> calm w'"
    and "case hy_content_length Y (rs_headers resp) of
        None \<Rightarrow> True | Some (Inl e) \<Rightarrow> False | Some (Inr l) \<Rightarrow> l \<le> max_body (image tune)"
    and "length (concat items) \<le> max_body (image tune)"
    and "blocking_policy tune = Direct \<or> FutCanceled \<notin> set (fe_schedule env) \<and>
      length items < length (filter ((=) FutReady) (fe_schedule env))"
  shows "(if blocking_policy tune = Dispatch \<and> concat items \<noteq> [] \<and>
        (max_body_ram (image tune) < length (concat items) \<or>
         (\<exists>l. hy_content_length Y (rs_headers resp) = Some (Inr l) \<and> max_body_ram (image tune) < l))
      then fetch join_error tmp Y F client rr tune env =
        (Some (Err (OtherFlaw (join_error no_pool)))
           :: (futio_error, ('m, 'u, 'v, 'c, 'h, 's) dialog) result option)
      else \<exists>d :: ('m, 'u, 'v, 'c, 'h, 's) dialog.
        fetch join_error tmp Y F client rr tune env = Some (Ok d)) \<and>
    (\<exists>d :: ('m, 'u, 'v, 'c, 'h, 's) dialog. request_dialog True tmp Y F client rr tune env = Some (Ok d))"
proof -
  have got: "\<exists>d :: ('m, 'u, 'v, 'c, 'h, 's) dialog. request_dialog pool tmp Y F client rr tune env = Some (Ok d)"
    if "blocking_policy tune = Dispatch \<longrightarrow> pool" for pool
    using response_bodies.request_dialog_completes
      [OF assms(1), where client = client and rr = rr and resp = resp and items = items and env = env
        and Y = Y and tune = tune] assms(2-) that by blast
  show ?thesis
  proof (cases "blocking_policy tune = Dispatch")
    case True
    then show ?thesis
      using got [of True] response_bodies.request_dialog_nopool
          [where client = client and rr = rr and resp = resp and items = items and env = env
            and Y = Y and tune = tune and tmp = tmp and stream = stream and F = F,
            OF assms(1-9) True]
      by (auto simp: fetch_def must_block_def split: if_splits)
  next
    case False
    then show ?thesis using got [of True] got [of False] by (auto simp: fetch_def)
  qed
qed

lemma sample_fetch_sel [simp]:
  "\<not> fe_res_late sample_env" "\<not> fe_body_late sample_env" "calm (fe_script sample_env)"
  "fe_schedule sample_env = [FutPending, FutReady, FutReady, FutReady]"
  "rs_body sample_response = ([''ab'', ''cde''], None)"
  "hy_content_length assoc_hyperx (rs_headers sample_response) = None"
  by (simp_all add: sample_env_def sample_response_def assoc_hyperx_def)

lemma scripted_quiet: "calm w \<Longrightarrow> \<exists>f w'. scripted_tempfile d w = (Inr f, w') \<and> calm w'"
  by (auto simp: scripted_tempfile_def split: list.splits)

theorem fetch_succeeds_witness:
  "(\<exists>d :: (std_method, bytes, std_version, status_code, assoc_map, cursor \<times> nat) dialog.
    fetch Flaw scripted_tempfile assoc_hyperx (std_forwards scripted_tempfile True)
      (\<lambda>_. Some (Inr sample_response)) sample_request (sample_futio (Permit ())) sample_env = Some (Ok d)) \<and>
   fetch Flaw scripted_tempfile assoc_hyperx (std_forwards scripted_tempfile True)
      (\<lambda>_. Some (Inr sample_response)) sample_request
      (sample_futio Dispatch :: unit futio_tunables) sample_env =
    (Some (Err (OtherFlaw (Flaw no_pool)))
       :: (_, (std_method, bytes, std_version, status_code, assoc_map, cursor \<times> nat) dialog) result option)"
proof -
  note f = fetch_succeeds [where client = "\<lambda>_. Some (Inr sample_response)" and items = "[''ab'', ''cde'']"
      and rr = sample_request and Y = assoc_hyperx and join_error = Flaw and tune = "sample_futio (Permit ())",
      OF std_bodies.response_bodies_axioms refl _ sample_fetch_sel(1-3) scripted_quiet]
  note g = fetch_succeeds [where client = "\<lambda>_. Some (Inr sample_response)" and items = "[''ab'', ''cde'']"
      and rr = sample_request and Y = assoc_hyperx and join_error = Flaw and tune = "sample_futio (Dispatch :: unit blocking_policy)",
      OF std_bodies.response_bodies_axioms refl _ sample_fetch_sel(1-3) scripted_quiet]
  have p: "blocking_policy (sample_futio x) = x" "max_body_ram (image (sample_futio x)) < 5"
    "5 \<le> max_body (image (sample_futio x))" for x :: "unit blocking_policy"
    by (simp_all add: sample_futio_def sample_tune_def)
  show ?thesis
    using f g p by simp
qed


context image_streams
begin

lemma delivers:
  assumes "im_ok b" and "0 < buffer_size_fs (image tune)" and "\<And>m a. mh_advise fs m a = None"
  shows "\<exists>n items s'. collect (plain_next fs B chk) n (async_image_new fs lenient b tune) () =
      Some (items, Ready None, (s', ())) \<and> concat (map (ob_chunk B) items) = im_bytes b"
proof -
  note new = new_stream [OF assms(1,2)]
  obtain items s' where "collect (plain_next fs B chk)
      (Suc (stream_polls (async_image_new fs lenient b tune))) (async_image_new fs lenient b tune) () =
      Some (items, Ready None, (s', ()))" "concat (map (ob_chunk B) items) = im_bytes b"
    using plain_collect [OF new(1), of chk] assms(3) by (auto simp: new(2) split: option.splits)
  then show ?thesis by blast
qed

end

lemma image_empty_holds: "image_holds image_empty []"
  by (simp add: image_holds_def image_empty_def)

lemma slice_image_holds:
  assumes "slice_image buf = Ok (b :: 's body_image)"
  shows "image_holds b buf"
proof (cases "buf = []")
  case False
  obtain b' :: "'s body_image" where "image_from_slice buf = Ok b'" "image_holds b' buf"
    using image_from_slice_holds by blast
  then show ?thesis using assms False by (simp add: slice_image_def)
qed (use assms image_empty_holds in \<open>simp add: slice_image_def\<close>)

lemma recorded_Inr: "recorded build b body = Ok rr \<longleftrightarrow>
    (\<exists>rq. build b = Inr rq \<and> rr = \<lparr>rr_request = rq, rr_prolog = \<lparr>pro_method = rq_method rq,
      pro_url = rq_uri rq, pro_req_headers = rq_headers rq, pro_req_body = body\<rparr>\<rparr>)"
  by (auto simp: recorded_def split: sum.splits)

text \<open>
  What the documentation of \<^verbatim>\<open>hyper::Body\<close> says of its constructors: \<open>sends body bs\<close> is that a
  client which sends \<open>body\<close> sends \<open>bs\<close>. A wrapped stream is polled to its end.
\<close>

locale hyper_sending =
  fixes fs :: "('p, 's, 'g) olio" and B :: "'b output_buf" and chk :: bool
    and hb :: "('s, 'q, 'hb) hyper_body" and sends :: "'hb \<Rightarrow> bytes \<Rightarrow> bool"
  assumes sends_empty: "sends (hb_empty hb) []"
    and sends_from: "sends (hb_from hb bs) bs"
    and sends_stream: "collect (plain_next fs B chk) n s () = Some (items, Ready None, (s', ())) \<Longrightarrow>
      sends (hb_wrap_stream hb s) (concat (map (ob_chunk B) items))"

text \<open>An instance: a body is one of the three.\<close>

datatype ('s, 'q) plain_body = PlainEmpty | PlainFrom bytes | PlainStream "('s, unit, 'q) async_image"

definition plain_hyper :: "('s, 'q, ('s, 'q) plain_body) hyper_body" where
  "plain_hyper = \<lparr>hb_empty = PlainEmpty, hb_from = PlainFrom, hb_wrap_stream = PlainStream\<rparr>"

inductive plain_sends ::
  "('p, 's, 'g) olio \<Rightarrow> 'b output_buf \<Rightarrow> bool \<Rightarrow> ('s, 'q) plain_body \<Rightarrow> bytes \<Rightarrow> bool"
  for fs B chk where
  "plain_sends fs B chk PlainEmpty []"
| "plain_sends fs B chk (PlainFrom bs) bs"
| "collect (plain_next fs B chk) n s () = Some (items, Ready None, (s', ())) \<Longrightarrow>
     plain_sends fs B chk (PlainStream s) (concat (map (ob_chunk B) items))"

interpretation plain_sending: hyper_sending fs B chk plain_hyper "plain_sends fs B chk"
  for fs :: "('p, 's, 'g) olio" and B :: "'b output_buf" and chk
  by unfold_locales (simp_all add: plain_hyper_def plain_sends.intros)

text \<open>The prolog shows the request, with a body of these bytes.\<close>

definition records_request ::
  "('s \<Rightarrow> bytes) \<Rightarrow> ('m, 'u, 'h, 's, 'b) request_record \<Rightarrow> bytes \<Rightarrow> bool" where
  "records_request sb rr bs \<longleftrightarrow>
     pro_method (rr_prolog rr) = rq_method (rr_request rr) \<and>
     pro_url (rr_prolog rr) = rq_uri (rr_request rr) \<and>
     pro_req_headers (rr_prolog rr) = rq_headers (rr_request rr) \<and>
     image_bytes sb (pro_req_body (rr_prolog rr)) = bs"

lemma recorded_records:
  assumes "recorded build x b = Ok rr" and "\<And>b rq. build b = Inr rq \<Longrightarrow> rq_body rq = b"
  shows "records_request sb rr (image_bytes sb b) \<and> rq_body (rr_request rr) = x"
  using assms by (auto simp: recorded_Inr records_request_def)

lemma bytes_records:
  assumes "slice_image bs = (Ok b :: (flaw, 's body_image) result)" and "recorded build x b = Ok rr"
    and "\<And>b rq. build b = Inr rq \<Longrightarrow> rq_body rq = b"
  shows "records_request sb rr bs \<and> rq_body (rr_request rr) = x"
  using recorded_records [OF assms(2,3)] image_holdsD(2) [OF slice_image_holds [OF assms(1)]] by metis

lemma hyper_requests_send:
  assumes str: "image_streams (fs :: ('p, 's, 'g) olio) p_bytes p_patience s_bytes s_off s_patience
      g_bytes g_off g_patience B" and hyper: "hyper_sending fs B chk hb sends"
    and advice: "\<And>m a. mh_advise fs m a = None"
    and build: "\<And>b rq. build b = Inr rq \<Longrightarrow> rq_body rq = b"
  shows "hyper_record hb build = Ok rr \<Longrightarrow>
      records_request s_bytes rr [] \<and> sends (rq_body (rr_request rr)) []"
    and "hyper_record_body hb build bs = Ok rr \<Longrightarrow>
      records_request s_bytes rr bs \<and> sends (rq_body (rr_request rr)) bs"
    and "hyper_record_body_image fs hb build body tune = Ok rr \<Longrightarrow> image_ok fs s_bytes s_off body \<Longrightarrow>
      0 < buffer_size_fs (image tune) \<Longrightarrow>
      records_request s_bytes rr (image_bytes s_bytes body) \<and>
      sends (rq_body (rr_request rr)) (image_bytes s_bytes body)"
proof -
  assume "hyper_record hb build = Ok rr"
  then show "records_request s_bytes rr [] \<and> sends (rq_body (rr_request rr)) []"
    using recorded_records [of build "hb_empty hb" image_empty rr s_bytes] build
      hyper_sending.sends_empty [OF hyper] image_holdsD(2) [OF image_empty_holds, of s_bytes]
    by (simp add: hyper_record_def)
next
  assume "hyper_record_body hb build bs = Ok rr"
  then obtain rq and b :: "'s body_image" where b: "build (hb_from hb bs) = Inr rq"
    "slice_image bs = (Ok b :: (flaw, _) result)" "recorded (\<lambda>b. Inr rq) (hb_from hb bs) b = Ok rr"
    by (auto simp: hyper_record_body_def split: sum.splits)
  then have "recorded build (hb_from hb bs) b = Ok rr" by (simp add: recorded_def)
  from bytes_records [OF b(2) this build]
  show "records_request s_bytes rr bs \<and> sends (rq_body (rr_request rr)) bs"
    using hyper_sending.sends_from [OF hyper, of bs] by simp
next
  assume r: "hyper_record_body_image fs hb build body tune = Ok rr" and ok: "image_ok fs s_bytes s_off body"
    and buf: "0 < buffer_size_fs (image tune)"
  have "sends (if \<not> image_is_empty body then hb_wrap_stream hb (async_image_new fs lenient body tune)
      else hb_empty hb) (image_bytes s_bytes body)"
  proof (cases "image_is_empty body")
    case True
    then have "image_bytes s_bytes body = []" using ok by (simp add: image_ok_def image_is_empty_def)
    then show ?thesis using True hyper_sending.sends_empty [OF hyper] by simp
  next
    case False
    obtain n items s' where d:
      "collect (plain_next fs B chk) n (async_image_new fs lenient body tune) () = Some (items, Ready None, (s', ()))"
      "concat (map (ob_chunk B) items) = image_bytes s_bytes body"
      using image_streams.delivers [OF str ok buf advice, of chk] by auto
    show ?thesis using False hyper_sending.sends_stream [OF hyper d(1)] unfolding d(2) by simp
  qed
  then show "records_request s_bytes rr (image_bytes s_bytes body) \<and>
      sends (rq_body (rr_request rr)) (image_bytes s_bytes body)"
    using recorded_records [OF r [unfolded hyper_record_body_image_def] build, of s_bytes] by simp
qed

text \<open>
  C22: What a request made through \<^verbatim>\<open>RequestRecorder\<close> records is what it sends, by any of the three
  methods: without a body, with the given bytes, and with a body image, whose stream the system's
  memory advice must not fail for. With \<^verbatim>\<open>hyper::Body\<close> as the body, a client that sends it sends
  exactly the bytes of the recorded body, which are those that the caller gave; with an
  \<^verbatim>\<open>AsyncBodyImage\<close>, the stream that is the request's body gives exactly these bytes. The method, URL
  and headers recorded are the request's.
\<close>
theorem recorded_request_streams:
  assumes "olio_files (fs :: ('p, 's, 'g) olio) p_bytes p_patience s_bytes s_off s_patience
      g_bytes g_off g_patience"
    and "output_bufs B" and "\<And>m a. mh_advise fs m a = None" and "hyper_sending fs B chk hb sends"
    and "\<And>b rq. build b = Inr rq \<Longrightarrow> rq_body rq = b"
    and "\<And>b rq. build' b = Inr rq \<Longrightarrow> rq_body rq = b"
  shows "(hyper_record hb build' = Ok rr' \<and> bs = [] \<or>
      hyper_record_body hb build' bs = Ok rr' \<or>
      hyper_record_body_image fs hb build' body tune = Ok rr' \<and>
        image_ok fs s_bytes s_off body \<and> 0 < buffer_size_fs (image tune) \<and> bs = image_bytes s_bytes body \<longrightarrow>
      records_request s_bytes rr' bs \<and> sends (rq_body (rr_request rr')) bs) \<and>
    (wrapper_record (async_image_new fs lenient) env build = Ok rr \<and> bs = [] \<or>
      wrapper_record_body (async_image_new fs lenient) env build bs = Ok rr \<or>
      wrapper_record_body_image (async_image_new fs lenient) build body tune = Ok rr \<and>
        image_ok fs s_bytes s_off body \<and> 0 < buffer_size_fs (image tune) \<and> bs = image_bytes s_bytes body \<longrightarrow>
      records_request s_bytes rr bs \<and>
      (\<exists>n items s'. collect (plain_next fs B chk) n (rq_body (rr_request rr)) () =
        Some (items, Ready None, (s', ())) \<and> concat (map (ob_chunk B) items) = bs))"
proof (intro conjI impI)
  have str: "image_streams fs p_bytes p_patience s_bytes s_off s_patience g_bytes g_off g_patience B"
    using assms(1,2) by (rule image_streams.intro)
  {
    assume "hyper_record hb build' = Ok rr' \<and> bs = [] \<or> hyper_record_body hb build' bs = Ok rr' \<or>
      hyper_record_body_image fs hb build' body tune = Ok rr' \<and>
        image_ok fs s_bytes s_off body \<and> 0 < buffer_size_fs (image tune) \<and> bs = image_bytes s_bytes body"
    then have "records_request s_bytes rr' bs \<and> sends (rq_body (rr_request rr')) bs"
      using hyper_requests_send [OF str assms(4,3,6)] by blast
    then show "records_request s_bytes rr' bs" "sends (rq_body (rr_request rr')) bs" by simp_all
  }
  assume w: "wrapper_record (async_image_new fs lenient) env build = Ok rr \<and> bs = [] \<or>
      wrapper_record_body (async_image_new fs lenient) env build bs = Ok rr \<or>
      wrapper_record_body_image (async_image_new fs lenient) build body tune = Ok rr \<and>
        image_ok fs s_bytes s_off body \<and> 0 < buffer_size_fs (image tune) \<and> bs = image_bytes s_bytes body"
  have default: "0 < buffer_size_fs (image (futio_tunables_new env))"
    by (simp add: futio_tunables_new_def tunables_new_def)
  have "\<exists>b t. recorded build (async_image_new fs lenient b t) b = Ok rr \<and>
      image_ok fs s_bytes s_off b \<and> image_bytes s_bytes b = bs \<and> 0 < buffer_size_fs (image t)"
    using w
  proof (elim disjE conjE)
    assume "wrapper_record (async_image_new fs lenient) env build = Ok rr" and "bs = []"
    then show ?thesis
      using default image_holdsD(1,2) [OF image_empty_holds]
      by (intro exI [of _ image_empty] exI [of _ "futio_tunables_new env"])
        (simp add: wrapper_record_def)
  next
    assume "wrapper_record_body (async_image_new fs lenient) env build bs = Ok rr"
    then obtain b where b: "slice_image bs = (Ok b :: (flaw, 's body_image) result)"
      "recorded build (async_image_new fs lenient b (futio_tunables_new env)) b = Ok rr"
      by (auto simp: wrapper_record_body_def)
    then show ?thesis
      using default image_holdsD(1,2) [OF slice_image_holds [OF b(1)]] by blast
  next
    assume "wrapper_record_body_image (async_image_new fs lenient) build body tune = Ok rr"
      "image_ok fs s_bytes s_off body" "0 < buffer_size_fs (image tune)" "bs = image_bytes s_bytes body"
    then show ?thesis by (auto simp: wrapper_record_body_image_def)
  qed
  then obtain b t where rr: "recorded build (async_image_new fs lenient b t) b = Ok rr"
    and b: "image_ok fs s_bytes s_off b" "image_bytes s_bytes b = bs" "0 < buffer_size_fs (image t)"
    by blast
  note r = recorded_records [OF rr assms(5), of s_bytes]
  show "records_request s_bytes rr bs" using r b(2) by simp
  show "\<exists>n items s'. collect (plain_next fs B chk) n (rq_body (rr_request rr)) () =
      Some (items, Ready None, (s', ())) \<and> concat (map (ob_chunk B) items) = bs"
    using image_streams.delivers [OF str b(1,3) assms(3), of chk] r b(2) by simp
qed

definition sample_build :: "('h \<Rightarrow> (std_method, bytes, assoc_map, 'h) request)" where
  "sample_build b = \<lparr>rq_method = POST, rq_uri = ''http://a/'', rq_headers = hm_new assoc_http, rq_body = b\<rparr>"

theorem recorded_request_streams_witness:
  "(\<exists>rr :: (std_method, bytes, assoc_map, cursor \<times> nat, (cursor \<times> nat, unit) plain_body) request_record.
      hyper_record_body_image cursor_olio plain_hyper (\<lambda>b. Inr (sample_build b))
        \<lparr>bi_state = Ram [''pay'', ''load''], bi_len = 7\<rparr> (sample_futio Direct) = Ok rr \<and>
      image_bytes (\<lambda>s. cur_bytes (fst s)) (pro_req_body (rr_prolog rr)) = ''payload'' \<and>
      plain_sends cursor_olio output_bytes True (rq_body (rr_request rr)) ''payload'') \<and>
   (\<exists>rr n items s'.
      wrapper_record_body (async_image_new cursor_olio lenient) ''/tmp'' (\<lambda>b. Inr (sample_build b))
        ''payload'' = Ok (rr :: (std_method, bytes, assoc_map, cursor \<times> nat,
          (cursor \<times> nat, unit, unit) async_image) request_record) \<and>
      image_bytes (\<lambda>s. cur_bytes (fst s)) (pro_req_body (rr_prolog rr)) = ''payload'' \<and>
      collect (plain_next cursor_olio output_bytes True) n (rq_body (rr_request rr)) () =
        Some (items, Ready None, (s', ())) \<and> concat items = ''payload'')"
proof (rule conjI)
  let ?b = "\<lparr>bi_state = Ram [''pay'', ''load''], bi_len = 7\<rparr> :: (cursor \<times> nat) body_image"
  have b: "image_ok cursor_olio (\<lambda>s. cur_bytes (fst s)) (\<lambda>s. cur_pos (fst s)) ?b"
    "image_bytes (\<lambda>s. cur_bytes (fst s)) ?b = ''payload''"
    by (simp_all add: image_ok_def image_bytes_def)
  obtain rr :: "(std_method, bytes, assoc_map, cursor \<times> nat, (cursor \<times> nat, unit) plain_body) request_record"
    where rr: "hyper_record_body_image cursor_olio plain_hyper (\<lambda>b. Inr (sample_build b)) ?b
      (sample_futio Direct) = Ok rr"
    by (simp add: hyper_record_body_image_def recorded_def)
  show "\<exists>rr :: (std_method, bytes, assoc_map, cursor \<times> nat, (cursor \<times> nat, unit) plain_body) request_record.
      hyper_record_body_image cursor_olio plain_hyper (\<lambda>b. Inr (sample_build b)) ?b (sample_futio Direct) = Ok rr \<and>
      image_bytes (\<lambda>s. cur_bytes (fst s)) (pro_req_body (rr_prolog rr)) = ''payload'' \<and>
      plain_sends cursor_olio output_bytes True (rq_body (rr_request rr)) ''payload''"
    using recorded_request_streams [where rr' = rr and body = ?b and tune = "sample_futio Direct"
        and bs = "''payload''" and build' = "\<lambda>b. Inr (sample_build b)"
        and build = "\<lambda>b. Inr (sample_build b)" and chk = True,
        OF cursors.olio_files_axioms out_bytes.output_bufs_axioms _ plain_sending.hyper_sending_axioms,
        THEN conjunct1] rr b
    by (auto simp: sample_build_def records_request_def sample_futio_def tunables_new_def)
  obtain b :: "(cursor \<times> nat) body_image" where "image_from_slice ''payload'' = Ok b"
    using image_from_slice_holds by blast
  then obtain rr :: "(std_method, bytes, assoc_map, cursor \<times> nat,
        (cursor \<times> nat, unit, unit) async_image) request_record" where
    rr: "wrapper_record_body (async_image_new cursor_olio lenient) ''/tmp'' (\<lambda>b. Inr (sample_build b))
      ''payload'' = Ok rr"
    by (simp add: wrapper_record_body_def slice_image_def recorded_def)
  have chunk: "map (ob_chunk output_bytes) bs = bs" for bs by (simp add: output_bytes_def)
  show "\<exists>rr n items s'.
      wrapper_record_body (async_image_new cursor_olio lenient) ''/tmp'' (\<lambda>b. Inr (sample_build b))
        ''payload'' = Ok (rr :: (std_method, bytes, assoc_map, cursor \<times> nat,
          (cursor \<times> nat, unit, unit) async_image) request_record) \<and>
      image_bytes (\<lambda>s. cur_bytes (fst s)) (pro_req_body (rr_prolog rr)) = ''payload'' \<and>
      collect (plain_next cursor_olio output_bytes True) n (rq_body (rr_request rr)) () =
        Some (items, Ready None, (s', ())) \<and> concat items = ''payload''"
    using recorded_request_streams [where rr = rr and bs = "''payload''" and env = "''/tmp''"
        and build' = "\<lambda>b. Inr (sample_build b)" and build = "\<lambda>b. Inr (sample_build b)" and chk = True,
        OF cursors.olio_files_axioms out_bytes.output_bufs_axioms _ plain_sending.hyper_sending_axioms,
        THEN conjunct2] rr
    by (auto simp: sample_build_def records_request_def chunk)
qed

end
