(* ===== verification/Barc_Record.thy ===== *)
theory Barc_Record
  imports Barc_Cli Barc_Compressed Futio_Fetch
begin

text \<open>
  The command \<^verbatim>\<open>record\<close> of the command line tool (\<^verbatim>\<open>barc-cli/src/record.rs\<close>), which
  puts the whole library together: a request is recorded and sent, the response received and, by
  default, decoded, and the dialog converted and appended to a BARC file.

  The properties follow a response to the disk and back, and show what the default decoding costs.
\<close>

section \<open>The request\<close>

definition ACCEPT_ENCODINGS :: bytes where
  "ACCEPT_ENCODINGS = ''br, gzip, deflate''"

definition BROWSE_ACCEPT :: bytes where
  "BROWSE_ACCEPT = ''text/html, application/xhtml+xml, application/xml;q=0.9, */*;q=0.8''"

text \<open>\<^verbatim>\<open>version\<close> is that of the package at build time.\<close>

definition user_agent :: "bytes \<Rightarrow> bytes" where
  "user_agent version =
     ''Mozilla/5.0 (compatible; body-image '' @ version @
     ''; +https://crates.io/crates/body-image)''"

definition request_headers :: "bytes \<Rightarrow> bytes option \<Rightarrow> (bytes \<times> bytes) list" where
  "request_headers version accept =
     [(''accept'', case accept of Some a \<Rightarrow> a | None \<Rightarrow> BROWSE_ACCEPT),
      (''accept-language'', ''en''),
      (''accept-encoding'', ACCEPT_ENCODINGS),
      (''user-agent'', user_agent version)]"

section \<open>The command\<close>

datatype record_error = RcError string | RcBarc barc_error | RcFutio futio_error | RcHttp flaw

text \<open>The arms of \<^verbatim>\<open>decode_res_body\<close>'s result.\<close>

definition record_decode ::
  "('p, 's, 'g) olio \<Rightarrow> 'h hyperx \<Rightarrow> (('s, 'g) body_reader, 'd) decompressors \<Rightarrow> 'b bytes_mut
     \<Rightarrow> temp_fn \<Rightarrow> bool \<Rightarrow> tunables \<Rightarrow> bool \<Rightarrow> ('m, 'u, 'v, 'c, 'h, 's) dialog \<Rightarrow> io_script
     \<Rightarrow> (record_error, ('m, 'u, 'v, 'c, 'h, 's) dialog, io_script) outcome" where
  "record_decode fs Y D bm tmp chk tune decode dialog w =
     (if \<not> decode then Some (Ok dialog, w)
      else (case decode_res_body fs Y D bm tmp chk tune dialog w of
          None \<Rightarrow> None
        | Some (Inr changed, (dialog', w')) \<Rightarrow> Some (Ok dialog', w')
        | Some (Inl (Fail (UnsupportedEncoding enc)), (dialog', w')) \<Rightarrow>
            Some (Err (RcError (''Unsupported encoding '' @ encoding_display enc @
              ''; use `--no-decode` flag to record anyway'')), w')
        | Some (Inl f, (dialog', w')) \<Rightarrow> Some (map_err RcFutio (Inl f), w')))"

text \<open>The file is opened, and created, before the dialog is converted.\<close>

definition record_save ::
  "'h http \<Rightarrow> ('m, 'u, 'v, 'c) http_values \<Rightarrow> ('p, 's, 'g) olio \<Rightarrow> 'z codecs \<Rightarrow> strategy
     \<Rightarrow> ('m, 'u, 'v, 'c, 'h, 's) dialog \<Rightarrow> bytes option \<Rightarrow> io_script
     \<Rightarrow> (record_error, unit, bytes option) outcome" where
  "record_save H X fs cs strategy dialog disk w =
     (case barc_file_writer (barc_file_new disk) w of
        None \<Rightarrow> None
      | Some (Inl f, (s, w)) \<Rightarrow> Some (map_err RcBarc (Inl f), bf_disk s)
      | Some (Inr u, (s, w)) \<Rightarrow>
          (case record_of_dialog H X dialog of
             Inl f \<Rightarrow> Some (map_err RcBarc (Inl f), bf_disk (barc_writer_drop s))
           | Inr rec \<Rightarrow>
               (case barc_writer_write H fs cs strategy rec s w of
                  None \<Rightarrow> None
                | Some (x, (s, w)) \<Rightarrow>
                    Some (bindR (map_err RcBarc x) (\<lambda>_. Ok ()), bf_disk (barc_writer_drop s)))))"

text \<open>
  \<open>bld\<close> is the builder, finished with a method, headers and a URL; \<open>v\<close> and \<open>w\<close> are the scripts of
  the decoding and of the file.
\<close>

definition record_cmd ::
  "'h http \<Rightarrow> ('m, 'u, 'v, 'c) http_values \<Rightarrow> 'h hyperx \<Rightarrow> ('p, 's, 'g) olio
     \<Rightarrow> (('s, 'g) body_reader, 'd) decompressors \<Rightarrow> 'b bytes_mut \<Rightarrow> temp_fn \<Rightarrow> bool \<Rightarrow> 'z codecs
     \<Rightarrow> ('x, 'q) forwards \<Rightarrow> ('s, 'q, 'hb) hyper_body
     \<Rightarrow> (bytes \<Rightarrow> (bytes \<times> bytes) list \<Rightarrow> bytes \<Rightarrow> ('m, 'u, 'h, 'hb) build)
     \<Rightarrow> (('m, 'u, 'h, 'hb) request \<Rightarrow> (flaw + ('v, 'c, 'h, 'x) response) option)
     \<Rightarrow> (string \<Rightarrow> flaw) \<Rightarrow> bytes \<Rightarrow> path \<Rightarrow> bytes \<Rightarrow> bool \<Rightarrow> bytes option \<Rightarrow> strategy
     \<Rightarrow> fetch_env \<Rightarrow> io_script \<Rightarrow> bytes option \<Rightarrow> io_script
     \<Rightarrow> (record_error, unit, bytes option) outcome" where
  "record_cmd H X Y fs D bm tmp chk cs F hb bld client join_error version env_tmp
     url decode accept strategy env v disk w =
     (case hyper_record hb (bld ''GET'' (request_headers version accept) url) of
        Inl f \<Rightarrow> Some (map_err RcHttp (Inl f), disk)
      | Inr req \<Rightarrow>
          (let tune = futio_tunables_new env_tmp
           in case fetch join_error tmp Y F client req tune env of
                None \<Rightarrow> None
              | Some (Inl f) \<Rightarrow> Some (map_err RcFutio (Inl f), disk)
              | Some (Inr dialog) \<Rightarrow>
                  (case record_decode fs Y D bm tmp chk (image tune) decode dialog v of
                     None \<Rightarrow> None
                   | Some (Inl f, v') \<Rightarrow> Some (Inl f, disk)
                   | Some (Inr dialog', v') \<Rightarrow> record_save H X fs cs strategy dialog' disk w)))"

section \<open>What a successful command has done\<close>

lemma record_save_ok:
  assumes "record_save H X fs cs strategy d disk w = Some (Ok (), disk')"
  shows "\<exists>rec start f' w1 w'. record_of_dialog H X d = Ok rec \<and>
    barc_write H fs cs strategy rec (\<lparr>content = disk_bytes disk, fpos = 0\<rparr>, w1) = Some (Ok start, (f', w')) \<and>
    disk' = Some (content f') \<and> (calm w \<longrightarrow> calm w1)"
proof -
  obtain u s w1 where s: "barc_file_writer (barc_file_new disk) w = Some (Inr u, (s, w1))"
    using assms by (auto simp: record_save_def split: option.splits sum.splits prod.splits)
  then have st: "bf_disk s = Some (disk_bytes disk)" "bf_file s = Some 0" "calm w \<longrightarrow> calm w1"
    by (auto simp: barc_file_writer_def barc_file_new_def disk_bytes_def
        split: list.splits option.splits)
  obtain rec where rec: "record_of_dialog H X d = Ok rec"
    using assms s by (auto simp: record_save_def split: sum.splits)
  obtain start f' w' where
    "barc_write H fs cs strategy rec (\<lparr>content = disk_bytes disk, fpos = 0\<rparr>, w1) = Some (Ok start, (f', w'))"
    "disk' = Some (content f')"
    using assms
    by (auto simp: record_save_def s rec st barc_writer_write_def barc_writer_drop_def Let_def
        split: option.splits prod.splits)
  then show ?thesis using rec st(3) by blast
qed

lemma record_cmd_ok:
  assumes "record_cmd H X Y fs D bm tmp chk cs F hb bld client join_error version env_tmp
      url decode accept strategy env v disk w = Some (Ok (), disk')"
  shows "\<exists>req d d' v'. hyper_record hb (bld ''GET'' (request_headers version accept) url) = Ok req \<and>
    fetch join_error tmp Y F client req (futio_tunables_new env_tmp) env = Some (Ok d) \<and>
    record_decode fs Y D bm tmp chk (tunables_new env_tmp) decode d v =
      Some (Ok d', v') \<and>
    record_save H X fs cs strategy d' disk w = Some (Ok (), disk')"
  using assms
  by (auto simp: record_cmd_def futio_tunables_new_def Let_def split: option.splits sum.splits prod.splits)

lemma record_of_dialog_parts:
  assumes "record_of_dialog H X d = Ok rec"
  shows "r_type rec = DialogRecord" and "r_req_headers rec = pro_req_headers (dlg_pro d)"
    and "r_req_body rec = pro_req_body (dlg_pro d)" and "r_res_headers rec = epi_res_headers (dlg_epi d)"
    and "r_res_body rec = epi_res_body (dlg_epi d)"
  using assms by (auto simp: record_of_dialog_def dialog_explode_def split: if_splits)

lemma hyper_record_parts:
  assumes "hyper_record hb build = Ok req"
  shows "pro_req_body (rr_prolog req) = image_empty"
    and "pro_req_headers (rr_prolog req) = rq_headers (rr_request req)"
    and "pro_url (rr_prolog req) = rq_uri (rr_request req)"
  using assms by (auto simp: hyper_record_def recorded_Inr)

lemma fetch_Ok: "fetch join_error tmp Y F client rr tune env = Some (Ok d) \<Longrightarrow>
    request_dialog False tmp Y F client rr tune env = Some (Ok d)"
  by (auto simp: fetch_def split: option.splits sum.splits fault.splits)

lemma fetched_parts:
  assumes "response_bodies tmp dbg F stream"
    and "fetch join_error tmp Y F client req tune env = Some (Ok d)"
  obtains resp where "client (rr_request req) = Some (Inr resp)" "snd (stream (rs_body resp)) = None"
    "dlg_pro d = rr_prolog req" "epi_version (dlg_epi d) = rs_version resp"
    "epi_res_headers (dlg_epi d) = rs_headers resp"
    "image_holds (epi_res_body (dlg_epi d)) (concat (fst (stream (rs_body resp))))"
  using response_bodies.request_dialog_ok [OF assms(1) fetch_Ok [OF assms(2)]]
  by (elim exE conjE) (simp add: dialog_new_def)

section \<open>Properties of the command\<close>

text \<open>
  C19: When \<^verbatim>\<open>record --no-decode\<close> succeeds, with any compression strategy, the client has answered,
  and the file has grown by exactly one record, with a complete head that states its type, the
  compression and the length: the request's and the response's headers, no request body, and as
  response body the bytes that the response's body gave, in their order. If it was not compressed,
  head and payload are determined to the byte. If the header blocks can be parsed, a reader at the
  old end of the file reads that record back, with that body; for a compressed record under the
  conditions of its round trip, for Brotli on a file system without failures.
\<close>
theorem record_saves_response:
  assumes "compressed_store fs p_bytes p_patience s_bytes s_off s_patience g_bytes g_off g_patience
      cs bm H inp outp enc ds sound d_bytes d_off d_patience tmp"
    and "response_bodies tmp dbg F stream"
    and "record_cmd H X Y fs D bm tmp chk cs F hb bld client join_error version env_tmp
      url False accept strategy env v disk w = Some (Ok (), disk')"
  shows "\<exists>req resp rec k h out. hyper_record hb (bld ''GET'' (request_headers version accept) url) = Ok req \<and>
    client (rr_request req) = Some (Inr resp) \<and> snd (stream (rs_body resp)) = None \<and>
    r_req_headers rec = rq_headers (rr_request req) \<and> r_res_headers rec = rs_headers resp \<and>
    image_bytes s_bytes (r_req_body rec) = [] \<and>
    image_bytes s_bytes (r_res_body rec) = concat (fst (stream (rs_body resp))) \<and>
    k = encode_mode (wrap_encoder H cs strategy rec) \<and>
    disk' = Some (disk_bytes disk @ head_bytes h @ out) \<and>
    head_in_range h \<and> h_len h = length out \<and> h_rec_type h = DialogRecord \<and> h_compress h = k \<and>
    (k = Plain \<longrightarrow> head_bytes h @ out = entry_bytes H s_bytes rec) \<and>
    (blocks_ok H rec \<and>
       (if k = Plain then length (disk_bytes disk') < 2 ^ 63
        else (k = Brotli \<longrightarrow> calm w) \<and> calm u \<and>
          (\<forall>d w. calm w \<longrightarrow> (\<exists>f w'. tmp d w = (Inr f, w') \<and> calm w')) \<and>
          length (concat (fst (stream (rs_body resp)))) \<le> max_body tune) \<longrightarrow>
      (\<forall>p. p_bytes p = disk_bytes disk' \<and> rp_tell fs p = length (disk_bytes disk) \<longrightarrow>
        (\<exists>rec' p' u'. barc_read H fs bm tmp ds chk tune p u = Some (Ok (Some rec'), (p', u')) \<and>
          same_record H s_bytes rec' rec)))"
proof -
  have store: "barc_store fs p_bytes p_patience s_bytes s_off s_patience g_bytes g_off g_patience cs bm H"
    using assms(1) by (simp add: compressed_store_def)
  obtain req d where req: "hyper_record hb (bld ''GET'' (request_headers version accept) url) = Ok req"
    and d: "fetch join_error tmp Y F client req (futio_tunables_new env_tmp) env = Some (Ok d)"
    and saved: "record_save H X fs cs strategy d disk w = Some (Ok (), disk')"
    using record_cmd_ok [OF assms(3)] by (auto simp: record_decode_def)
  obtain resp where resp: "client (rr_request req) = Some (Inr resp)" "snd (stream (rs_body resp)) = None"
    and b: "dlg_pro d = rr_prolog req" "epi_res_headers (dlg_epi d) = rs_headers resp"
      "image_holds (epi_res_body (dlg_epi d)) (concat (fst (stream (rs_body resp))))"
    by (rule fetched_parts [OF assms(2) d])
  obtain rec start f' w1 w' where rec: "record_of_dialog H X d = Ok rec"
    and wr: "barc_write H fs cs strategy rec (\<lparr>content = disk_bytes disk, fpos = 0\<rparr>, w1) =
      Some (Ok start, (f', w'))" and disk': "disk' = Some (content f')" "calm w \<longrightarrow> calm w1"
    using record_save_ok [OF saved] by blast
  note parts = record_of_dialog_parts [OF rec] hyper_record_parts [OF req] b
  have ok: "image_ok fs s_bytes s_off (r_req_body rec)" "image_ok fs s_bytes s_off (r_res_body rec)"
    and bytes: "image_bytes s_bytes (r_req_body rec) = []"
      "image_bytes s_bytes (r_res_body rec) = concat (fst (stream (rs_body resp)))"
    using image_holdsD(1,2) [OF image_empty_holds] image_holdsD(1,2) [OF b(3)] by (simp_all add: parts)
  let ?k = "encode_mode (wrap_encoder H cs strategy rec)"
  note out = barc_store.written_entry [OF store ok wr]
  have reads: "\<exists>rec' p' u'. barc_read H fs bm tmp ds chk tune p u = Some (Ok (Some rec'), (p', u')) \<and>
      same_record H s_bytes rec' rec"
    if "blocks_ok H rec" and "p_bytes p = content f'" and "rp_tell fs p = length (disk_bytes disk)"
      and "if ?k = Plain then length (content f') < 2 ^ 63
       else (?k = Brotli \<longrightarrow> calm w) \<and> calm u \<and>
          (\<forall>d w. calm w \<longrightarrow> (\<exists>f w'. tmp d w = (Inr f, w') \<and> calm w')) \<and>
          length (image_bytes s_bytes (r_res_body rec)) \<le> max_body tune" for p
  proof (cases "?k = Plain")
    case True
    then have enc: "wrap_encoder H cs strategy rec = EncPlain"
      by (cases "wrap_encoder H cs strategy rec") auto
    show ?thesis
      using barc_store.write_read_back [OF store enc ok that(1) _ wr, of p "[]" tmp ds chk tune u]
        that out(1) True by (auto simp: parts(1))
  next
    case False
    then have quiet: "?k = Brotli \<longrightarrow> calm w1" "calm u"
      "\<And>d w. calm w \<Longrightarrow> \<exists>f w'. tmp d w = (Inr f, w') \<and> calm w'"
      "length (image_bytes s_bytes (r_res_body rec)) \<le> max_body tune"
      using that(4) disk'(2) by auto
    have "p_bytes p = content f' @ []" "rp_tell fs p = start" using that out(1) by simp_all
    note coded = compressed_store.write_read_coded [where chk = chk, OF assms(1) refl False quiet(1) ok that(1) _ wr this quiet(4)
        compressed_store.quietI [OF assms(1) quiet(2,3)]]
    show ?thesis using coded by (auto simp: parts(1))
  qed
  obtain h junk where h: "content f' = disk_bytes disk @ head_bytes h @ junk" "head_in_range h"
    "h_len h = length junk" "h_rec_type h = r_type rec" "h_compress h = ?k"
    "?k = Plain \<longrightarrow> head_bytes h @ junk = entry_bytes H s_bytes rec"
    using out(2) by auto
  show ?thesis
    using req resp bytes disk'(1) reads h
    by (intro exI [of _ req] exI [of _ resp] exI [of _ rec] exI [of _ ?k] exI [of _ h] exI [of _ junk])
      (simp add: parts)
qed

text \<open>
  C23: When \<^verbatim>\<open>record\<close> succeeds without \<^verbatim>\<open>--no-decode\<close>, the record it has written does not convert
  back to a \<^verbatim>\<open>Dialog\<close>: whether there was anything to decode or not, and with whichever compression
  strategy, the conversion fails on the \<^verbatim>\<open>identity\<close> in its meta headers.
\<close>
theorem record_decoded_unreadable:
  assumes "http_values H X" and "response_bodies tmp dbg F stream"
    and "record_cmd H X Y fs D bm tmp chk cs F hb bld client join_error version env_tmp
      url True accept strategy env v disk w = Some (Ok (), disk')"
    and "\<And>req. hyper_record hb (bld ''GET'' (request_headers version accept) url) = Ok req \<Longrightarrow>
      u_try_from X (u_to_string X (rq_uri (rr_request req))) = Inr (rq_uri (rr_request req))"
    and "\<And>rq resp. client rq = Some (Inr resp) \<Longrightarrow>
      rs_version resp \<in> {HTTP_09 X, HTTP_10 X, HTTP_11 X, HTTP_2 X}"
  shows "\<exists>rec start f' w1 w'.
    barc_write H fs cs strategy rec (\<lparr>content = disk_bytes disk, fpos = 0\<rparr>, w1) =
      Some (Ok start, (f', w')) \<and>
    disk' = Some (content f') \<and> dialog_of_record H X rec = Err (InvalidResDecoded ''identity'')"
proof -
  obtain req d d' v' where
    req: "hyper_record hb (bld ''GET'' (request_headers version accept) url) = Ok req" and
    d: "fetch join_error tmp Y F client req (futio_tunables_new env_tmp) env = Some (Ok d)" and
    d': "record_decode fs Y D bm tmp chk (tunables_new env_tmp) True d v = Some (Ok d', v')" and
    saved: "record_save H X fs cs strategy d' disk w = Some (Ok (), disk')"
    using record_cmd_ok [OF assms(3)] by blast
  obtain resp where resp: "client (rr_request req) = Some (Inr resp)" "dlg_pro d = rr_prolog req"
    "epi_version (dlg_epi d) = rs_version resp"
    by (rule fetched_parts [OF assms(2) d])
  note ver = assms(5) [OF resp(1)] and url = assms(4) [OF req]
  obtain changed v1 where dec: "decode_res_body fs Y D bm tmp chk (tunables_new env_tmp) d v =
      Some (Ok changed, (d', v1))"
    using d' by (auto simp: record_decode_def split: option.splits sum.splits prod.splits fault.splits
        futio_error.splits)
  obtain rec start f' w1 w' where rec: "record_of_dialog H X d' = Ok rec"
    and wr: "barc_write H fs cs strategy rec (\<lparr>content = disk_bytes disk, fpos = 0\<rparr>, w1) =
      Some (Ok start, (f', w'))" "disk' = Some (content f')"
    using record_save_ok [OF saved] by blast
  have "dialog_of_record H X rec = Err (InvalidResDecoded ''identity'')"
    using http_values.dialog_record_dialog [OF assms(1) rec] url ver decode_res_body_Ok [OF dec] resp
      hyper_record_parts(3) [OF req]
    by simp
  then show ?thesis using wr by blast
qed

section \<open>A sample run\<close>

definition sample_hyper :: "(cursor \<times> nat, unit, unit) hyper_body" where
  "sample_hyper = \<lparr>hb_empty = (), hb_from = (\<lambda>_. ()), hb_wrap_stream = (\<lambda>_. ())\<rparr>"

definition sample_bld ::
  "bytes \<Rightarrow> (bytes \<times> bytes) list \<Rightarrow> bytes \<Rightarrow> (std_method, bytes, assoc_map, unit) build" where
  "sample_bld m hs u b =
     (case std_method_parse m of
        Inl e \<Rightarrow> Inl e
      | Inr meth \<Rightarrow> Inr \<lparr>rq_method = meth, rq_uri = u, rq_headers = hm_new assoc_http, rq_body = b\<rparr>)"

lemma sample_request_recorded:
  "hyper_record sample_hyper (sample_bld ''GET'' hs ''http://a/'') = Ok sample_request"
  by (simp add: hyper_record_def recorded_def sample_bld_def sample_request_def std_method_parse_def
      sample_hyper_def)

definition sample_fetched :: "encoding list \<Rightarrow> (cursor \<times> nat) body_image
    \<Rightarrow> (std_method, bytes, std_version, status_code, assoc_map, cursor \<times> nat) dialog" where
  "sample_fetched es b =
     dialog_new (rr_prolog sample_request)
       \<lparr>epi_version = V11, epi_status = status_of 200, epi_res_headers = hm_new assoc_http,
        epi_res_body = b, epi_res_decoded = es\<rparr>"

lemma sample_fetch:
  "\<exists>b. fetch Flaw scripted_tempfile assoc_hyperx (std_forwards scripted_tempfile True)
      (\<lambda>_. Some (Inr sample_response)) sample_request (futio_tunables_new ''/tmp'' :: unit futio_tunables)
      sample_env = Some (Ok (sample_fetched [] b)) \<and> image_holds b ''abcde''"
proof -
  have t: "Suc (Suc (Suc (Suc (Suc 0)))) \<le> max_body (image (futio_tunables_new ''/tmp''))"
    "blocking_policy (futio_tunables_new ''/tmp'') = Direct"
    by (simp_all add: futio_tunables_new_def tunables_new_def)
  have "\<exists>d :: (std_method, bytes, std_version, status_code, assoc_map, cursor \<times> nat) dialog.
    request_dialog False scripted_tempfile assoc_hyperx (std_forwards scripted_tempfile True)
      (\<lambda>_. Some (Inr sample_response)) sample_request (futio_tunables_new ''/tmp'' :: unit futio_tunables)
      sample_env = Some (Ok d)"
    by (rule std_bodies.request_dialog_completes [OF refl _ sample_fetch_sel(1-3) scripted_quiet,
          where items = "[''ab'', ''cde'']"]) (simp_all add: t)
  then obtain d :: "(std_method, bytes, std_version, status_code, assoc_map, cursor \<times> nat) dialog" where
    d: "request_dialog False scripted_tempfile assoc_hyperx (std_forwards scripted_tempfile True)
      (\<lambda>_. Some (Inr sample_response)) sample_request (futio_tunables_new ''/tmp'' :: unit futio_tunables)
      sample_env = Some (Ok d)"
    by blast
  have h: "find_chunked assoc_hyperx assoc_empty = False" "rs_version sample_response = V11" "rs_status sample_response = status_of 200"
    "rs_headers sample_response = hm_new assoc_http"
    by (simp_all add: sample_response_def find_chunked_def assoc_hyperx_def hy_words_def)
  obtain b where "d = sample_fetched [] b" "image_holds b ''abcde''"
    using std_bodies.request_dialog_ok [OF d] by (elim exE conjE) (simp add: h sample_fetched_def)
  then show ?thesis using d by (auto simp: fetch_def)
qed

lemma status_200: "status_digits 200 = ''200''"
  by code_simp

lemma sample_saved:
  assumes "image_holds b ''abcde''" and "es \<in> {[], [IdentityEnc]}"
  shows "\<exists>disk'. record_save assoc_http std_values cursor_olio flip_codecs NoCompress
    (sample_fetched es b) (Some ''old'') [] = Some (Ok (), disk')"
proof -
  have n: "status_number (status_of 200) = 200" by (transfer, simp)
  have names: "assoc_name k = Inr k"
    if "k \<in> {''url'', ''method'', ''response-version'', ''response-status'', ''response-decoded''}" for k
    using that by (auto simp: assoc_name_Inr name_char_def)
  have vals: "assoc_value v = Inr v"
    if "v \<in> {''http://a/'', ''GET'', ''HTTP/1.1'', ''200 OK'', ''identity''}" for v
    using that by (auto simp: assoc_value_Inr value_char_def)
  let ?meta = "[(''url'', ''http://a/''), (''method'', ''GET''), (''response-version'', ''HTTP/1.1''),
    (''response-status'', ''200 OK'')] @ (if es = [] then [] else [(''response-decoded'', ''identity'')])"
  obtain rec where rec: "record_of_dialog assoc_http std_values (sample_fetched es b) = Ok rec"
    and meta: "hm_iter assoc_http (r_meta rec) = ?meta"
    using assms(2)
    by (auto simp: record_of_dialog_def sample_fetched_def sample_request_def dialog_new_def
        dialog_explode_def meta_append_def std_values_def visible_str_def status_200
        n hname_defs names vals)
  note parts = record_of_dialog_parts [OF rec]
  have ok: "image_ok cursor_olio (\<lambda>s. cur_bytes (fst s)) (\<lambda>s. cur_pos (fst s)) (r_req_body rec)"
    "image_ok cursor_olio (\<lambda>s. cur_bytes (fst s)) (\<lambda>s. cur_pos (fst s)) (r_res_body rec)"
    and bytes: "image_bytes (\<lambda>s. cur_bytes (fst s)) (r_req_body rec) = []"
      "image_bytes (\<lambda>s. cur_bytes (fst s)) (r_res_body rec) = ''abcde''"
    using image_holdsD(1,2) [OF image_empty_holds] image_holdsD(1,2) [OF assms(1)]
    by (simp_all add: parts sample_fetched_def sample_request_def dialog_new_def)
  have hdrs: "hm_iter assoc_http (r_req_headers rec) = []" "hm_iter assoc_http (r_res_headers rec) = []"
    by (simp_all add: parts sample_fetched_def sample_request_def dialog_new_def)
  have range: "head_in_range (payload_head assoc_http (\<lambda>s. cur_bytes (fst s)) Plain rec)"
    and len: "h_len (payload_head assoc_http (\<lambda>s. cur_bytes (fst s)) Plain rec) + 2 \<le> V2_MAX_RECORD"
    unfolding payload_head_def record_payload_def bytes hdrs meta Let_def head_in_range_def
    by (simp_all add: headers_out_def body_out_def CRLF_def v2_defs)
  have enc: "wrap_encoder assoc_http flip_codecs NoCompress rec = EncPlain"
    by (simp add: wrap_encoder_cases)
  obtain f' w' where "barc_write assoc_http cursor_olio flip_codecs NoCompress rec
      (\<lparr>content = ''old'', fpos = 0\<rparr>, []) = Some (Ok 3, (f', w'))"
    using flip_store.barc_write_ok [OF enc ok calm_Nil _ range len, of "\<lparr>content = ''old'', fpos = 0\<rparr>"] by auto
  then show ?thesis
    using rec by (simp add: record_save_def barc_file_writer_def barc_file_new_def barc_writer_write_def Let_def)
qed

abbreviation sample_cmd :: "bool \<Rightarrow> (record_error, unit, bytes option) outcome" where
  "sample_cmd decode \<equiv>
     record_cmd assoc_http std_values assoc_hyperx cursor_olio stored_decompressors grow_buf
       scripted_tempfile True flip_codecs (std_forwards scripted_tempfile True) sample_hyper
       sample_bld (\<lambda>_. Some (Inr sample_response)) Flaw ''1.0'' ''/tmp'' ''http://a/'' decode None
       NoCompress sample_env [] (Some ''old'') []"

lemma sample_cmd_runs: "\<exists>disk'. sample_cmd decode = Some (Ok (), disk')"
proof -
  obtain b where b: "fetch Flaw scripted_tempfile assoc_hyperx (std_forwards scripted_tempfile True)
      (\<lambda>_. Some (Inr sample_response)) sample_request (futio_tunables_new ''/tmp'' :: unit futio_tunables)
      sample_env = Some (Ok (sample_fetched [] b))" "image_holds b ''abcde''"
    using sample_fetch by blast
  have dec: "record_decode cursor_olio assoc_hyperx stored_decompressors grow_buf scripted_tempfile True
      t decode (sample_fetched [] b) [] =
    Some (Ok (sample_fetched (if decode then [IdentityEnc] else []) b), [])" for t
    by (simp add: record_decode_def decode_res_body_def find_encodings_eq sample_fetched_def
        dialog_new_def assoc_hyperx_def hy_words_def parsed_def set_res_decoded_def List.map_filter_def)
  show ?thesis
    using sample_saved [OF b(2), of "if decode then [IdentityEnc] else []"]
    by (simp add: record_cmd_def sample_request_recorded b(1) dec Let_def)
qed

theorem record_saves_response_witness:
  "\<exists>disk' (rec :: (assoc_map, cursor \<times> nat) barc_record). sample_cmd False = Some (Ok (), disk') \<and>
    disk' = Some (''old'' @ entry_bytes assoc_http (\<lambda>s. cur_bytes (fst s)) rec) \<and>
    image_bytes (\<lambda>s. cur_bytes (fst s)) (r_res_body rec) = ''abcde''"
proof -
  obtain disk' where run: "sample_cmd False = Some (Ok (), disk')" using sample_cmd_runs by blast
  obtain resp k and rec :: "(assoc_map, cursor \<times> nat) barc_record" and h out where
    r: "Some (Inr sample_response) = (Some (Inr resp) :: (flaw + _) option)"
      "disk' = Some (disk_bytes (Some ''old'') @ head_bytes h @ out)"
      "k = encode_mode (wrap_encoder assoc_http flip_codecs NoCompress rec)"
      "k = Plain \<longrightarrow> head_bytes h @ out = entry_bytes assoc_http (\<lambda>s. cur_bytes (fst s)) rec"
      "image_bytes (\<lambda>s. cur_bytes (fst s)) (r_res_body rec) = concat (fst (rs_body resp))"
    using record_saves_response [OF flip_store.compressed_store_axioms std_bodies.response_bodies_axioms run,
        where u = "[]" and tune = sample_tune]
    by (elim exE conjE) (rule that; assumption)
  have "k = Plain" using r(3) by (simp add: wrap_encoder_cases)
  then show ?thesis
    using run r by (intro exI [of _ disk'] exI [of _ rec]) (auto simp: sample_response_def)
qed

theorem record_decoded_unreadable_witness:
  "\<exists>disk' (rec :: (assoc_map, cursor \<times> nat) barc_record). sample_cmd True = Some (Ok (), disk') \<and>
    dialog_of_record assoc_http std_values rec = Err (InvalidResDecoded ''identity'')"
proof -
  obtain disk' where run: "sample_cmd True = Some (Ok (), disk')" using sample_cmd_runs by blast
  have url: "u_try_from std_values (u_to_string std_values (rq_uri (rr_request req))) =
      Inr (rq_uri (rr_request req))"
    if "hyper_record sample_hyper (sample_bld ''GET'' (request_headers ''1.0'' None) ''http://a/'') = Ok req"
    for req
    using that by (auto simp: sample_request_recorded)
      (simp add: sample_request_def std_values_def visible_str_def)
  have ver: "rs_version resp \<in> {HTTP_09 std_values, HTTP_10 std_values, HTTP_11 std_values, HTTP_2 std_values}"
    if "Some (Inr sample_response) = Some (Inr resp)" for resp
    using that by (auto simp: sample_response_def std_values_def)
  from record_decoded_unreadable [OF std.http_values_axioms std_bodies.response_bodies_axioms run url ver]
  show ?thesis using run by blast
qed

end
