(* ===== verification/Piccolog.thy ===== *)
theory Piccolog
  imports BI_Prelude Std_IO
begin

text \<open>
  The logger of the tests and the command line (\<^verbatim>\<open>piccolog/src/lib.rs\<close>). Of the \<^emph>\<open>log\<close> crate
  there are the levels with their order, the global maximum and the logger that can be set once,
  and that a log macro calls the logger when the level is not above the maximum.

  The property says which messages are printed at which verbosity.
\<close>

section \<open>Levels\<close>

text \<open>\<^verbatim>\<open>log::Level\<close>, from the most to the least important.\<close>

datatype level = LvError | LvWarn | LvInfo | LvDebug | LvTrace

fun level_rank :: "level \<Rightarrow> nat" where
  "level_rank LvError = 1"
| "level_rank LvWarn = 2"
| "level_rank LvInfo = 3"
| "level_rank LvDebug = 4"
| "level_rank LvTrace = 5"

lemma level_rank_inject: "level_rank a = level_rank b \<Longrightarrow> a = b"
  by (cases a; cases b) simp_all

instantiation level :: linorder
begin

definition less_eq_level :: "level \<Rightarrow> level \<Rightarrow> bool" where
  "less_eq_level a b \<longleftrightarrow> level_rank a \<le> level_rank b"

definition less_level :: "level \<Rightarrow> level \<Rightarrow> bool" where
  "less_level a b \<longleftrightarrow> level_rank a < level_rank b"

instance
  by standard (auto simp: less_eq_level_def less_level_def intro: level_rank_inject)

end

fun level_text :: "level \<Rightarrow> bytes" where
  "level_text LvError = ''ERROR''"
| "level_text LvWarn = ''WARN''"
| "level_text LvInfo = ''INFO''"
| "level_text LvDebug = ''DEBUG''"
| "level_text LvTrace = ''TRACE''"

section \<open>The logger\<close>

record metadata =
  md_level :: level
  md_target :: bytes

definition starts_with :: "bytes \<Rightarrow> bytes \<Rightarrow> bool" where
  "starts_with s prefix \<longleftrightarrow> take (length prefix) s = prefix"

definition enabled :: "bool \<Rightarrow> metadata \<Rightarrow> bool" where
  "enabled filtering meta \<longleftrightarrow>
     \<not> (filtering \<and>
        \<not> starts_with (md_target meta) ''body_image'' \<and>
        \<not> starts_with (md_target meta) ''barc'' \<and>
        \<not> starts_with (md_target meta) ''blocking_permit'' \<and>
        LvInfo < md_level meta)"

text \<open>The name of the thread, kept in a thread local once it is known.\<close>

record thread =
  th_name :: "bytes option"
  th_id :: bytes
  th_cached :: "bytes option"

definition thread_name :: "thread \<Rightarrow> bytes \<times> thread" where
  "thread_name t =
     (case th_cached t of
        Some n \<Rightarrow> (n, t)
      | None \<Rightarrow>
          (let tn = (case th_name t of Some n \<Rightarrow> n | None \<Rightarrow> ''-'');
               tn = (if tn = ''tokio-runtime-worker'' then ''tokio-w-'' @ th_id t else tn)
           in (tn, t\<lparr>th_cached := Some tn\<rparr>)))"

definition log_line :: "metadata \<Rightarrow> bytes \<Rightarrow> bytes \<Rightarrow> bytes" where
  "log_line meta tn args =
     level_text (md_level meta) @ replicate (5 - length (level_text (md_level meta))) (CHR '' '') @
     '' '' @ md_target meta @ '' '' @ tn @ '': '' @ args @ [LF]"

text \<open>A failure of standard error is ignored.\<close>

definition piccolog_log ::
  "'w writer \<Rightarrow> bool \<Rightarrow> metadata \<Rightarrow> bytes \<Rightarrow> thread \<Rightarrow> 'w \<Rightarrow> thread \<times> 'w" where
  "piccolog_log wr filtering meta args t err =
     (if enabled filtering meta
      then (case thread_name t of (tn, t') \<Rightarrow> (t', snd (wr err (log_line meta tn args))))
      else (t, err))"

section \<open>Setting it up\<close>

text \<open>\<^verbatim>\<open>std::sync::Once\<close>: a panic in the closure leaves it poisoned.\<close>

datatype once = OnceNew | OnceDone | OncePoisoned

record log_state =
  lg_max :: "level option"
  lg_logger :: "bool option"
  lg_once :: once

definition log_start :: log_state where
  "log_start = \<lparr>lg_max = None, lg_logger = None, lg_once = OnceNew\<rparr>"

definition setup_logger :: "nat \<Rightarrow> log_state \<Rightarrow> bool \<times> log_state" where
  "setup_logger level s =
     (let s = s\<lparr>lg_max := Some (if level = 0 then LvInfo else if level < 3 then LvDebug else LvTrace)\<rparr>;
          filtering = (level = 1)
      in case lg_logger s of
           None \<Rightarrow> (True, s\<lparr>lg_logger := Some filtering\<rparr>)
         | Some f \<Rightarrow> (False, s))"

text \<open>\<^verbatim>\<open>TEST_LOG\<close> is unset, or set to a number or to something else.\<close>

datatype test_log = TestLogUnset | TestLogLevel nat | TestLogInvalid

definition test_logger_init :: "test_log \<Rightarrow> log_state \<Rightarrow> ('e, unit) result \<times> log_state" where
  "test_logger_init var s =
     bindT (case var of
         TestLogLevel l \<Rightarrow> (Ok l, s)
       | TestLogInvalid \<Rightarrow> (panic ''TEST_LOG parse integer'', s)
       | TestLogUnset \<Rightarrow> (Ok 0, s)) (\<lambda>level s.
       if 0 < level
       then (case setup_logger (level - 1) s of
           (True, s) \<Rightarrow> (Ok (), s)
         | (False, s) \<Rightarrow> (panic ''setup logger'', s))
       else (Ok (), s))"

definition test_logger :: "test_log \<Rightarrow> log_state \<Rightarrow> ('e, bool) result \<times> log_state" where
  "test_logger var s =
     (case lg_once s of
        OnceDone \<Rightarrow> (Ok True, s)
      | OncePoisoned \<Rightarrow> (panic ''Once instance has previously been poisoned'', s)
      | OnceNew \<Rightarrow>
          (case test_logger_init var s of
             (Inr u, s') \<Rightarrow> (Ok True, s'\<lparr>lg_once := OnceDone\<rparr>)
           | (Inl f, s') \<Rightarrow> (Inl f, s'\<lparr>lg_once := OncePoisoned\<rparr>)))"

text \<open>A log macro.\<close>

definition log_message ::
  "'w writer \<Rightarrow> log_state \<Rightarrow> metadata \<Rightarrow> bytes \<Rightarrow> thread \<Rightarrow> 'w \<Rightarrow> thread \<times> 'w" where
  "log_message wr s meta args t err =
     (case (lg_max s, lg_logger s) of
        (Some m, Some filtering) \<Rightarrow>
          if md_level meta \<le> m then piccolog_log wr filtering meta args t err else (t, err)
      | _ \<Rightarrow> (t, err))"

section \<open>Properties of the logger\<close>

text \<open>Whether a message is wanted, at a verbosity.\<close>

definition wanted :: "nat \<Rightarrow> metadata \<Rightarrow> bool" where
  "wanted level meta \<longleftrightarrow>
     md_level meta \<le> LvInfo \<or>
     md_level meta = LvDebug \<and> (1 < level \<or> level = 1 \<and>
       (\<exists>own \<in> set [''body_image'', ''barc'', ''blocking_permit'']. starts_with (md_target meta) own)) \<or>
     3 \<le> level"

text \<open>
  C39: After the first \<^verbatim>\<open>setup_logger\<close> a message is printed exactly if it is at least informational,
  or a debug message at verbosity 1 from one of the three crates or at 2, or the verbosity is 3 or
  more. What is printed is one line that names the level, the target and the thread, and the name
  of a thread stays what it was on its first message. A later set-up fails, but changes the maximum.
\<close>
theorem setup_logger_prints:
  "\<exists>s. setup_logger n log_start = (True, s) \<and>
     log_message vec_write_all s meta args t err =
       (if wanted n meta
        then (snd (thread_name t), err @ log_line meta (fst (thread_name t)) args) else (t, err)) \<and>
     thread_name (snd (thread_name t)) = (fst (thread_name t), snd (thread_name t)) \<and>
     fst (setup_logger m s) = False \<and> lg_logger (snd (setup_logger m s)) = Some (n = 1) \<and>
     lg_max (snd (setup_logger m s)) = lg_max (snd (setup_logger m log_start))"
proof -
  define s where "s = snd (setup_logger n log_start)"
  have s: "setup_logger n log_start = (True, s)" "lg_logger s = Some (n = 1)"
    "lg_max s = Some (if n = 0 then LvInfo else if n < 3 then LvDebug else LvTrace)"
    by (simp_all add: s_def setup_logger_def log_start_def Let_def)
  have "(\<exists>m. lg_max s = Some m \<and> md_level meta \<le> m \<and> enabled (n = 1) meta) \<longleftrightarrow> wanted n meta"
    by (cases "md_level meta")
      (auto simp: s(3) wanted_def enabled_def less_eq_level_def less_level_def)
  then have "log_message vec_write_all s meta args t err =
      (if wanted n meta
       then (snd (thread_name t), err @ log_line meta (fst (thread_name t)) args) else (t, err))"
    by (auto simp: log_message_def piccolog_log_def s(2,3) vec_write_all_def split: prod.splits)
  moreover have "thread_name (snd (thread_name t)) = (fst (thread_name t), snd (thread_name t))"
    by (simp add: thread_name_def Let_def split: option.splits)
  moreover have "fst (setup_logger m s) = False" "lg_logger (snd (setup_logger m s)) = Some (n = 1)"
    "lg_max (snd (setup_logger m s)) = lg_max (snd (setup_logger m log_start))"
    by (simp_all add: setup_logger_def s(2) log_start_def Let_def)
  ultimately show ?thesis using s(1) by blast
qed

end
