(* ===== verification/Barc_Main.thy ===== *)
theory Barc_Main
  imports Barc_Record Piccolog
begin

text \<open>
  The entry of the command line tool (\<^verbatim>\<open>barc-cli/src/main.rs\<close>): the dispatch to the commands, over
  all input files, and the exit status. What \<^emph>\<open>clap\<close> has parsed is a record of its accessors.

  The property follows a \<^verbatim>\<open>cp\<close> of several files through all layers.
\<close>

section \<open>The world of a run\<close>

text \<open>
  The files by their paths, standard output, the logger, and one script of the file system for each
  command that is run.
\<close>

record 'o cli_world =
  cw_disks :: "bytes \<Rightarrow> bytes option"
  cw_out :: 'o
  cw_log :: log_state
  cw_scripts :: "io_script list"

datatype main_error = McLogger | McCli cli_error | McRecord record_error

type_synonym 'o command = "'o cli_world \<Rightarrow> (main_error, unit, 'o cli_world) outcome"

definition next_script :: "'o cli_world \<Rightarrow> io_script \<times> 'o cli_world" where
  "next_script w = (case cw_scripts w of [] \<Rightarrow> ([], w) | s # ss \<Rightarrow> (s, w\<lparr>cw_scripts := ss\<rparr>))"

definition cat_command ::
  "'h http \<Rightarrow> ('p, 's, 'g) olio \<Rightarrow> 'b bytes_mut \<Rightarrow> temp_fn \<Rightarrow> ('s, 'd) decoders \<Rightarrow> bool \<Rightarrow> path
     \<Rightarrow> 'o writer \<Rightarrow> bytes \<Rightarrow> start_pos \<Rightarrow> nat \<Rightarrow> parts \<Rightarrow> 'o command" where
  "cat_command H fs bm tmp ds chk env_tmp wr f start limit parts w =
     (case next_script w of (script, w) \<Rightarrow>
      (case cat H fs bm tmp ds chk env_tmp wr f (cw_disks w f) start limit parts script (cw_out w) of
         None \<Rightarrow> None
       | Some (x, out) \<Rightarrow> Some (map_err McCli x, w\<lparr>cw_out := out\<rparr>)))"

definition cp_command ::
  "'h http \<Rightarrow> ('p, 's, 'g) olio \<Rightarrow> 'b bytes_mut \<Rightarrow> temp_fn \<Rightarrow> ('s, 'd) decoders \<Rightarrow> bool \<Rightarrow> path
     \<Rightarrow> 'z codecs \<Rightarrow> bytes \<Rightarrow> bytes \<Rightarrow> start_pos \<Rightarrow> nat \<Rightarrow> strategy \<Rightarrow> 'o command" where
  "cp_command H fs bm tmp ds chk env_tmp cs fin fout start limit strategy w =
     (case next_script w of (script, w) \<Rightarrow>
      (case cp H fs bm tmp ds chk env_tmp cs (fin, cw_disks w fin) (fout, cw_disks w fout) start limit
          strategy script of
         None \<Rightarrow> None
       | Some (x, disk) \<Rightarrow> Some (map_err McCli x, w\<lparr>cw_disks := (cw_disks w)(fout := disk)\<rparr>)))"

text \<open>\<open>rec\<close> is \<open>record_cmd\<close> with everything but what the arguments give.\<close>

definition record_command ::
  "(bytes \<Rightarrow> bool \<Rightarrow> bytes option \<Rightarrow> strategy \<Rightarrow> bytes option \<Rightarrow> io_script
      \<Rightarrow> (record_error, unit, bytes option) outcome)
     \<Rightarrow> bytes \<Rightarrow> bytes \<Rightarrow> bool \<Rightarrow> bytes option \<Rightarrow> strategy \<Rightarrow> 'o command" where
  "record_command rec url f decode accept strategy w =
     (case next_script w of (script, w) \<Rightarrow>
      (case rec url decode accept strategy (cw_disks w f) script of
         None \<Rightarrow> None
       | Some (x, disk) \<Rightarrow> Some (map_err McRecord x, w\<lparr>cw_disks := (cw_disks w)(f := disk)\<rparr>)))"

section \<open>The dispatch\<close>

record matches =
  mt_debug :: nat
  mt_name :: "string option"
  mt_present :: "string list"
  mt_value :: "string \<Rightarrow> bytes option"
  mt_values :: "string \<Rightarrow> bytes list option"

fun each_file :: "(bytes \<Rightarrow> 'o command) \<Rightarrow> bytes list \<Rightarrow> 'o command" where
  "each_file c [] w = Some (Ok (), w)"
| "each_file c (f # fs) w = bindO (c f w) (\<lambda>_ w. each_file c fs w)"

definition unwrapped :: "'a option \<Rightarrow> ('a \<Rightarrow> 'o command) \<Rightarrow> 'o command" where
  "unwrapped v c w =
     (case v of
        None \<Rightarrow> Some (panic ''called `Option::unwrap()` on a `None` value'', w)
      | Some a \<Rightarrow> c a w)"

definition filtered :: "matches \<Rightarrow> bytes list \<Rightarrow> (start_pos \<Rightarrow> nat \<Rightarrow> 'o command) \<Rightarrow> 'o command" where
  "filtered m files c w =
     (case filter_flags (length files) (mt_value m ''index'') (mt_value m ''offset'')
         (mt_value m ''count'') of
        Inl x \<Rightarrow> Some (map_err McCli (Inl x), w)
      | Inr (start, limit) \<Rightarrow> c start limit w)"

definition run_command ::
  "(bytes \<Rightarrow> start_pos \<Rightarrow> nat \<Rightarrow> parts \<Rightarrow> 'o command)
     \<Rightarrow> (bytes \<Rightarrow> bytes \<Rightarrow> start_pos \<Rightarrow> nat \<Rightarrow> strategy \<Rightarrow> 'o command)
     \<Rightarrow> (bytes \<Rightarrow> bytes \<Rightarrow> bool \<Rightarrow> bytes option \<Rightarrow> strategy \<Rightarrow> 'o command) \<Rightarrow> matches \<Rightarrow> string
     \<Rightarrow> 'o command" where
  "run_command do_cat do_cp do_record m scname =
     (if scname = ''cat''
      then unwrapped (mt_values m ''file'') (\<lambda>files.
           filtered m files (\<lambda>start limit.
             each_file (\<lambda>f. do_cat f start limit (part_flags (mt_present m))) files))
      else if scname = ''cp''
      then unwrapped (mt_values m ''file'') (\<lambda>files.
           unwrapped (mt_value m ''out-file'') (\<lambda>fout.
           filtered m files (\<lambda>start limit.
             each_file (\<lambda>fin. do_cp fin fout start limit (compress_flags (mt_present m))) files)))
      else if scname = ''record''
      then unwrapped (mt_value m ''url'') (\<lambda>url.
           unwrapped (mt_value m ''file'') (\<lambda>f.
             do_record url f (\<not> List.member (mt_present m) ''no_decode'') (mt_value m ''accept'')
               (compress_flags (mt_present m))))
      else (\<lambda>w. Some (Err (McCli (ClError (''Sub-command \"'' @ scname @ ''\" not supported''))), w)))"

definition run ::
  "(bytes \<Rightarrow> start_pos \<Rightarrow> nat \<Rightarrow> parts \<Rightarrow> 'o command)
     \<Rightarrow> (bytes \<Rightarrow> bytes \<Rightarrow> start_pos \<Rightarrow> nat \<Rightarrow> strategy \<Rightarrow> 'o command)
     \<Rightarrow> (bytes \<Rightarrow> bytes \<Rightarrow> bool \<Rightarrow> bytes option \<Rightarrow> strategy \<Rightarrow> 'o command) \<Rightarrow> matches
     \<Rightarrow> 'o command" where
  "run do_cat do_cp do_record m w =
     (case setup_logger (mt_debug m) (cw_log w) of
        (False, lg) \<Rightarrow> Some (Err McLogger, w\<lparr>cw_log := lg\<rparr>)
      | (True, lg) \<Rightarrow>
          unwrapped (mt_name m) (run_command do_cat do_cp do_record m) (w\<lparr>cw_log := lg\<rparr>))"

text \<open>The exit status of the process; that of a panic is the runtime's.\<close>

definition main_exit :: "(main_error, unit, 'o cli_world) outcome \<Rightarrow> nat option" where
  "main_exit r =
     (case r of
        None \<Rightarrow> None
      | Some (Inr u, w) \<Rightarrow> Some 0
      | Some (Inl (Fail e), w) \<Rightarrow> Some 2
      | Some (Inl (Panic m), w) \<Rightarrow> Some 101)"

section \<open>Copying several files\<close>

lemma length_log_bytes: "all_readable H sb recs \<Longrightarrow> length recs \<le> length (log_bytes H sb recs)"
proof (induction recs)
  case (Cons r rs)
  then have "V2_HEAD_SIZE \<le> length (entry_bytes H sb r)" "length rs \<le> length (log_bytes H sb rs)"
    by (simp_all add: length_entry_bytes)
  then show ?case by (simp add: V2_HEAD_SIZE_def)
qed simp

lemma cp_command_log:
  assumes store: "barc_store fs p_bytes p_patience s_bytes s_off s_patience g_bytes g_off g_patience cs bm H"
    and adv: "\<And>m a. mh_advise fs m a = None" and "fin \<noteq> fout"
    and recs: "cw_disks w fin = Some (log_bytes H s_bytes recs)" "all_readable H s_bytes recs"
      "length (log_bytes H s_bytes recs) < 2 ^ 63"
    and calm: "list_all calm (cw_scripts w)"
  obtains recs' ss where "cp_command H fs bm tmp ds chk env cs fin fout (Index 0) (2 ^ 64 - 1) NoCompress w =
      Some (Ok (), w\<lparr>cw_scripts := ss, cw_disks := (cw_disks w)
        (fout \<mapsto> disk_bytes (cw_disks w fout) @ log_bytes H s_bytes recs')\<rparr>)"
    "list_all2 (same_record H s_bytes) recs' recs" "list_all calm ss"
proof -
  have "\<exists>script ss. next_script w = (script, w\<lparr>cw_scripts := ss\<rparr>) \<and> calm script \<and> list_all calm ss"
  proof (cases "cw_scripts w")
    case Nil
    moreover from this have "w = w\<lparr>cw_scripts := []\<rparr>" by (cases w) simp
    ultimately show ?thesis
      by (intro exI [of _ "[]"]) (simp add: next_script_def)
  next
    case (Cons script ss)
    then show ?thesis using calm by (intro exI [of _ script] exI [of _ ss]) (simp add: next_script_def)
  qed
  then obtain script ss where n: "next_script w = (script, w\<lparr>cw_scripts := ss\<rparr>)" "calm script"
    "list_all calm ss"
    by blast
  have "take (2 ^ 64 - 1) recs = recs"
    using length_log_bytes [OF recs(2)] recs(3) by simp
  then obtain recs' where "cp H fs bm tmp ds chk env cs (fin, Some (log_bytes H s_bytes recs))
      (fout, cw_disks w fout) (Index 0) (2 ^ 64 - 1) NoCompress script =
      Some (Ok (), Some (disk_bytes (cw_disks w fout) @ log_bytes H s_bytes recs'))"
    "list_all2 (same_record H s_bytes) recs' recs"
    using barc_store.cp_log [OF store adv assms(3) recs(2,3) n(2), of tmp ds chk env "cw_disks w fout" 0
        "2 ^ 64 - 1"] by auto
  then show ?thesis
    using that [of recs' ss] n recs(1) by (simp add: cp_command_def)
qed

lemma each_cp_log:
  assumes store: "barc_store fs p_bytes p_patience s_bytes s_off s_patience g_bytes g_off g_patience cs bm H"
    and adv: "\<And>m a. mh_advise fs m a = None"
  shows "fout \<notin> set files \<Longrightarrow>
    (\<And>f. f \<in> set files \<Longrightarrow> cw_disks w f = Some (log_bytes H s_bytes (recs f)) \<and>
      all_readable H s_bytes (recs f) \<and> length (log_bytes H s_bytes (recs f)) < 2 ^ 63) \<Longrightarrow>
    list_all calm (cw_scripts w) \<Longrightarrow>
    \<exists>recs' ss. each_file (\<lambda>fin. cp_command H fs bm tmp ds chk env cs fin fout (Index 0) (2 ^ 64 - 1)
        NoCompress) files w =
      Some (Ok (), w\<lparr>cw_scripts := ss, cw_disks := (cw_disks w)(fout := if files = [] then cw_disks w fout
        else Some (disk_bytes (cw_disks w fout) @ log_bytes H s_bytes recs'))\<rparr>) \<and>
      list_all2 (same_record H s_bytes) recs' (concat (map recs files))"
proof (induction files arbitrary: w)
  case Nil
  then show ?case
    by (intro exI [of _ "[]"] exI [of _ "cw_scripts w"]) simp
next
  case (Cons f files)
  let ?D = "disk_bytes (cw_disks w fout)"
  have f: "f \<noteq> fout" "cw_disks w f = Some (log_bytes H s_bytes (recs f))"
    "all_readable H s_bytes (recs f)" "length (log_bytes H s_bytes (recs f)) < 2 ^ 63"
    using Cons.prems(1,2) by auto
  obtain recs1 ss1 where one: "cp_command H fs bm tmp ds chk env cs f fout (Index 0) (2 ^ 64 - 1) NoCompress w =
      Some (Ok (), w\<lparr>cw_scripts := ss1, cw_disks := (cw_disks w)(fout \<mapsto> ?D @ log_bytes H s_bytes recs1)\<rparr>)"
    "list_all2 (same_record H s_bytes) recs1 (recs f)" "list_all calm ss1"
    by (rule cp_command_log [OF store adv f Cons.prems(3)])
  let ?w = "w\<lparr>cw_scripts := ss1, cw_disks := (cw_disks w)(fout \<mapsto> ?D @ log_bytes H s_bytes recs1)\<rparr>"
  have others: "cw_disks ?w g = Some (log_bytes H s_bytes (recs g)) \<and>
      all_readable H s_bytes (recs g) \<and> length (log_bytes H s_bytes (recs g)) < 2 ^ 63"
    if "g \<in> set files" for g
    using Cons.prems(1) Cons.prems(2) [of g] that by auto
  have "fout \<notin> set files" "list_all calm (cw_scripts ?w)" using Cons.prems(1) one(3) by simp_all
  from Cons.IH [OF this(1) others this(2)] obtain recs2 ss where two:
    "each_file (\<lambda>fin. cp_command H fs bm tmp ds chk env cs fin fout (Index 0) (2 ^ 64 - 1) NoCompress)
      files ?w = Some (Ok (), ?w\<lparr>cw_scripts := ss, cw_disks := (cw_disks ?w)(fout := if files = []
        then cw_disks ?w fout else Some (disk_bytes (cw_disks ?w fout) @ log_bytes H s_bytes recs2))\<rparr>)"
    "list_all2 (same_record H s_bytes) recs2 (concat (map recs files))"
    by blast
  have "files = [] \<longrightarrow> recs2 = []" "log_bytes H s_bytes (recs1 @ recs2) =
      log_bytes H s_bytes recs1 @ log_bytes H s_bytes recs2"
    using two(2) by (auto simp: log_bytes_def)
  then have "(cw_disks ?w)(fout := if files = [] then cw_disks ?w fout
      else Some (disk_bytes (cw_disks ?w fout) @ log_bytes H s_bytes recs2)) =
    (cw_disks w)(fout := if f # files = [] then cw_disks w fout
      else Some (?D @ log_bytes H s_bytes (recs1 @ recs2)))"
    by simp
  moreover have "list_all2 (same_record H s_bytes) (recs1 @ recs2) (concat (map recs (f # files)))"
    using one(2) two(2) by (simp add: list_all2_appendI)
  moreover note two(1) one(1)
  ultimately show ?case
    by (intro exI [of _ "recs1 @ recs2"] exI [of _ ss]) (simp add: fun_upd_def cong: if_cong)
qed

section \<open>Properties of the tool\<close>

text \<open>
  C25: \<^verbatim>\<open>barc cp\<close> of any number of files of uncompressed records, without options, exits with
  status 0, and the output file has grown by uncompressed copies of all records of all the files, in
  the order of the arguments. No other file and nothing on standard output has changed.
\<close>
theorem run_cp_files:
  assumes "barc_store fs p_bytes p_patience s_bytes s_off s_patience g_bytes g_off g_patience cs bm H"
    and "\<And>m a. mh_advise fs m a = None"
    and "mt_name m = Some ''cp''" and "mt_values m ''file'' = Some files" and "files \<noteq> []"
    and "mt_value m ''out-file'' = Some fout"
    and "\<And>opt. opt \<in> {''index'', ''offset'', ''count''} \<Longrightarrow> mt_value m opt = None"
    and "\<And>flag. flag \<in> {''gzip'', ''brotli''} \<Longrightarrow> flag \<notin> set (mt_present m)"
    and "fout \<notin> set files"
    and "\<And>f. f \<in> set files \<Longrightarrow> cw_disks w f = Some (log_bytes H s_bytes (recs f)) \<and>
      all_readable H s_bytes (recs f) \<and> length (log_bytes H s_bytes (recs f)) < 2 ^ 63"
    and "list_all calm (cw_scripts w)" and "lg_logger (cw_log w) = None"
  shows "\<exists>recs' w'. run do_cat (cp_command H fs bm tmp ds chk env cs) do_record m w = Some (Ok (), w') \<and>
    main_exit (run do_cat (cp_command H fs bm tmp ds chk env cs) do_record m w) = Some 0 \<and>
    cw_disks w' = (cw_disks w)(fout \<mapsto> disk_bytes (cw_disks w fout) @ log_bytes H s_bytes recs') \<and>
    cw_out w' = cw_out w \<and> list_all2 (same_record H s_bytes) recs' (concat (map recs files))"
proof -
  let ?cp = "\<lambda>fin. cp_command H fs bm tmp ds chk env cs fin fout (Index 0) (2 ^ 64 - 1) NoCompress"
  obtain lg where lg: "setup_logger (mt_debug m) (cw_log w) = (True, lg)"
    using assms(12) by (simp add: setup_logger_def Let_def)
  let ?w = "w\<lparr>cw_log := lg\<rparr>"
  have flags: "filter_flags (length files) (mt_value m ''index'') (mt_value m ''offset'')
      (mt_value m ''count'') = Ok (Index 0, 2 ^ 64 - 1)" "compress_flags (mt_present m) = NoCompress"
    using assms(7) [of "''index''"] assms(7) [of "''offset''"] assms(7) [of "''count''"]
      assms(8) [of "''gzip''"] assms(8) [of "''brotli''"]
    by (simp_all add: filter_flags_def compress_flags_def)
  have r: "run do_cat (cp_command H fs bm tmp ds chk env cs) do_record m w = each_file ?cp files ?w"
    using lg assms(3,4,6) flags by (simp add: run_def run_command_def unwrapped_def filtered_def)
  obtain recs' ss where "each_file ?cp files ?w = Some (Ok (), ?w\<lparr>cw_scripts := ss,
      cw_disks := (cw_disks ?w)(fout \<mapsto> disk_bytes (cw_disks ?w fout) @ log_bytes H s_bytes recs')\<rparr>)"
    "list_all2 (same_record H s_bytes) recs' (concat (map recs files))"
    using each_cp_log [OF assms(1,2,9), of ?w recs tmp ds chk env] assms(5,10,11) by auto
  then show ?thesis
    unfolding r by (intro exI [of _ recs']) (simp add: main_exit_def)
qed

text \<open>Two files copied into a third.\<close>

definition sample_matches :: matches where
  "sample_matches =
     \<lparr>mt_debug = 0, mt_name = Some ''cp'', mt_present = [],
      mt_value = (\<lambda>n. if n = ''out-file'' then Some ''c'' else None),
      mt_values = (\<lambda>n. if n = ''file'' then Some [''a'', ''b''] else None)\<rparr>"

definition sample_world :: "bytes cli_world" where
  "sample_world =
     \<lparr>cw_disks = (\<lambda>f. if f \<in> {''a'', ''b''}
        then Some (log_bytes assoc_http (\<lambda>s. cur_bytes (fst s)) [sample_record]) else None),
      cw_out = [], cw_log = log_start, cw_scripts = []\<rparr>"

theorem run_cp_files_witness:
  "\<exists>(recs' :: (assoc_map, cursor \<times> nat) barc_record list) w'. run (\<lambda>_ _ _ _ w. Some (Ok (), w))
      (cp_command assoc_http cursor_olio grow_buf scripted_tempfile identity_decoders True ''/tmp''
        buffering_codecs) (\<lambda>_ _ _ _ _ w. Some (Ok (), w)) sample_matches sample_world = Some (Ok (), w') \<and>
    cw_disks w' ''c'' = Some (log_bytes assoc_http (\<lambda>s. cur_bytes (fst s)) recs') \<and> length recs' = 2"
proof -
  have r: "all_readable assoc_http (\<lambda>s. cur_bytes (fst s)) [sample_record]"
    using sample_readable by (simp add: sample_head_fields v2_defs) (simp add: all_readable_def)
  have l: "length (log_bytes assoc_http (\<lambda>s. cur_bytes (fst s)) [sample_record]) < 2 ^ 63"
    by (simp add: length_sample)
  obtain recs' w' where "run (\<lambda>_ _ _ _ w. Some (Ok (), w))
      (cp_command assoc_http cursor_olio grow_buf scripted_tempfile identity_decoders True ''/tmp''
        buffering_codecs) (\<lambda>_ _ _ _ _ w. Some (Ok (), w)) sample_matches sample_world = Some (Ok (), w')"
    "cw_disks w' = (cw_disks sample_world)(''c'' \<mapsto>
        disk_bytes (cw_disks sample_world ''c'') @ log_bytes assoc_http (\<lambda>s. cur_bytes (fst s)) recs')"
    "list_all2 (same_record assoc_http (\<lambda>s. cur_bytes (fst s))) recs' [sample_record, sample_record]"
    using run_cp_files [OF stores.barc_store_axioms, of sample_matches "[''a'', ''b'']" "''c''"
        sample_world "\<lambda>_. [sample_record]" "\<lambda>_ _ _ _ w. Some (Ok (), w)" scripted_tempfile
        identity_decoders True "''/tmp''" "\<lambda>_ _ _ _ _ w. Some (Ok (), w)"] r l
    by (fastforce simp: sample_matches_def sample_world_def log_start_def)
  then show ?thesis
    by (intro exI [of _ recs'] exI [of _ w'])
      (auto simp: sample_world_def dest: list_all2_lengthD)
qed

end
