(* ===== verification/Error_Text.thy ===== *)
theory Error_Text
  imports Barc_Head Futio_Error
begin

text \<open>
  The texts and the causes of the errors: \<^verbatim>\<open>Display\<close> and \<^verbatim>\<open>source\<close> of \<^verbatim>\<open>BodyError\<close>
  (\<^verbatim>\<open>body-image/src/lib.rs\<close>), of \<^verbatim>\<open>DialogConvertError\<close> and \<^verbatim>\<open>BarcError\<close>
  (\<^verbatim>\<open>barc/src/lib.rs\<close>) and of \<^verbatim>\<open>FutioError\<close> (\<^verbatim>\<open>body-image-futio/src/lib.rs\<close>). Showing the unused
  variant panics. How the standard library shows an I/O error and a duration, which no code depends
  on, is a parameter.

  The lemmas say that an error is shown as a prefix before what it shows of its cause, so that a
  chain of causes can be followed in the text.
\<close>

section \<open>Numbers and bytes\<close>

definition dec_char :: "nat \<Rightarrow> byte" where
  "dec_char d = char_of (48 + d)"

fun dec_text :: "nat \<Rightarrow> bytes" where
  "dec_text n = (if n < 10 then [dec_char n] else dec_text (n div 10) @ [dec_char (n mod 10)])"

declare dec_text.simps [simp del]

text \<open>\<^verbatim>\<open>{:x?}\<close> of a vector of bytes.\<close>

fun comma_list :: "bytes list \<Rightarrow> bytes" where
  "comma_list [] = []"
| "comma_list [t] = t"
| "comma_list (t # ts) = t @ '', '' @ comma_list ts"

definition hex_debug :: "bytes \<Rightarrow> bytes" where
  "hex_debug bs = ''['' @ comma_list (map (\<lambda>b. hex_digits (of_char b)) bs) @ '']''"

text \<open>\<^verbatim>\<open>String::from_utf8\<close>: the rest after one character, if that is well formed.\<close>

definition byte_between :: "nat \<Rightarrow> nat \<Rightarrow> byte \<Rightarrow> bool" where
  "byte_between lo hi b \<longleftrightarrow> lo \<le> of_char b \<and> of_char b \<le> hi"

definition utf8_rest :: "byte \<Rightarrow> bytes \<Rightarrow> bytes option" where
  "utf8_rest a s =
     (if byte_between 0 127 a then Some s
      else if byte_between 194 223 a
      then (case s of
          b # s' \<Rightarrow> if byte_between 128 191 b then Some s' else None
        | _ \<Rightarrow> None)
      else if byte_between 224 239 a
      then (case s of
          b # c # s' \<Rightarrow>
            if byte_between (if of_char a = (224 :: nat) then 160 else 128)
                (if of_char a = (237 :: nat) then 159 else 191) b \<and> byte_between 128 191 c
            then Some s' else None
        | _ \<Rightarrow> None)
      else if byte_between 240 244 a
      then (case s of
          b # c # d # s' \<Rightarrow>
            if byte_between (if of_char a = (240 :: nat) then 144 else 128)
                (if of_char a = (244 :: nat) then 143 else 191) b \<and>
               byte_between 128 191 c \<and> byte_between 128 191 d
            then Some s' else None
        | _ \<Rightarrow> None)
      else None)"

lemma utf8_rest_shorter: "utf8_rest a s = Some s' \<Longrightarrow> length s' \<le> length s"
  by (auto simp: utf8_rest_def split: if_splits list.splits)

function utf8_valid :: "bytes \<Rightarrow> bool" where
  "utf8_valid [] = True"
| "utf8_valid (a # s) = (case utf8_rest a s of None \<Rightarrow> False | Some s' \<Rightarrow> utf8_valid s')"
  by pat_completeness auto
termination
  by (relation "measure length") (auto dest: utf8_rest_shorter)

lemma utf8_valid_ascii: "(\<And>c. c \<in> set s \<Longrightarrow> of_char c < (128 :: nat)) \<Longrightarrow> utf8_valid s"
proof (induction s)
  case (Cons a s)
  have "utf8_rest a s = Some s"
    using Cons.prems [of a] by (simp add: utf8_rest_def byte_between_def)
  then show ?case using Cons by simp
qed simp

section \<open>Texts\<close>

record texts =
  tx_io :: "io_error \<Rightarrow> bytes"
  tx_duration :: "nat \<Rightarrow> bytes"
  tx_canceled :: bytes

definition future_proof :: "('e, bytes) result" where
  "future_proof =
     panic ''internal error: entered unreachable code: Don't abuse the _FutureProof!''"

fun flaw_text :: "flaw \<Rightarrow> bytes" where
  "flaw_text (Flaw s) = s"

fun body_text :: "texts \<Rightarrow> body_error \<Rightarrow> ('e, bytes) result" where
  "body_text T (BodyTooLong l) =
     Ok (''Body length of '' @ dec_text l @ ''+ bytes exceeds Tunables::max_body'')"
| "body_text T (BodyIo e) = Ok (''Body I/O: '' @ tx_io T e)"
| "body_text T BodyFutureProof = future_proof"

fun convert_text :: "convert_error \<Rightarrow> ('e, bytes) result" where
  "convert_text NoMetaUrl = Ok ''No url meta header found''"
| "convert_text (InvalidUrl iub) = Ok (''Invalid URI: '' @ flaw_text iub)"
| "convert_text NoMetaMethod = Ok ''No method meta header found''"
| "convert_text (InvalidMethod im) = Ok (''Invalid HTTP Method: '' @ flaw_text im)"
| "convert_text NoMetaResVersion = Ok ''No response-version meta header found''"
| "convert_text (InvalidVersion bs) =
     (if utf8_valid bs then Ok (''Invalid HTTP Version: '' @ bs)
      else Ok (''Invalid HTTP Version: '' @ hex_debug bs))"
| "convert_text NoMetaResStatus = Ok ''No response-status meta header found''"
| "convert_text MalformedMetaResStatus = Ok ''The response-status meta header is malformed''"
| "convert_text (InvalidStatusCode isc) = Ok (''Invalid HTTP status code: '' @ flaw_text isc)"
| "convert_text (InvalidResDecoded d) = Ok (''Invalid response-decoded header value: '' @ d)"
| "convert_text ConvertFutureProof = future_proof"

fun compression_debug :: "compression \<Rightarrow> bytes" where
  "compression_debug Plain = ''Plain''"
| "compression_debug Gzip = ''Gzip''"
| "compression_debug Brotli = ''Brotli''"

fun barc_text :: "texts \<Rightarrow> barc_error \<Rightarrow> ('e, bytes) result" where
  "barc_text T (Body be) = bindR (body_text T be) (\<lambda>t. Ok (''With Body; '' @ t))"
| "barc_text T (Io e) = Ok (tx_io T e)"
| "barc_text T (UnknownRecordType b) =
     Ok (''Unknown record type flag ['' @ dec_text (of_char b) @ '']'')"
| "barc_text T (UnknownCompression b) =
     Ok (''Unknown compression flag ['' @ dec_text (of_char b) @ '']'')"
| "barc_text T (DecoderUnsupported c) =
     Ok (''No decoder for '' @ compression_debug c @ ''. Enable the feature?'')"
| "barc_text T (ReadIncompleteRecHead l) = Ok (''Incomplete record head, len '' @ dec_text l)"
| "barc_text T ReadInvalidRecHead = Ok ''Invalid record head suffix''"
| "barc_text T (ReadInvalidRecHeadHex b) =
     Ok (''Invalid record head hex digit ['' @ dec_text (of_char b) @ '']'')"
| "barc_text T (IntoDialog dce) =
     bindR (convert_text dce) (\<lambda>t. Ok (''Record to Dialog conversion; '' @ t))"
| "barc_text T (InvalidHeader f) = Ok (''Invalid header; '' @ flaw_text f)"
| "barc_text T BarcFutureProof = future_proof"

fun futio_text :: "texts \<Rightarrow> futio_error \<Rightarrow> ('e, bytes) result" where
  "futio_text T (FBody be) = bindR (body_text T be) (\<lambda>t. Ok (''With body: '' @ t))"
| "futio_text T (ResponseTimeout d) =
     Ok (''Timeout before initial response ('' @ tx_duration T d @ '')'')"
| "futio_text T (BodyTimeout d) =
     Ok (''Timeout before streaming body complete ('' @ tx_duration T d @ '')'')"
| "futio_text T (ContentLengthTooLong l) =
     Ok (''Response Content-Length too long: '' @ dec_text l)"
| "futio_text T (FHttp e) = Ok (''Http error: '' @ flaw_text e)"
| "futio_text T (FHyper e) = Ok (''Hyper error: '' @ flaw_text e)"
| "futio_text T (UnsupportedEncoding e) = Ok (''Unsupported encoding: '' @ encoding_display e)"
| "futio_text T OpCanceled = Ok (''Error: '' @ tx_canceled T)"
| "futio_text T (OtherFlaw f) = Ok (''Other error: '' @ flaw_text f)"
| "futio_text T FutioFutureProof = future_proof"

section \<open>Causes\<close>

datatype cause = CauseIo io_error | CauseBody body_error | CauseConvert convert_error
  | CauseFlaw flaw | CauseCanceled

fun body_source :: "body_error \<Rightarrow> cause option" where
  "body_source (BodyIo e) = Some (CauseIo e)"
| "body_source _ = None"

fun convert_source :: "convert_error \<Rightarrow> cause option" where
  "convert_source (InvalidUrl iub) = Some (CauseFlaw iub)"
| "convert_source (InvalidMethod im) = Some (CauseFlaw im)"
| "convert_source (InvalidStatusCode isc) = Some (CauseFlaw isc)"
| "convert_source _ = None"

fun barc_source :: "barc_error \<Rightarrow> cause option" where
  "barc_source (Body be) = Some (CauseBody be)"
| "barc_source (Io e) = Some (CauseIo e)"
| "barc_source (InvalidHeader f) = Some (CauseFlaw f)"
| "barc_source (IntoDialog dce) = Some (CauseConvert dce)"
| "barc_source _ = None"

fun futio_source :: "futio_error \<Rightarrow> cause option" where
  "futio_source (FBody be) = Some (CauseBody be)"
| "futio_source (FHttp ht) = Some (CauseFlaw ht)"
| "futio_source (FHyper he) = Some (CauseFlaw he)"
| "futio_source OpCanceled = Some CauseCanceled"
| "futio_source (OtherFlaw f) = Some (CauseFlaw f)"
| "futio_source _ = None"

fun cause_text :: "texts \<Rightarrow> cause \<Rightarrow> ('e, bytes) result" where
  "cause_text T (CauseIo e) = Ok (tx_io T e)"
| "cause_text T (CauseBody e) = body_text T e"
| "cause_text T (CauseConvert e) = convert_text e"
| "cause_text T (CauseFlaw f) = Ok (flaw_text f)"
| "cause_text T CauseCanceled = Ok (tx_canceled T)"

fun cause_source :: "cause \<Rightarrow> cause option" where
  "cause_source (CauseBody e) = body_source e"
| "cause_source (CauseConvert e) = convert_source e"
| "cause_source _ = None"

section \<open>Texts and causes\<close>

text \<open>\<open>r\<close> is a prefix and what is shown of the cause, if there is one.\<close>

definition shows_cause :: "texts \<Rightarrow> cause option \<Rightarrow> ('e, bytes) result \<Rightarrow> bool" where
  "shows_cause T c r \<longleftrightarrow> (case c of
     None \<Rightarrow> True | Some x \<Rightarrow> \<exists>prefix. r = bindR (cause_text T x) (\<lambda>t. Ok (prefix @ t)))"

lemma shows_causeI: "r = bindR (cause_text T x) (\<lambda>t. Ok (prefix @ t)) \<Longrightarrow> shows_cause T (Some x) r"
  by (auto simp: shows_cause_def)

lemma shows_no_cause [simp]: "shows_cause T None r"
  by (simp add: shows_cause_def)

lemma body_text_cause: "shows_cause T (body_source e) (body_text T e)"
  by (cases e) (auto intro: shows_causeI)

lemma convert_text_cause: "shows_cause T (convert_source e) (convert_text e)"
  by (cases e) (auto intro: shows_causeI)

lemma cause_text_cause: "shows_cause T (cause_source c) (cause_text T c)"
  by (cases c) (simp_all add: body_text_cause convert_text_cause)

lemma shows_bind:
  "shows_cause T (Some (CauseBody b)) (bindR (body_text T b) (\<lambda>t. Ok (prefix @ t)))"
  "shows_cause T (Some (CauseConvert c)) (bindR (convert_text c) (\<lambda>t. Ok (prefix @ t)))"
  by (rule shows_causeI, simp)+

lemma barc_text_cause: "shows_cause T (barc_source e) (barc_text T e)"
  by (cases e)
    (auto simp del: append.simps simp: shows_bind intro: shows_causeI [where prefix = "[]"] shows_causeI)

lemma futio_text_cause: "shows_cause T (futio_source e) (futio_text T e)"
  by (cases e) (auto simp del: append.simps simp: shows_bind intro: shows_causeI)

text \<open>Only the unused variants cannot be shown.\<close>

lemma body_text_panics: "(\<exists>m. body_text T e = panic m) \<longleftrightarrow> e = BodyFutureProof"
  by (cases e) (auto simp: future_proof_def)

lemma convert_text_panics: "(\<exists>m. convert_text e = panic m) \<longleftrightarrow> e = ConvertFutureProof"
  by (cases e) (auto simp: future_proof_def)

lemma bindR_panics: "(\<exists>m. bindR r (\<lambda>t. Ok (f t)) = panic m) \<longleftrightarrow> (\<exists>m. r = panic m)"
  by (cases r) auto

lemma barc_text_panics: "(\<exists>m. barc_text T e = panic m) \<longleftrightarrow>
    e \<in> {Body BodyFutureProof, IntoDialog ConvertFutureProof, BarcFutureProof}"
  by (cases e) (auto simp: bindR_panics body_text_panics convert_text_panics future_proof_def)

lemma futio_text_panics: "(\<exists>m. futio_text T e = panic m) \<longleftrightarrow>
    e \<in> {FBody BodyFutureProof, FutioFutureProof}"
  by (cases e) (auto simp: bindR_panics body_text_panics future_proof_def)

end
