(* ===== verification/Futio_Split.thy ===== *)
theory Futio_Split
  imports Futio_Collect
begin

text \<open>
  \<^verbatim>\<open>SplitBodyImage\<close> and \<^verbatim>\<open>YieldBodyImage\<close> of \<^verbatim>\<open>body-image-futio/src/stream.rs\<close>: an
  \<^verbatim>\<open>AsyncBodyImage\<close> in the \<^verbatim>\<open>Cleaver\<close> and the \<^verbatim>\<open>YieldStream\<close> of the \<^emph>\<open>blocking-permit\<close>
  crate. The two combinators are parameters, with their documented behaviour as locales: a
  \<^verbatim>\<open>Cleaver\<close> splits items by \<^verbatim>\<open>Splittable::split_if\<close>, and a \<^verbatim>\<open>YieldStream\<close> is pending once after
  each item.

  The property says that a body that is split and yields has the same bytes in items of bounded
  length, and that two items are never ready one right after the other.
\<close>

section \<open>The combinators\<close>

type_synonym ('i, 'b) stepper = "'i \<Rightarrow> ('b item poll \<times> 'i) option"

type_synonym 'b split_op = "'b \<Rightarrow> nat \<Rightarrow> (io_error, 'b option) result \<times> 'b"

record ('i, 'b, 'c) cleaver =
  cl_new :: "'i \<Rightarrow> nat \<Rightarrow> 'c"
  cl_poll :: "'b split_op \<Rightarrow> ('i, 'b) stepper \<Rightarrow> ('c, 'b) stepper"

record ('i, 'b, 'y) yielder =
  ys_new :: "'i \<Rightarrow> 'y"
  ys_poll :: "('i, 'b) stepper \<Rightarrow> ('y, 'b) stepper"

section \<open>SplitBodyImage and YieldBodyImage\<close>

definition split_image_new ::
  "('p, 's, 'g) olio \<Rightarrow> (('s, unit, 'q) async_image, 'b, 'c) cleaver \<Rightarrow> ('c, 'b, 'y) yielder
     \<Rightarrow> 's body_image \<Rightarrow> 'q futio_tunables \<Rightarrow> 'y" where
  "split_image_new fs Cl Y body tune =
     (let mx = stream_item_size tune
      in ys_new Y (cl_new Cl (async_image_new fs lenient body tune) mx))"

definition split_poll_next ::
  "('p, 's, 'g) olio \<Rightarrow> 'b output_buf \<Rightarrow> bool \<Rightarrow> 'b split_op
     \<Rightarrow> (('s, unit, 'q) async_image, 'b, 'c) cleaver \<Rightarrow> ('c, 'b, 'y) yielder \<Rightarrow> ('y, 'b) stepper" where
  "split_poll_next fs B chk split_if Cl Y = ys_poll Y (cl_poll Cl split_if (poll_impl fs B chk lenient))"

definition yield_image_new ::
  "('p, 's, 'g) olio \<Rightarrow> (('s, unit, 'q) async_image, 'b, 'y) yielder
     \<Rightarrow> 's body_image \<Rightarrow> 'q futio_tunables \<Rightarrow> 'y" where
  "yield_image_new fs Y body tune = ys_new Y (async_image_new fs lenient body tune)"

definition yield_poll_next ::
  "('p, 's, 'g) olio \<Rightarrow> 'b output_buf \<Rightarrow> bool
     \<Rightarrow> (('s, unit, 'q) async_image, 'b, 'y) yielder \<Rightarrow> ('y, 'b) stepper" where
  "yield_poll_next fs B chk Y = ys_poll Y (poll_impl fs B chk lenient)"

section \<open>The contracts\<close>

text \<open>\<^verbatim>\<open>Splittable\<close>, and the buffers that a stream makes.\<close>

locale splittable_bufs =
  output_bufs B for B :: "'b output_buf" +
  fixes split_if :: "'b split_op" and valid :: "'b \<Rightarrow> bool"
  assumes valid_from: "valid (ob_from B bs)"
    and valid_mmap: "ob_from_mmap B adv m = Inr b \<Longrightarrow> valid b"
    and split_long: "valid b \<Longrightarrow> 0 < n \<Longrightarrow> n < length (ob_chunk B b) \<Longrightarrow>
      \<exists>s b'. split_if b n = (Ok (Some s), b') \<and> ob_chunk B s = take n (ob_chunk B b) \<and>
        ob_chunk B b' = drop n (ob_chunk B b) \<and> valid b'"
    and split_short: "length (ob_chunk B b) \<le> n \<Longrightarrow> split_if b n = (Ok None, b)"

definition bytes_split_if :: "bytes split_op" where
  "bytes_split_if b n = (if n < length b then (Ok (Some (take n b)), drop n b) else (Ok None, b))"

interpretation split_bytes: splittable_bufs output_bytes bytes_split_if "\<lambda>_. True"
  by unfold_locales (auto simp: output_bytes_def bytes_split_if_def)

lemma uni_valid_mmap: "ob_from_mmap output_uni adv m = Inr u \<Longrightarrow> uni_ok u"
  by (auto simp: output_uni_def uni_from_mmap_def mm_defs Let_def bindR_Inr_iff split: if_splits)

interpretation split_uni: splittable_bufs output_uni uni_split_if uni_ok
  using uni_split_ok uni_valid_mmap
  by unfold_locales (auto simp: output_uni_def uni_split_if_def)

text \<open>
  The stream in the \<^verbatim>\<open>Cleaver\<close>, what remains of its last item, and the limit. A poll takes the
  remainder or else the next item, and splits it; whatever is no item is passed on.
\<close>

locale cleaving =
  fixes Cl :: "('i, 'b, 'c) cleaver"
    and source :: "'c \<Rightarrow> 'i" and remain :: "'c \<Rightarrow> 'b option" and limit :: "'c \<Rightarrow> nat"
  assumes new: "source (cl_new Cl i n) = i" "remain (cl_new Cl i n) = None" "limit (cl_new Cl i n) = n"
    and cut: "remain c = Some b \<and> i = source c \<or>
        remain c = None \<and> p (source c) = Some (Ready (Some (Ok b)), i) \<Longrightarrow>
      split_if b (limit c) = (Ok r, b') \<Longrightarrow>
      \<exists>c'. cl_poll Cl split_if p c = Some (Ready (Some (Ok (case r of Some s \<Rightarrow> s | None \<Rightarrow> b'))), c') \<and>
        source c' = i \<and> remain c' = (case r of Some s \<Rightarrow> Some b' | None \<Rightarrow> None) \<and> limit c' = limit c"
    and pass: "remain c = None \<Longrightarrow> p (source c) = Some (x, i) \<Longrightarrow> (\<And>b. x \<noteq> Ready (Some (Ok b))) \<Longrightarrow>
      \<exists>c'. cl_poll Cl split_if p c = Some (x, c') \<and> source c' = i \<and> remain c' = None \<and> limit c' = limit c"

locale yielding =
  fixes Y :: "('i, 'b, 'y) yielder" and source :: "'y \<Rightarrow> 'i" and paused :: "'y \<Rightarrow> bool"
  assumes new: "source (ys_new Y i) = i" "\<not> paused (ys_new Y i)"
    and pause: "paused y \<Longrightarrow>
      \<exists>y'. ys_poll Y p y = Some (Pending, y') \<and> source y' = source y \<and> \<not> paused y'"
    and go: "\<not> paused y \<Longrightarrow> p (source y) = Some (x, i) \<Longrightarrow>
      \<exists>y'. ys_poll Y p y = Some (x, y') \<and> source y' = i \<and> (paused y' \<longleftrightarrow> (\<exists>v. x = Ready (Some v)))"
    and stop: "\<not> paused y \<Longrightarrow> p (source y) = None \<Longrightarrow> ys_poll Y p y = None"

text \<open>An instance of each.\<close>

record ('i, 'b) cleaved =
  cd_source :: 'i
  cd_remain :: "'b option"
  cd_limit :: nat

definition cleave_item :: "'b split_op \<Rightarrow> 'b \<Rightarrow> ('i, 'b) cleaved \<Rightarrow> 'b item poll \<times> ('i, 'b) cleaved" where
  "cleave_item split_if b c =
     (case split_if b (cd_limit c) of
        (Inl f, b') \<Rightarrow> (Ready (Some (Inl f)), c)
      | (Inr (Some s), b') \<Rightarrow> (Ready (Some (Ok s)), c\<lparr>cd_remain := Some b'\<rparr>)
      | (Inr None, b') \<Rightarrow> (Ready (Some (Ok b')), c\<lparr>cd_remain := None\<rparr>))"

definition simple_cleaver :: "('i, 'b, ('i, 'b) cleaved) cleaver" where
  "simple_cleaver =
     \<lparr>cl_new = (\<lambda>i n. \<lparr>cd_source = i, cd_remain = None, cd_limit = n\<rparr>),
      cl_poll = (\<lambda>split_if p c.
        case cd_remain c of
          Some b \<Rightarrow> Some (cleave_item split_if b c)
        | None \<Rightarrow>
            (case p (cd_source c) of
               None \<Rightarrow> None
             | Some (Ready (Some (Inr b)), i) \<Rightarrow> Some (cleave_item split_if b (c\<lparr>cd_source := i\<rparr>))
             | Some (x, i) \<Rightarrow> Some (x, c\<lparr>cd_source := i\<rparr>)))\<rparr>"

interpretation simple_cleaving: cleaving simple_cleaver cd_source cd_remain cd_limit
proof
  fix c :: "('i, 'b) cleaved" and b i r b' and p :: "('i, 'b) stepper" and split_if :: "'b split_op"
  assume "cd_remain c = Some b \<and> i = cd_source c \<or>
      cd_remain c = None \<and> p (cd_source c) = Some (Ready (Some (Ok b)), i)"
    and "split_if b (cd_limit c) = (Ok r, b')"
  then show "\<exists>c'. cl_poll simple_cleaver split_if p c =
      Some (Ready (Some (Ok (case r of Some s \<Rightarrow> s | None \<Rightarrow> b'))), c') \<and> cd_source c' = i \<and>
      cd_remain c' = (case r of Some s \<Rightarrow> Some b' | None \<Rightarrow> None) \<and> cd_limit c' = cd_limit c"
    by (cases r) (auto simp: simple_cleaver_def cleave_item_def)
next
  fix c :: "('i, 'b) cleaved" and x i and p :: "('i, 'b) stepper" and split_if :: "'b split_op"
  assume "cd_remain c = None" "p (cd_source c) = Some (x, i)" "\<And>b. x \<noteq> Ready (Some (Ok b))"
  then show "\<exists>c'. cl_poll simple_cleaver split_if p c = Some (x, c') \<and> cd_source c' = i \<and>
      cd_remain c' = None \<and> cd_limit c' = cd_limit c"
    by (auto simp: simple_cleaver_def split: poll.splits option.splits sum.splits)
qed (simp_all add: simple_cleaver_def)

definition simple_yielder :: "('i, 'b, 'i \<times> bool) yielder" where
  "simple_yielder =
     \<lparr>ys_new = (\<lambda>i. (i, False)),
      ys_poll = (\<lambda>p (i, paused).
        if paused then Some (Pending, (i, False))
        else map_option (\<lambda>(x, i'). (x, (i', case x of Ready (Some v) \<Rightarrow> True | _ \<Rightarrow> False))) (p i))\<rparr>"

interpretation simple_yielding: yielding simple_yielder fst snd
  by unfold_locales (auto simp: simple_yielder_def split: poll.splits option.splits)

section \<open>Streams of items\<close>

text \<open>
  A stream that delivers \<open>rest\<close> in at most \<open>rank\<close> items and then ends, or fails with an error that
  is \<open>bad\<close>; \<open>fits\<close> holds of its items.
\<close>

locale item_stream =
  fixes poll :: "('i, 'b) stepper" and ok :: "'i \<Rightarrow> bool" and rest :: "'i \<Rightarrow> bytes"
    and rank :: "'i \<Rightarrow> nat" and chunk :: "'b \<Rightarrow> bytes" and fits :: "'b \<Rightarrow> bool" and bad :: "io_error \<Rightarrow> bool"
  assumes step: "ok s \<Longrightarrow>
      (\<exists>s'. poll s = Some (Ready None, s') \<and> rest s = []) \<or>
      (\<exists>e s'. poll s = Some (Ready (Some (Err e)), s') \<and> bad e) \<or>
      (\<exists>b s'. poll s = Some (Ready (Some (Ok b)), s') \<and> ok s' \<and> rest s = chunk b @ rest s' \<and>
         rank s' < rank s \<and> fits b)"

text \<open>
  What a client is delivered: all bytes and the end of the stream, or a prefix and an error.
\<close>

definition delivered ::
  "('b \<Rightarrow> bytes) \<Rightarrow> ('b \<Rightarrow> bool) \<Rightarrow> (io_error \<Rightarrow> bool) \<Rightarrow> bytes \<Rightarrow> 'b list \<Rightarrow> io_error fault option \<Rightarrow> bool" where
  "delivered chunk fits bad bs items e \<longleftrightarrow>
     (\<forall>b\<in>set items. fits b) \<and>
     (case e of
        None \<Rightarrow> concat (map chunk items) = bs
      | Some f \<Rightarrow> (\<exists>k. concat (map chunk items) = take k bs) \<and> (\<exists>io. f = Fail io \<and> bad io))"

lemma delivered_none: "delivered chunk fits bad [] [] None"
  by (simp add: delivered_def)

lemma delivered_error: "bad io \<Longrightarrow> delivered chunk fits bad bs [] (Some (Fail io))"
  by (auto simp: delivered_def intro: exI [of _ 0])

lemma delivered_item:
  assumes "delivered chunk fits bad bs items e" and "fits b"
  shows "delivered chunk fits bad (chunk b @ bs) (b # items) e"
proof -
  have "\<exists>j. chunk b @ take k bs = take j (chunk b @ bs)" for k
    by (rule exI [of _ "length (chunk b) + k"]) simp
  then show ?thesis
    using assms by (cases e) (auto simp: delivered_def)
qed

context image_streams
begin

lemma poll_impl_valid:
  assumes "poll_impl fs B chk lenient s = Some (Ready (Some (Ok b)), s')"
    and "\<And>bs. valid (ob_from B bs)" and "\<And>m b. ob_from_mmap B (mh_advise fs) m = Inr b \<Longrightarrow> valid b"
  shows "valid b"
  using assms
  by (auto simp: poll_impl_def split: sum.splits if_splits async_body_state.splits list.splits
      option.splits prod.splits)

lemma plain_items:
  assumes "\<And>bs. valid (ob_from B bs)" and "\<And>m b. ob_from_mmap B (mh_advise fs) m = Inr b \<Longrightarrow> valid b"
  shows "item_stream (poll_impl fs B chk lenient) stream_ok stream_rest stream_polls (ob_chunk B) valid
    (\<lambda>e. \<exists>m a. mh_advise fs m a = Some e)"
proof
  fix s :: "('s, unit, 'q) async_image"
  assume "stream_ok s"
  then show "(\<exists>s'. poll_impl fs B chk lenient s = Some (Ready None, s') \<and> stream_rest s = []) \<or>
      (\<exists>e s'. poll_impl fs B chk lenient s = Some (Ready (Some (Err e)), s') \<and>
        (\<exists>m a. mh_advise fs m a = Some e)) \<or>
      (\<exists>b s'. poll_impl fs B chk lenient s = Some (Ready (Some (Ok b)), s') \<and> stream_ok s' \<and>
         stream_rest s = ob_chunk B b @ stream_rest s' \<and> stream_polls s' < stream_polls s \<and> valid b)"
    by (rule plain_step [where chk = chk]) (auto dest: poll_impl_valid [where valid = valid, OF _ assms])
qed

end

text \<open>Splitting the items of a stream.\<close>

locale cleaved_stream =
  inner: item_stream poll ok rest rank "ob_chunk B" valid bad +
  split: splittable_bufs B split_if valid +
  cleave: cleaving Cl source remain limit
  for poll :: "('i, 'b) stepper" and ok rest rank bad and B :: "'b output_buf" and split_if valid
    and Cl :: "('i, 'b, 'c) cleaver" and source remain limit
begin

definition cleaved_rest :: "'c \<Rightarrow> bytes" where
  "cleaved_rest c = (case remain c of None \<Rightarrow> [] | Some b \<Rightarrow> ob_chunk B b) @ rest (source c)"

definition cleaved_ok :: "nat \<Rightarrow> 'c \<Rightarrow> bool" where
  "cleaved_ok n c \<longleftrightarrow> ok (source c) \<and> limit c = n \<and> (\<forall>b. remain c = Some b \<longrightarrow> valid b)"

definition cleaved_rank :: "'c \<Rightarrow> nat" where
  "cleaved_rank c = length (cleaved_rest c) + rank (source c) + (if remain c = None then 0 else 1)"

text \<open>One cut, of \<open>b\<close> before the rest of the stream \<open>i\<close>.\<close>

lemma cut_item:
  assumes "0 < n" and "limit c = n" and "valid b" and "ok i"
    and "remain c = Some b \<and> i = source c \<or>
      remain c = None \<and> poll (source c) = Some (Ready (Some (Ok b)), i)"
  obtains s c' where "cl_poll Cl split_if poll c = Some (Ready (Some (Ok s)), c')" "cleaved_ok n c'"
    "ob_chunk B b @ rest i = ob_chunk B s @ cleaved_rest c'"
    "cleaved_rank c' \<le> length (ob_chunk B b @ rest i) + rank i" "length (ob_chunk B s) \<le> n"
proof (cases "n < length (ob_chunk B b)")
  case True
  then obtain s b' where s: "split_if b n = (Ok (Some s), b')" "ob_chunk B s = take n (ob_chunk B b)"
    "ob_chunk B b' = drop n (ob_chunk B b)" "valid b'"
    using split.split_long [OF assms(3,1)] by blast
  obtain c' where "cl_poll Cl split_if poll c = Some (Ready (Some (Ok s)), c')" "source c' = i"
    "remain c' = Some b'" "limit c' = n"
    using cleave.cut [of c b i poll split_if "Some s" b', OF assms(5)] s(1) assms(2) by auto
  then show ?thesis
    using that [of s c'] s(2-4) assms(1,4) True
    by (simp add: cleaved_ok_def cleaved_rest_def cleaved_rank_def)
next
  case False
  then have "split_if b n = (Ok None, b)" by (simp add: split.split_short)
  then obtain c' where "cl_poll Cl split_if poll c = Some (Ready (Some (Ok b)), c')" "source c' = i"
    "remain c' = None" "limit c' = n"
    using cleave.cut [of c b i poll split_if None b, OF assms(5)] assms(2) by auto
  then show ?thesis
    using that [of b c'] assms(4) False
    by (simp add: cleaved_ok_def cleaved_rest_def cleaved_rank_def)
qed

lemma cut_remain:
  assumes "0 < n" and c: "cleaved_ok n c" and Some: "remain c = Some b"
  shows "\<exists>x s'. cl_poll Cl split_if poll c = Some (Ready (Some (Ok x)), s') \<and> cleaved_ok n s' \<and>
    cleaved_rest c = ob_chunk B x @ cleaved_rest s' \<and> cleaved_rank s' < cleaved_rank c \<and>
    length (ob_chunk B x) \<le> n"
proof -
  obtain s c' where "cl_poll Cl split_if poll c = Some (Ready (Some (Ok s)), c')" "cleaved_ok n c'"
    "ob_chunk B b @ rest (source c) = ob_chunk B s @ cleaved_rest c'"
    "cleaved_rank c' \<le> length (ob_chunk B b @ rest (source c)) + rank (source c)"
    "length (ob_chunk B s) \<le> n"
    by (rule cut_item [OF assms(1), of c b "source c"]) (use c Some in \<open>simp_all add: cleaved_ok_def\<close>)
  moreover have "cleaved_rank c = Suc (length (ob_chunk B b @ rest (source c)) + rank (source c))"
    using Some by (simp add: cleaved_rank_def cleaved_rest_def)
  ultimately show ?thesis
    using Some by (auto simp: cleaved_rest_def)
qed

lemma cleaved_items:
  assumes "0 < n"
  shows "item_stream (cl_poll Cl split_if poll) (cleaved_ok n) cleaved_rest cleaved_rank (ob_chunk B)
    (\<lambda>b. length (ob_chunk B b) \<le> n) bad"
proof
  fix c
  let ?poll = "cl_poll Cl split_if poll"
  assume c: "cleaved_ok n c"
  show "(\<exists>s'. ?poll c = Some (Ready None, s') \<and> cleaved_rest c = []) \<or>
      (\<exists>e s'. ?poll c = Some (Ready (Some (Err e)), s') \<and> bad e) \<or>
      (\<exists>b s'. ?poll c = Some (Ready (Some (Ok b)), s') \<and> cleaved_ok n s' \<and>
         cleaved_rest c = ob_chunk B b @ cleaved_rest s' \<and> cleaved_rank s' < cleaved_rank c \<and>
         length (ob_chunk B b) \<le> n)"
  proof (cases "remain c")
    case (Some b)
    then show ?thesis using cut_remain [OF assms c] by blast
  next
    case None
    then have rest: "cleaved_rest c = rest (source c)" and rank: "cleaved_rank c = length (rest (source c)) + rank (source c)"
      by (simp_all add: cleaved_rest_def cleaved_rank_def)
    have "ok (source c)" using c by (simp add: cleaved_ok_def)
    from inner.step [OF this] consider (ended) i where "poll (source c) = Some (Ready None, i)" "rest (source c) = []"
      | (broken) e i where "poll (source c) = Some (Ready (Some (Err e)), i)" "bad e"
      | (item) b i where "poll (source c) = Some (Ready (Some (Ok b)), i)" "ok i"
          "rest (source c) = ob_chunk B b @ rest i" "rank i < rank (source c)" "valid b"
      by blast
    then show ?thesis
    proof cases
      case ended
      then show ?thesis
        using cleave.pass [where p = poll and split_if = split_if, OF None ended(1)] ended(2) rest by auto
    next
      case broken
      then show ?thesis
        using cleave.pass [where p = poll and split_if = split_if, OF None broken(1)] broken(2) by auto
    next
      case item
      obtain s c' where "?poll c = Some (Ready (Some (Ok s)), c')" "cleaved_ok n c'"
        "ob_chunk B b @ rest i = ob_chunk B s @ cleaved_rest c'"
        "cleaved_rank c' \<le> length (ob_chunk B b @ rest i) + rank i" "length (ob_chunk B s) \<le> n"
        by (rule cut_item [OF assms, of c b i]) (use c None item in \<open>simp_all add: cleaved_ok_def\<close>)
      then show ?thesis
        using item(3,4) rest rank by (intro disjI2) (fastforce simp: not_le)
    qed
  qed
qed

end

text \<open>Pausing after each item.\<close>

definition steps :: "('k, 'b) stepper \<Rightarrow> 'k \<Rightarrow> unit \<Rightarrow> ('b item poll \<times> ('k \<times> unit)) option" where
  "steps poll k u = map_option (\<lambda>(r, k'). (r, (k', ()))) (poll k)"

lemma collect_steps:
  "poll k = Some (Pending, k') \<Longrightarrow> collect (steps poll) (Suc n) k () = collect (steps poll) n k' ()"
  "poll k = Some (Ready None, k') \<Longrightarrow> collect (steps poll) (Suc n) k () = Some ([], Ready None, (k', ()))"
  "poll k = Some (Ready (Some (Inl f)), k') \<Longrightarrow>
    collect (steps poll) (Suc n) k () = Some ([], Ready (Some f), (k', ()))"
  "poll k = Some (Ready (Some (Ok b)), k') \<Longrightarrow> collect (steps poll) n k' () = Some (bs, e, kw) \<Longrightarrow>
    collect (steps poll) (Suc n) k () = Some (b # bs, e, kw)"
  by (simp_all add: steps_def)

text \<open>The answers to \<open>n\<close> polls.\<close>

fun answers :: "('k, 'b) stepper \<Rightarrow> nat \<Rightarrow> 'k \<Rightarrow> 'b item poll list" where
  "answers poll 0 k = []"
| "answers poll (Suc n) k = (case poll k of None \<Rightarrow> [] | Some (x, k') \<Rightarrow> x # answers poll n k')"

definition spaced :: "'b item poll list \<Rightarrow> bool" where
  "spaced xs \<longleftrightarrow>
     (\<forall>i. Suc i < length xs \<longrightarrow> (\<exists>v. xs ! i = Ready (Some v)) \<longrightarrow> xs ! Suc i = Pending)"

lemma spaced_Cons: "spaced (x # xs) \<longleftrightarrow>
    (xs \<noteq> [] \<longrightarrow> (\<exists>v. x = Ready (Some v)) \<longrightarrow> hd xs = Pending) \<and> spaced xs"
  unfolding spaced_def by (auto simp: hd_conv_nth nth_Cons' split: if_splits) (metis Suc_less_eq Suc_pred neq0_conv)+

context yielding
begin

lemma answers_spaced:
  "spaced (answers (ys_poll Y p) n y) \<and>
   (paused y \<longrightarrow> answers (ys_poll Y p) n y \<noteq> [] \<longrightarrow> hd (answers (ys_poll Y p) n y) = Pending)"
proof (induction n arbitrary: y)
  case (Suc n)
  show ?case
  proof (cases "paused y")
    case True
    then show ?thesis
      using pause [OF True, of p] Suc.IH by (auto simp: spaced_Cons)
  next
    case False
    show ?thesis
    proof (cases "p (source y)")
      case None
      then show ?thesis using stop [OF False, of p] by (simp add: spaced_def)
    next
      case (Some xi)
      then obtain x i where "p (source y) = Some (x, i)" by (cases xi) auto
      then show ?thesis
        using go [OF False, of p x i] Suc.IH False by (auto simp: spaced_Cons)
    qed
  qed
qed (simp add: spaced_def)

end

locale paced_stream =
  inner: item_stream poll ok rest rank chunk fits bad +
  yield: yielding Y source paused
  for poll :: "('i, 'b) stepper" and ok rest rank chunk fits bad
    and Y :: "('i, 'b, 'y) yielder" and source paused
begin

lemma paced_collect:
  assumes "ok (source y)"
  shows "\<exists>n items e y'. collect (steps (ys_poll Y poll)) n y () = Some (items, Ready e, (y', ())) \<and>
    delivered chunk fits bad (rest (source y)) items e"
  using assms
proof (induction "2 * rank (source y) + (if paused y then 1 else 0)" arbitrary: y rule: less_induct)
  case less
  note polls = collect_steps [where poll = "ys_poll Y poll"]
  show ?case
  proof (cases "paused y")
    case True
    then obtain y1 where y1: "ys_poll Y poll y = Some (Pending, y1)" "source y1 = source y" "\<not> paused y1"
      using yield.pause by blast
    have "2 * rank (source y1) + (if paused y1 then 1 else 0) < 2 * rank (source y) + (if paused y then 1 else 0)"
      using y1(2,3) True by simp
    from less.hyps [OF this] less.prems y1(2) obtain n items e y' where
      "collect (steps (ys_poll Y poll)) n y1 () = Some (items, Ready e, (y', ()))"
      "delivered chunk fits bad (rest (source y)) items e" by auto
    then show ?thesis using polls(1) [OF y1(1)] by metis
  next
    case False
    from inner.step [OF less.prems] show ?thesis
    proof (elim disjE exE conjE)
      fix i assume "poll (source y) = Some (Ready None, i)" "rest (source y) = []"
      then show ?thesis
        using yield.go [OF False, of poll] polls(2) delivered_none by metis
    next
      fix x i assume "poll (source y) = Some (Ready (Some (Err x)), i)" "bad x"
      then show ?thesis
        using yield.go [OF False, of poll] polls(3) delivered_error by metis
    next
      fix b i assume i: "poll (source y) = Some (Ready (Some (Ok b)), i)" "ok i"
        "rest (source y) = chunk b @ rest i" "rank i < rank (source y)" "fits b"
      then obtain y1 where y1: "ys_poll Y poll y = Some (Ready (Some (Ok b)), y1)" "source y1 = i"
        using yield.go [OF False, of poll] by blast
      have "2 * rank (source y1) + (if paused y1 then 1 else 0) < 2 * rank (source y) + (if paused y then 1 else 0)"
        using i(4) y1(2) False by simp
      from less.hyps [OF this] i(2) y1(2) obtain n items e y' where
        "collect (steps (ys_poll Y poll)) n y1 () = Some (items, Ready e, (y', ()))"
        "delivered chunk fits bad (rest i) items e" by auto
      then show ?thesis
        using delivered_item [where fits = fits, OF _ i(5), of chunk bad] i(3) polls(4) [OF y1(1)] by metis
    qed
  qed
qed

end

section \<open>Images, split and paced\<close>

locale split_images =
  image_streams fs p_bytes p_patience s_bytes s_off s_patience g_bytes g_off g_patience B +
  split: splittable_bufs B split_if valid
  for fs :: "('p, 's, 'g) olio" and p_bytes p_patience s_bytes s_off s_patience
    and g_bytes g_off g_patience and B :: "'b output_buf" and split_if valid
begin

lemma image_items:
  "item_stream (poll_impl fs B chk lenient) stream_ok stream_rest stream_polls (ob_chunk B) valid
    (\<lambda>e. \<exists>m a. mh_advise fs m a = Some e)"
  by (rule plain_items) (auto intro: split.valid_from split.valid_mmap)

lemma yield_image_collect:
  assumes "yielding Y source paused" and "im_ok b" and "0 < buffer_size_fs (image tune)"
  shows "\<exists>n items e y. collect (steps (yield_poll_next fs B chk Y)) n (yield_image_new fs Y b tune) () =
        Some (items, Ready e, (y, ())) \<and>
      delivered (ob_chunk B) valid (\<lambda>e. \<exists>m a. mh_advise fs m a = Some e) (im_bytes b) items e"
proof -
  let ?y = "yield_image_new fs Y b tune"
  have y: "source ?y = async_image_new fs lenient b tune"
    by (simp add: yield_image_new_def yielding.new(1) [OF assms(1)])
  have "paced_stream (poll_impl fs B chk lenient) stream_ok stream_rest stream_polls (ob_chunk B) valid
      (\<lambda>e. \<exists>m a. mh_advise fs m a = Some e) Y source paused"
    by (intro paced_stream.intro image_items assms(1))
  from paced_stream.paced_collect [OF this, of ?y] show ?thesis
    unfolding y yield_poll_next_def new_stream(2) [OF assms(2,3)] using new_stream(1) [OF assms(2,3)] by blast
qed

lemma split_image_collect:
  assumes "cleaving Cl c_source c_remain c_limit" and "yielding Y source paused"
    and "im_ok b" and "0 < buffer_size_fs (image tune)" and "0 < stream_item_size tune"
  shows "\<exists>n items e y. collect (steps (split_poll_next fs B chk split_if Cl Y)) n
        (split_image_new fs Cl Y b tune) () = Some (items, Ready e, (y, ())) \<and>
      delivered (ob_chunk B) (\<lambda>x. length (ob_chunk B x) \<le> stream_item_size tune)
        (\<lambda>e. \<exists>m a. mh_advise fs m a = Some e) (im_bytes b) items e"
proof -
  let ?y = "split_image_new fs Cl Y b tune" and ?n = "stream_item_size tune"
  have cs: "cleaved_stream (poll_impl fs B chk lenient) stream_ok stream_rest stream_polls
      (\<lambda>e. \<exists>m a. mh_advise fs m a = Some e) B split_if valid Cl c_source c_remain c_limit"
    by (intro cleaved_stream.intro image_items split.splittable_bufs_axioms assms(1))
  note paced = paced_stream.intro [OF cleaved_stream.cleaved_items [OF cs assms(5)] assms(2)]
  have y: "source ?y = cl_new Cl (async_image_new fs lenient b tune) ?n"
    by (simp add: split_image_new_def yielding.new(1) [OF assms(2)])
  have "cleaved_stream.cleaved_ok stream_ok valid c_source c_remain c_limit ?n (source ?y)"
    using new_stream(1) [OF assms(3,4)]
    by (simp add: y cleaved_stream.cleaved_ok_def [OF cs] cleaving.new [OF assms(1)])
  moreover have "cleaved_stream.cleaved_rest stream_rest B c_source c_remain (source ?y) = im_bytes b"
    using new_stream(2) [OF assms(3,4)]
    by (simp add: y cleaved_stream.cleaved_rest_def [OF cs] cleaving.new [OF assms(1)])
  ultimately show ?thesis
    using paced_stream.paced_collect [OF paced, of ?y] unfolding split_poll_next_def by simp
qed

end

interpretation cursor_split: split_images cursor_olio cur_bytes "\<lambda>_. 0" "\<lambda>s. cur_bytes (fst s)"
    "\<lambda>s. cur_pos (fst s)" "\<lambda>_. 0" cur_bytes cur_pos "\<lambda>_. 0" output_uni uni_split_if uni_ok
  by (intro split_images.intro image_streams.intro cursors.olio_files_axioms
      out_uni.output_bufs_axioms split_uni.splittable_bufs_axioms)

text \<open>The stream of an image, split, and paced.\<close>

interpretation image_items: item_stream "poll_impl cursor_olio output_uni chk lenient"
    cursor_split.stream_ok cursor_split.stream_rest cursor_split.stream_polls "ob_chunk output_uni" uni_ok
    "\<lambda>e. \<exists>m a. mh_advise cursor_olio m a = Some e"
  by (rule cursor_split.image_items)

interpretation split_items: cleaved_stream "poll_impl cursor_olio output_uni chk lenient"
    cursor_split.stream_ok cursor_split.stream_rest cursor_split.stream_polls
    "\<lambda>e. \<exists>m a. mh_advise cursor_olio m a = Some e" output_uni uni_split_if uni_ok
    simple_cleaver cd_source cd_remain cd_limit
  by (intro cleaved_stream.intro cursor_split.image_items split_uni.splittable_bufs_axioms
      simple_cleaving.cleaving_axioms)

interpretation yield_items: paced_stream "poll_impl cursor_olio output_uni chk lenient"
    cursor_split.stream_ok cursor_split.stream_rest cursor_split.stream_polls "ob_chunk output_uni" uni_ok
    "\<lambda>e. \<exists>m a. mh_advise cursor_olio m a = Some e" simple_yielder fst snd
  by (intro paced_stream.intro cursor_split.image_items simple_yielding.yielding_axioms)

section \<open>Properties of the split stream\<close>

text \<open>
  C38: An image in any of its states that is read through a \<^verbatim>\<open>SplitBodyImage\<close> is read to its end
  in some number of polls: the items, none longer than \<^verbatim>\<open>stream_item_size\<close>, are the bytes of the
  image in order. The only failure is that of a memory map to be advised, and then the items are a
  prefix. After each item the stream is pending once, so that the executor gets its turn.
\<close>
theorem split_image_bytes:
  assumes "olio_files fs p_bytes p_patience s_bytes s_off s_patience g_bytes g_off g_patience"
    and "splittable_bufs B split_if valid"
    and "cleaving Cl c_source c_remain c_limit" and "yielding Y y_source paused"
    and "image_ok fs s_bytes s_off b" and "0 < buffer_size_fs (image tune)" and "0 < stream_item_size tune"
  shows "(\<exists>n items e y. collect (steps (split_poll_next fs B chk split_if Cl Y)) n
        (split_image_new fs Cl Y b tune) () = Some (items, Ready e, (y, ())) \<and>
      (\<forall>x\<in>set items. length (ob_chunk B x) \<le> stream_item_size tune) \<and>
      (case e of
         None \<Rightarrow> concat (map (ob_chunk B) items) = image_bytes s_bytes b
       | Some f \<Rightarrow> (\<exists>k. concat (map (ob_chunk B) items) = take k (image_bytes s_bytes b)) \<and>
           (\<exists>io. f = Fail io \<and> (\<exists>m a. mh_advise fs m a = Some io)))) \<and>
    spaced (answers (split_poll_next fs B chk split_if Cl Y) n (split_image_new fs Cl Y b tune))"
proof
  have "output_bufs B" using assms(2) by (rule splittable_bufs.axioms(1))
  then have "split_images fs p_bytes p_patience s_bytes s_off s_patience g_bytes g_off g_patience B split_if valid"
    using assms(1,2) by (intro split_images.intro image_streams.intro)
  from split_images.split_image_collect [OF this assms(3-7), unfolded delivered_def]
  show "\<exists>n items e y. collect (steps (split_poll_next fs B chk split_if Cl Y)) n
        (split_image_new fs Cl Y b tune) () = Some (items, Ready e, (y, ())) \<and>
      (\<forall>x\<in>set items. length (ob_chunk B x) \<le> stream_item_size tune) \<and>
      (case e of
         None \<Rightarrow> concat (map (ob_chunk B) items) = image_bytes s_bytes b
       | Some f \<Rightarrow> (\<exists>k. concat (map (ob_chunk B) items) = take k (image_bytes s_bytes b)) \<and>
           (\<exists>io. f = Fail io \<and> (\<exists>m a. mh_advise fs m a = Some io)))" .
  show "spaced (answers (split_poll_next fs B chk split_if Cl Y) n (split_image_new fs Cl Y b tune))"
    using yielding.answers_spaced [OF assms(4)] by (simp add: split_poll_next_def)
qed

text \<open>A mapped image of seven bytes, in items of at most three.\<close>

theorem split_image_bytes_witness:
  "\<exists>n items e y. collect (steps (split_poll_next cursor_olio output_uni True uni_split_if simple_cleaver
        simple_yielder)) n
      (split_image_new cursor_olio simple_cleaver (simple_yielder :: (_, uni_body_buf, _) yielder)
        \<lparr>bi_state = MemMap ''abcdefg'', bi_len = 7\<rparr>
        ((futio_tunables_new ''/tmp'' :: unit futio_tunables)\<lparr>stream_item_size := 3\<rparr>)) () =
      Some (items, Ready e, (y, ())) \<and> (\<forall>x\<in>set items. length (uni_chunk x) \<le> 3) \<and>
    (e = None \<longrightarrow> concat (map uni_chunk items) = ''abcdefg'')"
proof -
  let ?b = "\<lparr>bi_state = MemMap ''abcdefg'', bi_len = 7\<rparr> :: (cursor \<times> nat) body_image"
  let ?t = "(futio_tunables_new ''/tmp'' :: unit futio_tunables)\<lparr>stream_item_size := 3\<rparr>"
  have b: "image_ok cursor_olio (\<lambda>s. cur_bytes (fst s)) (\<lambda>s. cur_pos (fst s)) ?b"
    and bs: "image_bytes (\<lambda>s. cur_bytes (fst s)) ?b = ''abcdefg''"
    by (simp_all add: image_ok_def image_bytes_def)
  have t: "0 < buffer_size_fs (image ?t)" "0 < stream_item_size ?t" "stream_item_size ?t = 3"
    by (simp_all add: futio_tunables_new_def tunables_new_def)
  have chunk: "ob_chunk output_uni = uni_chunk" by (simp add: output_uni_def)
  from conjunct1 [OF split_image_bytes [OF cursors.olio_files_axioms split_uni.splittable_bufs_axioms
      simple_cleaving.cleaving_axioms simple_yielding.yielding_axioms b t(1,2), of True]]
  show ?thesis
    unfolding bs chunk t(3) by (elim ex_forward conj_forward) (auto split: option.splits)
qed

end
