(* ===== verification/Futio_Traits.thy ===== *)
theory Futio_Traits
  imports Futio_Sink Futio_Stream
begin

text \<open>
  The trait implementations of \<^verbatim>\<open>body-image-futio/src/sink.rs\<close> and of \<^verbatim>\<open>stream.rs\<close> that are given by
  the operations of the structs: \<^verbatim>\<open>Sink\<close> for the three sinks, \<^verbatim>\<open>Stream\<close> and \<^verbatim>\<open>http_body::Body\<close> for
  the three images. The lemmas give the protocol of \<^verbatim>\<open>Sink\<close>: after a \<^verbatim>\<open>poll_ready\<close> that returned
  \<^verbatim>\<open>Ok\<close>, \<^verbatim>\<open>start_send\<close> takes the buffer and does not panic, and the sink is not ready for a second
  buffer before the first is flushed.
\<close>

section \<open>Sink\<close>

text \<open>\<^verbatim>\<open>Sink for AsyncBodySink\<close>\<close>

definition async_poll_ready ::
  "'b input_buf \<Rightarrow> 'a arbiter \<Rightarrow> temp_fn \<Rightarrow> ('b, 'a, 'q) async_sink \<Rightarrow> io_script
     \<Rightarrow> (futio_error, unit) result poll \<times> (('b, 'a, 'q) async_sink \<times> io_script)" where
  "async_poll_ready I A tmp s w = poll_flush_impl I A tmp s w"

definition async_start_send ::
  "('b, 'a, 'q) async_sink \<Rightarrow> 'b \<Rightarrow> (futio_error, unit) result \<times> ('b, 'a, 'q) async_sink" where
  "async_start_send s buf = async_send s buf"

definition async_poll_flush ::
  "'b input_buf \<Rightarrow> 'a arbiter \<Rightarrow> temp_fn \<Rightarrow> ('b, 'a, 'q) async_sink \<Rightarrow> io_script
     \<Rightarrow> (futio_error, unit) result poll \<times> (('b, 'a, 'q) async_sink \<times> io_script)" where
  "async_poll_flush I A tmp s w = poll_flush_impl I A tmp s w"

definition async_poll_close ::
  "'b input_buf \<Rightarrow> 'a arbiter \<Rightarrow> temp_fn \<Rightarrow> ('b, 'a, 'q) async_sink \<Rightarrow> io_script
     \<Rightarrow> (futio_error, unit) result poll \<times> (('b, 'a, 'q) async_sink \<times> io_script)" where
  "async_poll_close I A tmp s w = poll_flush_impl I A tmp s w"

text \<open>\<^verbatim>\<open>Sink for PermitBodySink\<close>, \<^verbatim>\<open>Sink for DispatchBodySink\<close>\<close>

definition permit_poll_ready ::
  "'b input_buf \<Rightarrow> temp_fn \<Rightarrow> bool \<Rightarrow> ('b, 'q) permit_sink \<Rightarrow> io_script \<times> schedule
     \<Rightarrow> (futio_error, unit) result poll \<times> (('b, 'q) permit_sink \<times> (io_script \<times> schedule))" where
  "permit_poll_ready I tmp dbg s wq = permit_poll_flush I tmp dbg s wq"

definition permit_poll_close ::
  "'b input_buf \<Rightarrow> temp_fn \<Rightarrow> bool \<Rightarrow> ('b, 'q) permit_sink \<Rightarrow> io_script \<times> schedule
     \<Rightarrow> (futio_error, unit) result poll \<times> (('b, 'q) permit_sink \<times> (io_script \<times> schedule))" where
  "permit_poll_close I tmp dbg s wq = permit_poll_flush I tmp dbg s wq"

definition dispatch_poll_ready ::
  "'b input_buf \<Rightarrow> temp_fn \<Rightarrow> bool \<Rightarrow> bool \<Rightarrow> ('b, 'q) dispatch_sink \<Rightarrow> io_script \<times> schedule
     \<Rightarrow> (futio_error, unit) result poll \<times> (('b, 'q) dispatch_sink \<times> (io_script \<times> schedule))" where
  "dispatch_poll_ready I tmp dbg pool s wq = dispatch_poll_flush I tmp dbg pool s wq"

definition dispatch_poll_close ::
  "'b input_buf \<Rightarrow> temp_fn \<Rightarrow> bool \<Rightarrow> bool \<Rightarrow> ('b, 'q) dispatch_sink \<Rightarrow> io_script \<times> schedule
     \<Rightarrow> (futio_error, unit) result poll \<times> (('b, 'q) dispatch_sink \<times> (io_script \<times> schedule))" where
  "dispatch_poll_close I tmp dbg pool s wq = dispatch_poll_flush I tmp dbg pool s wq"

section \<open>Stream and Body\<close>

text \<open>
  \<^verbatim>\<open>poll_next\<close> of \<^verbatim>\<open>AsyncBodyImage\<close>; \<^verbatim>\<open>poll_data\<close> is the \<^verbatim>\<open>poll_next\<close> of each image, and there are
  no trailers.
\<close>

definition async_poll_next ::
  "('p, 's, 'g) olio \<Rightarrow> 'b output_buf \<Rightarrow> bool \<Rightarrow> 'a arbiter \<Rightarrow> ('s, 'a, 'q) async_image
     \<Rightarrow> ('b item poll \<times> ('s, 'a, 'q) async_image) option" where
  "async_poll_next fs B chk A s = poll_impl fs B chk A s"

definition async_poll_data ::
  "('p, 's, 'g) olio \<Rightarrow> 'b output_buf \<Rightarrow> bool \<Rightarrow> 'a arbiter \<Rightarrow> ('s, 'a, 'q) async_image
     \<Rightarrow> ('b item poll \<times> ('s, 'a, 'q) async_image) option" where
  "async_poll_data fs B chk A s = async_poll_next fs B chk A s"

definition async_poll_trailers :: "('s, 'a, 'q) async_image \<Rightarrow> (io_error, 'h option) result poll" where
  "async_poll_trailers s = Ready (Ok None)"

text \<open>\<^verbatim>\<open>Body for PermitBodyImage\<close>, \<^verbatim>\<open>Body for DispatchBodyImage\<close>\<close>

definition permit_poll_data ::
  "('p, 's, 'g) olio \<Rightarrow> 'b output_buf \<Rightarrow> bool \<Rightarrow> bool \<Rightarrow> io_error \<Rightarrow> ('s, 'q) permit_image \<Rightarrow> schedule
     \<Rightarrow> ('b item poll \<times> (('s, 'q) permit_image \<times> schedule)) option" where
  "permit_poll_data fs B chk dbg cio s q = permit_poll_next fs B chk dbg cio s q"

definition permit_poll_trailers :: "('s, 'q) permit_image \<Rightarrow> (io_error, 'h option) result poll" where
  "permit_poll_trailers s = Ready (Ok None)"

definition dispatch_poll_data ::
  "('p, 's, 'g) olio \<Rightarrow> 'b output_buf \<Rightarrow> bool \<Rightarrow> bool \<Rightarrow> io_error \<Rightarrow> bool \<Rightarrow> ('s, 'q) dispatch_image
     \<Rightarrow> schedule \<Rightarrow> ('b item poll \<times> (('s, 'q) dispatch_image \<times> schedule)) option" where
  "dispatch_poll_data fs B chk dbg cio pool s q = dispatch_poll_next fs B chk dbg cio pool s q"

definition dispatch_poll_trailers :: "('s, 'q) dispatch_image \<Rightarrow> (io_error, 'h option) result poll" where
  "dispatch_poll_trailers s = Ready (Ok None)"

section \<open>The protocol of Sink\<close>

text \<open>
  \<open>held\<close> is the buffer that the sink was given and has not written. A sink that is ready, flushed or
  closed holds none, and then takes one.
\<close>

locale sink_protocol =
  fixes ready flush close :: "'k \<Rightarrow> 'w \<Rightarrow> (futio_error, unit) result poll \<times> ('k \<times> 'w)"
    and send :: "'k \<Rightarrow> 'b \<Rightarrow> (futio_error, unit) result \<times> 'k" and free :: "'k \<Rightarrow> bool"
  assumes ready_free: "ready k w = (Ready (Ok ()), (k', w')) \<Longrightarrow> free k'"
    and flush_free: "flush k w = (Ready (Ok ()), (k', w')) \<Longrightarrow> free k'"
    and close_free: "close k w = (Ready (Ok ()), (k', w')) \<Longrightarrow> free k'"
    and send_free: "free k \<Longrightarrow> \<exists>k'. send k b = (Ok (), k') \<and> \<not> free k'"
begin

text \<open>Readying and sending each of some buffers, then closing: no send is refused.\<close>

fun send_each :: "'k \<Rightarrow> 'w \<Rightarrow> 'b list \<Rightarrow> (futio_error, unit) result poll list \<times> ('k \<times> 'w)" where
  "send_each k w [] = (case close k w of (r, kw) \<Rightarrow> ([r], kw))"
| "send_each k w (b # bs) =
     (case ready k w of
        (Ready (Inr u), (k', w')) \<Rightarrow>
          (case send k' b of
             (r, k'') \<Rightarrow> (case send_each k'' w' bs of (rs, kw) \<Rightarrow> (Ready r # rs, kw)))
      | (r, kw) \<Rightarrow> ([r], kw))"

lemma sends_accepted: "send_each k w bs = (rs, kw) \<Longrightarrow> r \<in> set (butlast rs) \<Longrightarrow> r = Ready (Ok ())"
proof (induction bs arbitrary: k w rs)
  case (Cons b bs)
  obtain p k1 w1 where p: "ready k w = (p, (k1, w1))" by (cases "ready k w") auto
  show ?case
  proof (cases "p = Ready (Ok ())")
    case True
    then obtain k2 where "send k1 b = (Ok (), k2)" using ready_free send_free p by blast
    then show ?thesis
      using Cons p True by (auto split: prod.splits if_splits)
  qed (use Cons.prems p in \<open>auto split: poll.splits sum.splits prod.splits\<close>)
qed (auto split: prod.splits)

end

lemma send_free_async:
  "as_buf s = None \<Longrightarrow> \<exists>s'. async_send s b = (Ok (), s') \<and> as_buf s' \<noteq> None"
  by (simp add: async_send_def)

lemma poll_send_buf: "poll_send I A tmp s buf w = (r, (s', w')) \<Longrightarrow> as_buf s' = as_buf s"
  by (auto simp: poll_send_def Let_def split: if_splits prod.splits)

lemma flushed_free: "poll_flush_impl I A tmp s w = (Ready (Ok ()), (s', w')) \<Longrightarrow> as_buf s' = None"
  by (auto simp: poll_flush_impl_def dest: poll_send_buf split: option.splits prod.splits sum.splits)

interpretation async_protocol: sink_protocol "async_poll_ready I A tmp" "async_poll_flush I A tmp"
    "async_poll_close I A tmp" async_start_send "\<lambda>s. as_buf s = None"
  by unfold_locales
    (auto simp: async_poll_ready_def async_poll_flush_def async_poll_close_def async_start_send_def
      async_send_def dest: flushed_free)

lemma permit_flushed_free:
  "permit_poll_flush I tmp dbg s wq = (Ready (Ok ()), (s', wq')) \<Longrightarrow> as_buf (ps_sink s') = None"
  by (auto simp: permit_poll_flush_def permit_polled_def dest: flushed_free
      split: prod.splits if_splits fut_poll.splits option.splits)

interpretation permit_protocol: sink_protocol "permit_poll_ready I tmp dbg" "permit_poll_flush I tmp dbg"
    "permit_poll_close I tmp dbg" permit_start_send "\<lambda>s. as_buf (ps_sink s) = None"
  by unfold_locales
    (auto simp: permit_poll_ready_def permit_poll_close_def permit_start_send_def async_send_def
      dest: permit_flushed_free)

definition dispatch_free :: "('b, 'q) dispatch_sink \<Rightarrow> bool" where
  "dispatch_free s = (case s of DispSink (Some ob) \<Rightarrow> as_buf ob = None | _ \<Rightarrow> False)"

lemma dispatch_polled_free:
  "dispatch_polled I tmp dbg ob wq = (Ready (Ok ()), (s', wq')) \<Longrightarrow> dispatch_free s'"
  by (auto simp: dispatch_free_def dispatch_polled_def dest: flushed_free
      split: prod.splits if_splits fut_poll.splits)

lemma dispatch_flushed_free:
  "dispatch_poll_flush I tmp dbg pool s wq = (Ready (Ok ()), (s', wq')) \<Longrightarrow> dispatch_free s'"
  by (induction I tmp dbg pool s wq rule: dispatch_poll_flush.induct)
    (auto dest: dispatch_polled_free flushed_free simp: dispatch_free_def split: prod.splits if_splits)

lemma dispatch_send_free:
  "dispatch_free s \<Longrightarrow> \<exists>s'. dispatch_start_send s b = (Ok (), s') \<and> \<not> dispatch_free s'"
  by (auto simp: dispatch_free_def async_send_def split: dispatch_sink.splits option.splits)

interpretation dispatch_protocol: sink_protocol "dispatch_poll_ready I tmp dbg pool"
    "dispatch_poll_flush I tmp dbg pool" "dispatch_poll_close I tmp dbg pool" dispatch_start_send dispatch_free
  by unfold_locales
    (auto simp: dispatch_poll_ready_def dispatch_poll_close_def dest: dispatch_flushed_free dispatch_send_free)

section \<open>No data at the close of a Body\<close>

text \<open>
  A body whose \<^verbatim>\<open>is_end_stream\<close> holds has no more data, and a poll changes nothing, unless more was
  read than the length given. An image that is with a dispatched operation is not asked.
\<close>

lemma async_no_data:
  "is_end_stream s \<Longrightarrow> ai_consumed s \<le> ai_len s \<Longrightarrow> async_poll_data fs B chk A s = Some (Ready None, s)"
  by (simp add: async_poll_data_def async_poll_next_def poll_impl_def is_end_stream_def u64_sub_def)

lemma permit_no_data:
  "permit_is_end_stream s \<Longrightarrow> ai_consumed (pi_image s) \<le> ai_len (pi_image s) \<Longrightarrow> \<not> pi_permit s \<Longrightarrow>
   permit_poll_data fs B chk dbg cio s q = Some (Ready None, (s, q))"
  using async_no_data [of "pi_image s" fs B chk stateful]
  by (simp add: permit_is_end_stream_def permit_poll_data_def permit_poll_next_def async_poll_data_def
      async_poll_next_def)

lemma dispatch_no_data:
  "dispatch_is_end_stream s = (Ok True :: ('e, bool) result) \<Longrightarrow> di_state s = DimImage (Some ob) \<Longrightarrow>
   ai_consumed ob \<le> ai_len ob \<Longrightarrow>
   dispatch_poll_data fs B chk dbg cio pool s q = Some (Ready None, (s, q))"
  using async_no_data [of ob fs B chk stateful]
  by (cases s) (simp add: dispatch_is_end_stream_def dispatch_poll_data_def dispatch_poll_next_def
      async_poll_data_def async_poll_next_def)

end
