(* ===== verification/Build_Script.thy ===== *)
theory Build_Script
  imports Barc_Cli Error_Text Piccolog "HOL-Library.List_Lexorder"
begin

text \<open>
  The build scripts of the crates (\<^verbatim>\<open>build.rs\<close>), which are the same but for the name of the package
  and the version they require: the compiler's version is read from what \<^verbatim>\<open>rustc --version\<close> prints,
  and compared with the minimum. What the compiler prints is an argument.

  The theorem says that any line of the form the compilers print is read as the version it shows,
  and that the build stops exactly if that version is below the minimum.
\<close>

section \<open>Reading the version\<close>

text \<open>\<^verbatim>\<open>str::split\<close> by a character, and \<^verbatim>\<open>str::lines\<close>, where a line may end with CR LF.\<close>

fun split_on :: "byte \<Rightarrow> bytes \<Rightarrow> bytes list" where
  "split_on x [] = [[]]"
| "split_on x (c # cs) =
     (if c = x then [] # split_on x cs
      else case split_on x cs of w # ws \<Rightarrow> (c # w) # ws | [] \<Rightarrow> [[c]])"

definition strip_cr :: "bytes \<Rightarrow> bytes" where
  "strip_cr l = (if l \<noteq> [] \<and> last l = CR then butlast l else l)"

definition text_lines :: "bytes \<Rightarrow> bytes list" where
  "text_lines s =
     (let ls = split_on LF s
      in map strip_cr (butlast ls) @ (if last ls = [] then [] else [last ls]))"

definition parse_u16 :: "bytes \<Rightarrow> nat option" where
  "parse_u16 s =
     (case from_str_radix 10 s of Inr n \<Rightarrow> if n < 2 ^ 16 then Some n else None | Inl e \<Rightarrow> None)"

fun find_version :: "bytes list \<Rightarrow> ('e, nat list) result" where
  "find_version [] = panic ''rustc version not found''"
| "find_version (l # ls) =
     (if starts_with l ''rustc ''
      then (let v = takeWhile (\<lambda>c. c \<noteq> CHR '' '') (drop 6 l);
                vs = List.map_filter parse_u16 (split_on (CHR ''.'') (hd (split_on (CHR ''-'') v)))
            in if vs \<noteq> [] then Ok vs else find_version ls)
      else find_version ls)"

definition rustc_version :: "io_error + bytes \<Rightarrow> ('e, nat list) result" where
  "rustc_version out =
     (case out of
        Inl e \<Rightarrow> panic ''called `Result::unwrap()` on an `Err` value''
      | Inr s \<Rightarrow>
          if \<not> utf8_valid s then panic ''called `Result::unwrap()` on an `Err` value''
          else find_version (text_lines s))"

section \<open>The scripts\<close>

fun join_from :: "bytes \<Rightarrow> nat list \<Rightarrow> bytes" where
  "join_from out [] = out"
| "join_from out (v # vs) =
     join_from ((if out \<noteq> [] then out @ ''.'' else out) @ dec_text v) vs"

definition join_version :: "nat list \<Rightarrow> bytes" where
  "join_version ver = join_from [] ver"

text \<open>Vectors are compared lexicographically, a prefix before what extends it.\<close>

definition check_msrv ::
  "bytes \<Rightarrow> bytes \<Rightarrow> nat list \<Rightarrow> io_error + bytes \<Rightarrow> ('e, unit) result" where
  "check_msrv package version msrv out =
     bindR (rustc_version out) (\<lambda>rustv.
       if rustv < msrv
       then panic (package @ '' v'' @ version @ '' minimum supported rust version (MSRV) is '' @
         join_version msrv @ '' > '' @ join_version rustv @ '' (this rustc)'')
       else Ok ())"

definition body_image_build :: "bytes \<Rightarrow> io_error + bytes \<Rightarrow> ('e, unit) result" where
  "body_image_build version = check_msrv ''body-image'' version [1, 39]"

definition barc_build :: "bytes \<Rightarrow> io_error + bytes \<Rightarrow> ('e, unit) result" where
  "barc_build version = check_msrv ''barc'' version [1, 39]"

definition futio_build :: "bytes \<Rightarrow> io_error + bytes \<Rightarrow> ('e, unit) result" where
  "futio_build version = check_msrv ''body-image-futio'' version [1, 45, 2]"

definition piccolog_build :: "bytes \<Rightarrow> io_error + bytes \<Rightarrow> ('e, unit) result" where
  "piccolog_build version = check_msrv ''piccolog'' version [1, 39]"

text \<open>\<open>features\<close>: one of the features \<^verbatim>\<open>futio\<close>, \<^verbatim>\<open>mmap\<close> and \<^verbatim>\<open>brotli\<close> is on.\<close>

definition barc_cli_build :: "bool \<Rightarrow> bytes \<Rightarrow> io_error + bytes \<Rightarrow> ('e, unit) result" where
  "barc_cli_build features version =
     check_msrv ''barc-cli'' version (if features then [1, 45, 2] else [1, 39])"

section \<open>Lemmas\<close>

lemma split_on_nonempty [simp]: "split_on x s \<noteq> []"
  by (induction x s rule: split_on.induct) (auto split: list.splits)

lemma hd_split_on: "hd (split_on x s) = takeWhile (\<lambda>c. c \<noteq> x) s"
  by (induction x s rule: split_on.induct) (auto split: list.splits)

lemma split_on_word [simp]: "x \<notin> set w \<Longrightarrow> split_on x w = [w]"
  by (induction w) auto

lemma split_on_append [simp]: "x \<notin> set w \<Longrightarrow> split_on x (w @ x # s) = w # split_on x s"
  by (induction w) auto

lemma text_lines_cons [simp]: "LF \<notin> set l \<Longrightarrow> text_lines (l @ LF # s) = strip_cr l # text_lines s"
  by (simp add: text_lines_def Let_def)

lemma strip_cr_append: "w \<noteq> [] \<Longrightarrow> last w \<noteq> CR \<Longrightarrow> strip_cr (w @ l) = w @ strip_cr l"
  by (simp add: strip_cr_def butlast_append)

lemma dec_text_digits: "c \<in> set (dec_text n) \<Longrightarrow> 48 \<le> (of_char c :: nat) \<and> (of_char c :: nat) \<le> 57"
proof (induction n rule: dec_text.induct)
  case (1 n)
  then show ?case
    by (subst (asm) (2) dec_text.simps) (auto simp: dec_char_def split: if_splits)
qed

lemma dec_text_nonempty [simp]: "dec_text n \<noteq> []"
  by (subst dec_text.simps) simp

lemma digits_from_append:
  "digits_from radix v (a @ b) =
     (case digits_from radix v a of None \<Rightarrow> None | Some w \<Rightarrow> digits_from radix w b)"
  by (induction radix v a rule: digits_from.induct) (simp_all split: option.splits)

lemma digits_from_dec_text: "n < 2 ^ 64 \<Longrightarrow> digits_from 10 0 (dec_text n) = Some n"
proof (induction n rule: dec_text.induct)
  case (1 n)
  have digit: "digit_of 10 (dec_char d) = Some d" if "d < 10" for d
    using that by (simp add: digit_of_def dec_char_def Let_def)
  show ?case
    using 1 by (subst dec_text.simps) (auto simp: digit digits_from_append)
qed

lemma parse_u16_dec_text: "n < 2 ^ 16 \<Longrightarrow> parse_u16 (dec_text n) = Some n"
proof -
  assume n: "n < 2 ^ 16"
  obtain c cs where c: "dec_text n = c # cs" by (cases "dec_text n") auto
  have "c \<noteq> CHR ''+''" using dec_text_digits [of c n] c by auto
  then show ?thesis
    using n digits_from_dec_text [of n] c by (simp add: parse_u16_def from_str_radix_def)
qed

lemma join_from_eq:
  "out \<noteq> [] \<Longrightarrow> join_from out vs = out @ concat (map (\<lambda>v. ''.'' @ dec_text v) vs)"
  by (induction vs arbitrary: out) simp_all

lemma join_version_Cons:
  "join_version (v # vs) = dec_text v @ concat (map (\<lambda>v. ''.'' @ dec_text v) vs)"
  by (simp add: join_version_def join_from_eq)

lemma dec_text_excludes [simp]:
  "CHR ''.'' \<notin> set (dec_text n)" "CHR ''-'' \<notin> set (dec_text n)" "CHR '' '' \<notin> set (dec_text n)"
  "LF \<notin> set (dec_text n)" "CR \<notin> set (dec_text n)"
  using dec_text_digits [of "CHR ''.''" n] dec_text_digits [of "CHR ''-''" n]
    dec_text_digits [of "CHR '' ''" n] dec_text_digits [of LF n] dec_text_digits [of CR n]
  by auto

lemma join_version_excludes [simp]:
  "CHR ''-'' \<notin> set (join_version vs)" "CHR '' '' \<notin> set (join_version vs)"
  "LF \<notin> set (join_version vs)"
proof -
  have "set (join_version vs) \<subseteq> insert (CHR ''.'') (\<Union>v\<in>set vs. set (dec_text v))"
    by (cases vs) (auto simp: join_version_Cons, simp add: join_version_def)
  then show "CHR ''-'' \<notin> set (join_version vs)" "CHR '' '' \<notin> set (join_version vs)"
    "LF \<notin> set (join_version vs)"
    by auto
qed

lemma takeWhile_word: "x \<notin> set w \<Longrightarrow> takeWhile (\<lambda>c. c \<noteq> x) (w @ s) = w @ takeWhile (\<lambda>c. c \<noteq> x) s"
  by (induction w) auto

lemma takeWhile_all: "x \<notin> set w \<Longrightarrow> takeWhile (\<lambda>c. c \<noteq> x) w = w"
  by (induction w) auto

lemma split_join_version: "vs \<noteq> [] \<Longrightarrow> split_on (CHR ''.'') (join_version vs) = map dec_text vs"
proof (induction vs)
  case (Cons v vs)
  show ?case
  proof (cases vs)
    case Nil
    then show ?thesis by (simp add: join_version_Cons)
  next
    case (Cons w ws)
    then have "join_version (v # vs) = dec_text v @ CHR ''.'' # join_version vs"
      by (simp add: join_version_Cons)
    then show ?thesis using Cons.IH Cons by simp
  qed
qed simp

lemma map_filter_dec_text:
  "\<forall>v\<in>set vs. v < 2 ^ 16 \<Longrightarrow> List.map_filter parse_u16 (map dec_text vs) = vs"
  by (induction vs) (simp_all add: parse_u16_dec_text List.map_filter_simps)

section \<open>What a build checks\<close>

text \<open>A line as the compilers print it: version, an optional suffix after a hyphen, and more.\<close>

lemma rustc_version_printed:
  assumes "vs \<noteq> []" and "\<forall>v\<in>set vs. v < 2 ^ 16" and "suffix = [] \<or> hd suffix = CHR ''-''"
    and "CHR '' '' \<notin> set suffix" and "LF \<notin> set (suffix @ info)"
    and "s = ''rustc '' @ join_version vs @ suffix @ '' '' @ info @ [LF] @ rest" and "utf8_valid s"
  shows "rustc_version (Inr s) = Ok vs"
proof -
  let ?l = "''rustc '' @ join_version vs @ suffix @ '' ''"
  have "text_lines s = strip_cr (?l @ info) # text_lines rest"
    using assms(5,6) text_lines_cons [of "?l @ info" rest] by simp
  moreover have "strip_cr (?l @ info) = ?l @ strip_cr info"
    by (rule strip_cr_append) simp_all
  moreover have "takeWhile (\<lambda>c. c \<noteq> CHR '' '') (join_version vs @ suffix @ '' '' @ strip_cr info) =
      join_version vs @ suffix"
    using assms(4) by (simp add: takeWhile_word)
  moreover have "takeWhile (\<lambda>c. c \<noteq> CHR ''-'') (join_version vs @ suffix) = join_version vs"
    using assms(3) by (cases suffix) (simp_all add: takeWhile_word takeWhile_all)
  ultimately show ?thesis
    using assms(1,2,7)
    by (simp add: rustc_version_def starts_with_def hd_split_on split_join_version map_filter_dec_text)
qed

text \<open>
  A build goes on exactly if the version that the compiler prints is not below the minimum, in the
  lexicographic order; otherwise it stops with a message that names both. A pre-release counts as
  the release it precedes.
\<close>
theorem build_checks_version:
  assumes "vs \<noteq> []" and "\<forall>v\<in>set vs. v < 2 ^ 16" and "suffix = [] \<or> hd suffix = CHR ''-''"
    and "CHR '' '' \<notin> set suffix" and "LF \<notin> set (suffix @ info)"
    and "s = ''rustc '' @ join_version vs @ suffix @ '' '' @ info @ [LF] @ rest" and "utf8_valid s"
  shows "(check_msrv package version msrv (Inr s) = (Ok () :: ('e, unit) result) \<longleftrightarrow> msrv \<le> vs) \<and>
    (\<not> msrv \<le> vs \<longrightarrow> check_msrv package version msrv (Inr s) =
      (panic (package @ '' v'' @ version @ '' minimum supported rust version (MSRV) is '' @
        join_version msrv @ '' > '' @ join_version vs @ '' (this rustc)'') :: ('e, unit) result))"
proof -
  have "rustc_version (Inr s) = (Ok vs :: ('e, nat list) result)"
    by (rule rustc_version_printed [OF assms])
  then show ?thesis by (auto simp: check_msrv_def not_less not_le)
qed

theorem build_checks_version_witness:
  "barc_cli_build True ''3.0.0'' (Inr (''rustc '' @ join_version [1, 45, 2] @ ''-nightly'' @ '' '' @
     ''(d3fb005a3 2020-07-31)'' @ [LF] @ [])) = (Ok () :: (unit, unit) result)"
proof -
  let ?s = "''rustc '' @ join_version [1, 45, 2] @ ''-nightly'' @ '' '' @
     ''(d3fb005a3 2020-07-31)'' @ [LF] @ []"
  have "utf8_valid ?s"
    by (rule utf8_valid_ascii) (auto dest: dec_text_digits simp: join_version_Cons)
  then show ?thesis
    using build_checks_version [of "[1, 45, 2]" "''-nightly''" "''(d3fb005a3 2020-07-31)''" ?s "[]"
        "''barc-cli''" "''3.0.0''" "[1, 45, 2]", where 'e = unit]
    by (simp add: barc_cli_build_def)
qed

end
