(* ===== verification/Spec2Isabelle.thy ===== *)
theory Spec2Isabelle
  imports Tune Body_Image Image_Read Barc_File Barc_Cli Dialog
    Futio_Decode Futio_Forward Futio_Collect Barc_Record
    Barc_Compressed Barc_Main Error_Text Futio_Split Futio_Traits Build_Script
begin

text \<open>
  A verification library for \<^emph>\<open>body-image\<close>, a workspace of Rust crates for HTTP bodies and
  their recordings in BARC files.

  \<^bold>\<open>The program.\<close> The crate \<^verbatim>\<open>body-image\<close> holds a body in RAM, in a temporary file or memory
  mapped: a \<^verbatim>\<open>BodySink\<close> is written and prepared into a \<^verbatim>\<open>BodyImage\<close>, which is read. The crate
  \<^verbatim>\<open>barc\<close> writes pairs of such bodies with their headers as records of a file, plain or
  compressed, and reads them back. The crate \<^verbatim>\<open>body-image-futio\<close> makes sinks and streams of
  futures out of bodies, where blocking is allowed directly, after a permit, or on a dispatch pool,
  and fetches the \<^verbatim>\<open>Dialog\<close> of a request with them. The tool \<^verbatim>\<open>barc\<close> prints, copies and records
  BARC files; \<^verbatim>\<open>piccolog\<close> is its logger.

  \<^bold>\<open>The theories.\<close> Each names its source in its own header; the definitions carry the names of
  the functions they model.

  \<^item> \<^verbatim>\<open>BI_Prelude\<close>, \<^verbatim>\<open>Std_IO\<close>: results with panics (\<open>result\<close>, \<open>bindT\<close>, and \<open>outcome\<close> with
    \<open>bindO\<close> for code that may not return), unsigned 64 bit arithmetic with and without overflow
    checks, and of the standard library the loops of \<^verbatim>\<open>Read\<close> and \<^verbatim>\<open>Write\<close>, \<^verbatim>\<open>Cursor\<close> and \<^verbatim>\<open>File\<close>.
    The contracts of writers and readers are the locales \<open>write_sink\<close>, \<open>read_source\<close> and
    \<open>steady_source\<close>.
  \<^item> \<^verbatim>\<open>Errors\<close>, \<^verbatim>\<open>Futio_Error\<close>, \<^verbatim>\<open>Error_Text\<close>: the error enumerations of all crates, with their
    texts and causes.
  \<^item> \<^verbatim>\<open>Tune\<close>: \<^verbatim>\<open>Tunables\<close>, \<^verbatim>\<open>FutioTunables\<close> and their builders.
  \<^item> \<^verbatim>\<open>Body_Sink\<close>, \<^verbatim>\<open>Body_Image\<close>, \<^verbatim>\<open>Image_Read\<close>: \<^verbatim>\<open>body-image/src/lib.rs\<close> and
    \<^verbatim>\<open>_mem_handle_ext.rs\<close>. A sink is \<open>body_sink\<close> and an image \<open>body_image\<close>; \<open>sink_bytes\<close> and
    \<open>image_holds\<close> abstract both to a list of bytes, and every operation is related to an
    operation on that list.
  \<^item> \<^verbatim>\<open>Barc_Head\<close>: the 54 bytes of a record head. \<^verbatim>\<open>Compress\<close>: the record, the strategies and
    the encoders of \<^verbatim>\<open>barc/src/compress.rs\<close>. \<^verbatim>\<open>Barc_Write\<close>, \<^verbatim>\<open>Barc_Read\<close>: the two directions
    of \<^verbatim>\<open>barc/src/lib.rs\<close>. \<^verbatim>\<open>Barc_File\<close>: the file shared by writers and readers, with the step
    relation \<open>barc_step\<close> of its writing side and its reachable states. \<^verbatim>\<open>Barc_Compressed\<close>: the
    same for compressed records, and when a write of any kind succeeds, over the contracts of
    encoders and decoders. \<^verbatim>\<open>Read_Guard\<close>: code that reads from a source cannot tell it from one
    that fails in states it does not meet, so that a decoder's contract need only speak of streams
    that its format admits.
  \<^item> \<^verbatim>\<open>Dialog\<close>: \<^verbatim>\<open>Prolog\<close>, \<^verbatim>\<open>Epilog\<close>, \<^verbatim>\<open>Dialog\<close> and their conversion to a record and back.
  \<^item> \<^verbatim>\<open>Futio_Decode\<close>: \<^verbatim>\<open>decode.rs\<close>. \<^verbatim>\<open>Futio_Buf\<close>: \<^verbatim>\<open>mem_map_buf.rs\<close>, \<^verbatim>\<open>uni_body_buf.rs\<close>
    and the buffer traits. \<^verbatim>\<open>Futio_Blocking\<close>: \<^verbatim>\<open>blocking.rs\<close>. \<^verbatim>\<open>Futio_Sink\<close>,
    \<^verbatim>\<open>Futio_Stream\<close>: \<^verbatim>\<open>sink.rs\<close> and \<^verbatim>\<open>stream.rs\<close>. \<^verbatim>\<open>Futio_Send\<close>, \<^verbatim>\<open>Futio_Forward\<close> and
    \<^verbatim>\<open>Futio_Collect\<close> run them with a client: \<open>drive\<close> polls a sink and sends it buffers, \<open>collect\<close>
    polls a stream for its items. \<^verbatim>\<open>Futio_Traits\<close> has the implementations of \<^verbatim>\<open>Sink\<close>, \<^verbatim>\<open>Stream\<close> and
    \<^verbatim>\<open>Body\<close> that delegate to those operations, and the protocol of a sink's client as the locale
    \<open>sink_protocol\<close>; \<^verbatim>\<open>Futio_Split\<close> has \<^verbatim>\<open>SplitBodyImage\<close> and \<^verbatim>\<open>YieldBodyImage\<close>, as a stream of
    items (\<open>item_stream\<close>) that is split and paced. \<^verbatim>\<open>Futio_Client\<close>, \<^verbatim>\<open>Futio_Fetch\<close>:
    \<^verbatim>\<open>wrappers.rs\<close>, \<^verbatim>\<open>fetch.rs\<close> and the client's part of \<^verbatim>\<open>body-image-futio/src/lib.rs\<close>.
  \<^item> \<^verbatim>\<open>Barc_Cli\<close>, \<^verbatim>\<open>Barc_Record\<close>, \<^verbatim>\<open>Barc_Main\<close>: the commands of \<^verbatim>\<open>barc-cli\<close> and their
    dispatch. \<^verbatim>\<open>Piccolog\<close>: \<^verbatim>\<open>piccolog/src/lib.rs\<close>. \<^verbatim>\<open>Build_Script\<close>: the \<^verbatim>\<open>build.rs\<close> of
    each crate.
  \<^item> \<^verbatim>\<open>Http\<close>, \<^verbatim>\<open>Olio\<close>, \<^verbatim>\<open>Bytes_Buf\<close>: the interfaces of crates that are not in the
    repository, below.

  \<^bold>\<open>What is outside.\<close> A crate that is not in the repository is a record of its operations, which
  the definitions take as an argument, and a locale of the laws the code relies on: headers, URLs,
  media types and their parsers (\<open>http\<close>, \<open>hyperx\<close>), positioned reads, slices and maps of a file
  (\<open>olio\<close>), growing buffers (\<open>bytes_mut\<close>), combinators of streams (\<open>cleaver\<close>,
  \<open>yielder\<close>), encoders and decoders (\<open>codecs\<close>, \<open>decoders\<close>, \<open>decompressors\<close>), HTTP messages as \<open>request_record\<close>, \<open>response\<close> and \<open>fetch_env\<close>. Every such
  locale is interpreted on concrete functions, which the witnesses compute with: association lists
  for headers, cursors for files, growing lists for buffers, and a small format for encoders and
  decoders, which buffers its input, changes its bytes, marks its end and rejects what is not in it.

  Of an encoder \<open>encoder_format\<close> states that what it has written and still holds, once finished, is
  in the format; for gzip (\<open>finishing_encoder\<close>) that is so whenever \<^verbatim>\<open>finish\<close> returns without an
  error. For Brotli (\<open>flushing_encoder\<close>) \<^verbatim>\<open>finish\<close> only flushes, and \<^verbatim>\<open>Drop\<close> writes the last block
  and ignores failures: nothing is assumed about a \<^verbatim>\<open>Drop\<close> whose writes may fail, and the
  properties of Brotli records are stated for writes during which the file system does not. A
  decoder (\<open>decoder_format\<close>) gives the original bytes, and no error, for a stream in the format
  and only there; what it does with other streams is left open.

  The file system's failures are an \<open>io_script\<close>, one entry for each operation that can fail, which
  says whether it does and how many bytes of a write arrive first; a theorem for all scripts is one
  for all failures, and a \<open>calm\<close> script has none. The executor is a schedule: when a permit or a
  dispatched operation is pending, granted or canceled. \<open>chk\<close> says whether the build checks for
  overflow; without checks arithmetic wraps at 64 bits.

  \<^bold>\<open>What is shown.\<close>

  \<^item> Bodies: all views of an image have the bytes that were pushed into its sink, whatever was done
    to it; \<^verbatim>\<open>read_from\<close> has the whole source in RAM or in a file by the limits, and how far one
    buffer takes it.
  \<^item> BARC: heads, plain and compressed records and dialogs are read back as they were written.
    A writer's failures and panics leave one of the listed states; by induction over the runs of
    \<open>barc_step\<close> the file only grows, and a record whose \<^verbatim>\<open>write\<close> returned stays in it under its
    head, and is read from there if the format allows (at most 128 headers in a block, a type that
    is not reserved) and, for Brotli, its write met no failure of the file system. What a reader
    does at an unfinished record depends on how much of its head is final. The staged decision whether to
    compress is a single comparison.
  \<^item> Sinks and streams: what is sent or received through the plain ones, and that those with
    permits or dispatched operations refine them under every schedule, and end if the
    schedule grants enough; a stream that is split and paced has the same bytes, in bounded items.
  \<^item> Fetching: the dialog has the request and all bytes of the response; the requests
    recorded by any of the methods send the body of the recording.
  \<^item> Command line: \<^verbatim>\<open>cp\<close>, \<^verbatim>\<open>cat\<close> and \<^verbatim>\<open>record\<close> through all layers; the logger's lines.
  \<^item> Flaws that the proofs of the properties met are stated as theorems of what the code does:
    a reader's panics on heads with impossible lengths, a head torn between its flags and its
    lengths, the unbounded buffer of \<^verbatim>\<open>read_from\<close>, the count and the offset after skipped records,
    dialogs that are decoded and then do not convert back, streams over a truncated file, a Brotli
    record whose last block is lost without an error, and the policy \<^verbatim>\<open>Dispatch\<close> in \<^verbatim>\<open>fetch\<close>, whose
    runtime has no pool.

  \<^bold>\<open>Loops and bounds.\<close> A loop over a reader may run forever, since a reader can answer
  \<^verbatim>\<open>Interrupted\<close> again and again: such loops are \<^theory_text>\<open>partial_function (option)\<close>, and the properties
  state that they return (\<open>Some\<close>) for every source that is interrupted finitely often, which is
  the \<open>patience\<close> of \<open>read_source\<close>. Clients of futures have fuel, the number \<open>n\<close> of polls in \<open>drive\<close>
  and \<open>collect\<close>: the property of the plain sink states how many polls suffice, those of the streams
  and of the sinks that wait that some number does, if the schedule grants enough permits; \<open>drive_on\<close> in
  \<^verbatim>\<open>Futio_Fetch\<close> is \<open>drive\<close> without the bound, and returns what \<open>drive\<close> does. Lengths
  are natural numbers where the code cannot exceed 64 bits and are wrapped or checked where it computes; the fields of a head are bounded by their
  digits, and writing a larger one is a panic.

  \<^bold>\<open>Not modelled.\<close> The declaration of the command line arguments and the help texts, which are
  input to \<^emph>\<open>clap\<close>, whose result is the record
  \<open>matches\<close>; the set-up of the runtime, of the connector and of \<^emph>\<open>hyper\<close>'s client, whose answers
  are \<open>fetch_env\<close> (but that \<^verbatim>\<open>fetch\<close> registers no pool with its threads is in the model);
  that two names can be those of one file, which \<^verbatim>\<open>cp\<close> does not see either; the texts of \<^verbatim>\<open>io::Error\<close> and \<^verbatim>\<open>Duration\<close>, which are parameters of
  \<^verbatim>\<open>Error_Text\<close>; \<^verbatim>\<open>Debug\<close> implementations and accessors that return a field; tests and benchmarks.
\<close>

end
